(* ===== verification/Prelude.thy ===== *)
theory Prelude
  imports Main "HOL-Library.Word" "HOL-Library.List_Lexorder" "HOL-Library.Sublist"
begin

text \<open>
  The vocabulary that every component of the LSM-tree store shares: bytes and byte
  strings for \<^verbatim>\<open>uint8_t\<close>, \<^verbatim>\<open>std::string\<close> and \<^verbatim>\<open>std::vector<uint8_t>\<close>, the
  fixed-width integers, the outcome of a C++ call (a value, an exception or undefined
  behaviour), the collections of rewrite rules, and generic lemmas on lists and words.
\<close>

unbundle bit_operations_syntax

section \<open>Bytes, strings and machine integers\<close>

text \<open>
  A \<^verbatim>\<open>std::string\<close> and a \<^verbatim>\<open>std::vector<uint8_t>\<close> are both lists of bytes. The order of
  \<^theory_text>\<open>List_Lexorder\<close> on them is \<^verbatim>\<open>std::string::operator<\<close>: lexicographic on unsigned
  bytes, a proper prefix being smaller.
\<close>

type_synonym byte = "8 word"
type_synonym bytes = "byte list"
type_synonym u32 = "32 word"
type_synonym u64 = "64 word"

text \<open>A C++ string literal as bytes.\<close>

definition lit :: "string \<Rightarrow> bytes" where
  "lit s = map of_char s"

lemma lit_Nil [simp]: "lit [] = []"
  by (simp add: lit_def)

lemma length_lit [simp]: "length (lit s) = length s"
  by (simp add: lit_def)

section \<open>Outcomes of a call\<close>

text \<open>
  A call returns (\<open>Ret\<close>), throws a standard exception with its \<open>what()\<close> text
  (\<open>Throw\<close>), or has undefined behaviour (\<open>Undef\<close>): an out-of-bounds copy or a
  remainder by zero.
\<close>

datatype 'a outcome = Ret 'a | Throw bytes | Undef

fun obind :: "'a outcome \<Rightarrow> ('a \<Rightarrow> 'b outcome) \<Rightarrow> 'b outcome" where
  "obind (Ret x) f = f x"
| "obind (Throw e) f = Throw e"
| "obind Undef f = Undef"

lemma obind_eq_Ret: "obind m f = Ret y \<longleftrightarrow> (\<exists>x. m = Ret x \<and> f x = Ret y)"
  by (cases m) auto

section \<open>Collections of rewrite rules\<close>

named_theorems io_simps \<open>file system and stream operations when no fault is pending\<close>
named_theorems codec_simps \<open>round trips of the little-endian codecs\<close>
named_theorems len_simps \<open>lengths of encoded blocks\<close>

section \<open>Lists and words\<close>

lemma take_append_length [simp]: "n = length xs \<Longrightarrow> take n (xs @ ys) = xs"
  by simp

lemma drop_append_length [simp]: "n = length xs \<Longrightarrow> drop n (xs @ ys) = ys"
  by simp

lemma unat_of_nat_u32: "n < 2 ^ 32 \<Longrightarrow> unat (of_nat n :: u32) = n"
  by (simp add: unat_of_nat)

lemma unat_of_nat_u64: "n < 2 ^ 64 \<Longrightarrow> unat (of_nat n :: u64) = n"
  by (simp add: unat_of_nat)

lemma unat_u32_lt: "unat (x :: u32) < 2 ^ 32"
  using unsigned_less [of x] by simp

lemma unat_u64_lt: "unat (x :: u64) < 2 ^ 64"
  using unsigned_less [of x] by simp

end
