(* ===== verification/Crc.thy ===== *)
theory Crc
  imports Prelude
begin

text \<open>
  The checksum of \<^verbatim>\<open>include/lsm/types.h\<close>: the table-driven CRC32, with the table
  transcribed entry by entry. The lemmas show that the table is the one generated by the
  reflected polynomial 0xEDB88320, that the checksum can be computed in pieces, and that
  changing one byte of the input always changes the checksum, which is what the readers
  of the write-ahead log and of the tables rely on to detect a damaged record.
\<close>

section \<open>The table and the loop\<close>

definition crc_table :: "u32 list" where
  "crc_table =
    [
     0x00000000, 0x77073096, 0xEE0E612C, 0x990951BA, 0x076DC419, 0x706AF48F, 0xE963A535, 0x9E6495A3,
     0x0EDB8832, 0x79DCB8A4, 0xE0D5E91E, 0x97D2D988, 0x09B64C2B, 0x7EB17CBD, 0xE7B82D07, 0x90BF1D91,
     0x1DB71064, 0x6AB020F2, 0xF3B97148, 0x84BE41DE, 0x1ADAD47D, 0x6DDDE4EB, 0xF4D4B551, 0x83D385C7,
     0x136C9856, 0x646BA8C0, 0xFD62F97A, 0x8A65C9EC, 0x14015C4F, 0x63066CD9, 0xFA0F3D63, 0x8D080DF5,
     0x3B6E20C8, 0x4C69105E, 0xD56041E4, 0xA2677172, 0x3C03E4D1, 0x4B04D447, 0xD20D85FD, 0xA50AB56B,
     0x35B5A8FA, 0x42B2986C, 0xDBBBC9D6, 0xACBCF940, 0x32D86CE3, 0x45DF5C75, 0xDCD60DCF, 0xABD13D59,
     0x26D930AC, 0x51DE003A, 0xC8D75180, 0xBFD06116, 0x21B4F4B5, 0x56B3C423, 0xCFBA9599, 0xB8BDA50F,
     0x2802B89E, 0x5F058808, 0xC60CD9B2, 0xB10BE924, 0x2F6F7C87, 0x58684C11, 0xC1611DAB, 0xB6662D3D,
     0x76DC4190, 0x01DB7106, 0x98D220BC, 0xEFD5102A, 0x71B18589, 0x06B6B51F, 0x9FBFE4A5, 0xE8B8D433,
     0x7807C9A2, 0x0F00F934, 0x9609A88E, 0xE10E9818, 0x7F6A0DBB, 0x086D3D2D, 0x91646C97, 0xE6635C01,
     0x6B6B51F4, 0x1C6C6162, 0x856530D8, 0xF262004E, 0x6C0695ED, 0x1B01A57B, 0x8208F4C1, 0xF50FC457,
     0x65B0D9C6, 0x12B7E950, 0x8BBEB8EA, 0xFCB9887C, 0x62DD1DDF, 0x15DA2D49, 0x8CD37CF3, 0xFBD44C65,
     0x4DB26158, 0x3AB551CE, 0xA3BC0074, 0xD4BB30E2, 0x4ADFA541, 0x3DD895D7, 0xA4D1C46D, 0xD3D6F4FB,
     0x4369E96A, 0x346ED9FC, 0xAD678846, 0xDA60B8D0, 0x44042D73, 0x33031DE5, 0xAA0A4C5F, 0xDD0D7CC9,
     0x5005713C, 0x270241AA, 0xBE0B1010, 0xC90C2086, 0x5768B525, 0x206F85B3, 0xB966D409, 0xCE61E49F,
     0x5EDEF90E, 0x29D9C998, 0xB0D09822, 0xC7D7A8B4, 0x59B33D17, 0x2EB40D81, 0xB7BD5C3B, 0xC0BA6CAD,
     0xEDB88320, 0x9ABFB3B6, 0x03B6E20C, 0x74B1D29A, 0xEAD54739, 0x9DD277AF, 0x04DB2615, 0x73DC1683,
     0xE3630B12, 0x94643B84, 0x0D6D6A3E, 0x7A6A5AA8, 0xE40ECF0B, 0x9309FF9D, 0x0A00AE27, 0x7D079EB1,
     0xF00F9344, 0x8708A3D2, 0x1E01F268, 0x6906C2FE, 0xF762575D, 0x806567CB, 0x196C3671, 0x6E6B06E7,
     0xFED41B76, 0x89D32BE0, 0x10DA7A5A, 0x67DD4ACC, 0xF9B9DF6F, 0x8EBEEFF9, 0x17B7BE43, 0x60B08ED5,
     0xD6D6A3E8, 0xA1D1937E, 0x38D8C2C4, 0x4FDFF252, 0xD1BB67F1, 0xA6BC5767, 0x3FB506DD, 0x48B2364B,
     0xD80D2BDA, 0xAF0A1B4C, 0x36034AF6, 0x41047A60, 0xDF60EFC3, 0xA867DF55, 0x316E8EEF, 0x4669BE79,
     0xCB61B38C, 0xBC66831A, 0x256FD2A0, 0x5268E236, 0xCC0C7795, 0xBB0B4703, 0x220216B9, 0x5505262F,
     0xC5BA3BBE, 0xB2BD0B28, 0x2BB45A92, 0x5CB36A04, 0xC2D7FFA7, 0xB5D0CF31, 0x2CD99E8B, 0x5BDEAE1D,
     0x9B64C2B0, 0xEC63F226, 0x756AA39C, 0x026D930A, 0x9C0906A9, 0xEB0E363F, 0x72076785, 0x05005713,
     0x95BF4A82, 0xE2B87A14, 0x7BB12BAE, 0x0CB61B38, 0x92D28E9B, 0xE5D5BE0D, 0x7CDCEFB7, 0x0BDBDF21,
     0x86D3D2D4, 0xF1D4E242, 0x68DDB3F8, 0x1FDA836E, 0x81BE16CD, 0xF6B9265B, 0x6FB077E1, 0x18B74777,
     0x88085AE6, 0xFF0F6A70, 0x66063BCA, 0x11010B5C, 0x8F659EFF, 0xF862AE69, 0x616BFFD3, 0x166CCF45,
     0xA00AE278, 0xD70DD2EE, 0x4E048354, 0x3903B3C2, 0xA7672661, 0xD06016F7, 0x4969474D, 0x3E6E77DB,
     0xAED16A4A, 0xD9D65ADC, 0x40DF0B66, 0x37D83BF0, 0xA9BCAE53, 0xDEBB9EC5, 0x47B2CF7F, 0x30B5FFE9,
     0xBDBDF21C, 0xCABAC28A, 0x53B39330, 0x24B4A3A6, 0xBAD03605, 0xCDD70693, 0x54DE5729, 0x23D967BF,
     0xB3667A2E, 0xC4614AB8, 0x5D681B02, 0x2A6F2B94, 0xB40BBE37, 0xC30C8EA1, 0x5A05DF1B, 0x2D02EF8D]"

definition crc_step :: "u32 \<Rightarrow> byte \<Rightarrow> u32" where
  "crc_step crc b = drop_bit 8 crc XOR (crc_table ! unat ((crc AND 0xFF) XOR ucast b))"

definition crc32 :: "bytes \<Rightarrow> u32 \<Rightarrow> u32" where
  "crc32 data previous_crc = NOT (foldl crc_step (NOT previous_crc) data)"

section \<open>The table is generated by the polynomial\<close>

text \<open>
  The bitwise reference: eight steps of division by the reflected polynomial for each byte.
\<close>

definition poly_bit :: "u32 \<Rightarrow> u32" where
  "poly_bit c = (if c AND 1 = 1 then drop_bit 1 c XOR 0xEDB88320 else drop_bit 1 c)"

definition poly_byte :: "u32 \<Rightarrow> u32" where
  "poly_byte c =
     poly_bit (poly_bit (poly_bit (poly_bit (poly_bit (poly_bit (poly_bit (poly_bit c)))))))"

lemma length_crc_table [simp]: "length crc_table = 256"
  by (simp add: crc_table_def)

lemma poly_bit_bit: "poly_bit c = drop_bit 1 c XOR (if bit c 0 then 0xEDB88320 else 0)"
  by (simp add: poly_bit_def bit_0 and_one_eq odd_iff_mod_2_eq_one)

lemma poly_bit_xor: "poly_bit (a XOR b) = poly_bit a XOR poly_bit b"
  by (auto simp: poly_bit_bit bit_xor_iff ac_simps)

lemma poly_bit_top: "bit (poly_bit c) 31 = bit c 0"
  using bit_imp_le_length [of c 32] by (auto simp: poly_bit_bit bit_simps)

lemma poly_bit_zero: "poly_bit c = 0 \<Longrightarrow> c = 0"
proof -
  assume z: "poly_bit c = 0"
  with poly_bit_top [of c] have b0: "\<not> bit c 0" by simp
  with z have d: "drop_bit 1 c = 0" by (simp add: poly_bit_bit)
  show "c = 0"
  proof (rule bit_word_eqI)
    fix n assume "n < LENGTH(32)"
    show "bit c n = bit 0 n"
      using b0 arg_cong [OF d, of "\<lambda>w. bit w (n - 1)"] by (cases n) (auto simp: bit_drop_bit_eq)
  qed
qed

lemma poly_bit_even: "\<not> bit c 0 \<Longrightarrow> poly_bit c = drop_bit 1 c" by (simp add: poly_bit_bit)
lemma poly_byte_xor: "poly_byte (a XOR b) = poly_byte a XOR poly_byte b"
  by (simp add: poly_byte_def poly_bit_xor)
lemma poly_byte_inj: "poly_byte a = poly_byte b \<Longrightarrow> a = b"
proof -
  assume "poly_byte a = poly_byte b"
  then have "poly_byte (a XOR b) = 0" by (simp add: poly_byte_xor)
  then have "a XOR b = 0" by (auto simp: poly_byte_def dest!: poly_bit_zero)
  then show "a = b" by (metis xor.right_neutral xor.assoc xor_self_eq xor.left_neutral)
qed
lemma poly_byte_high: "c AND 0xFF = 0 \<Longrightarrow> poly_byte c = drop_bit 8 c"
proof -
  assume a: "c AND 0xFF = 0"
  have "\<not> bit c n" if "n < 8" for n
  proof -
    have "bit (0xFF :: u32) n" using that by (auto simp: bit_simps less_Suc_eq numeral_eq_Suc)
    then show ?thesis using arg_cong [OF a, of "\<lambda>w. bit w n"] by (simp add: bit_and_iff)
  qed
  then have "poly_byte c = drop_bit 8 c \<longleftrightarrow> drop_bit (Suc (Suc (Suc (Suc (Suc (Suc (Suc (Suc 0)))))))) c = drop_bit 8 c"
    by (simp add: poly_byte_def poly_bit_even bit_simps)
  then show ?thesis by (simp add: numeral_eq_Suc)
qed

subsection \<open>The 256 entries\<close>

text \<open>
  Division is linear, so the entry of \<open>2 ^ k + i\<close> is that of \<open>2 ^ k\<close> xor that of \<open>i\<close>:
  the table is spanned by eight entries, each checked against the polynomial.
\<close>

lemma of_nat_top_bit:
  assumes "i < 2 ^ k" "k < 32"
  shows "(of_nat (2 ^ k + i) :: u32) = 2 ^ k XOR of_nat i"
proof -
  have "\<not> bit (of_nat i :: u32) k"
    using assms by (simp add: bit_of_nat_iff bit_iff_odd [of i])
  then have "(2 ^ k :: u32) AND of_nat i = 0"
    by (auto intro!: bit_word_eqI simp: bit_simps)
  then show ?thesis by (simp add: disjunctive_add_eq_xor)
qed

definition xor_ext :: "u32 \<Rightarrow> u32 list \<Rightarrow> u32 list" where
  "xor_ext p T = T @ map (\<lambda>x. p XOR x) T"

lemma xor_ext_poly:
  assumes "k < 32"
  shows "xor_ext (poly_byte (2 ^ k)) (map (\<lambda>i. poly_byte (of_nat i)) [0..<2 ^ k]) =
         map (\<lambda>i. poly_byte (of_nat i)) [0..<2 ^ Suc k]"
proof -
  have "[0..<2 ^ Suc k] = [0..<2 ^ k] @ map (\<lambda>i. 2 ^ k + i) [0..<2 ^ k]"
    by (simp add: map_add_upt mult_2 upt_add_eq_append [of 0 "2 ^ k" "2 ^ k"] add.commute)
  then show ?thesis
    using assms of_nat_top_bit
    by (auto simp: xor_ext_def poly_byte_xor simp del: of_nat_add upt_Suc power_Suc)
qed
lemma crc_table_span:
  "crc_table = xor_ext 0xEDB88320 (xor_ext 0x76DC4190 (xor_ext 0x3B6E20C8 (xor_ext 0x1DB71064
     (xor_ext 0x0EDB8832 (xor_ext 0x076DC419 (xor_ext 0xEE0E612C (xor_ext 0x77073096 [0])))))))"
  by (simp add: xor_ext_def crc_table_def)

lemma poly_byte_powers:
  "poly_byte 1 = 0x77073096" "poly_byte 2 = 0xEE0E612C"
  "poly_byte 4 = 0x076DC419" "poly_byte 8 = 0x0EDB8832"
  "poly_byte 16 = 0x1DB71064" "poly_byte 32 = 0x3B6E20C8"
  "poly_byte 64 = 0x76DC4190" "poly_byte 128 = 0xEDB88320"
  by (simp_all add: poly_byte_def poly_bit_def)

lemma crc_table_poly: "crc_table = map (\<lambda>i. poly_byte (of_nat i)) [0..<256]"
proof -
  define F where "F k = map (\<lambda>i. poly_byte (of_nat i)) [0..<2 ^ k]" for k
  have step: "F (k + 1) = xor_ext (poly_byte (2 ^ k)) (F k)" if "k < 32" for k
    using xor_ext_poly [OF that] by (simp add: F_def)
  have "F 0 = [0]" by (simp add: F_def poly_byte_def poly_bit_def)
  then have "F 8 = crc_table"
    using step [of 0] step [of 1] step [of 2] step [of 3] step [of 4] step [of 5] step [of 6] step [of 7]
    by (simp add: poly_byte_powers crc_table_span flip: numeral_2_eq_2)
  then show ?thesis by (simp add: F_def)
qed

section \<open>One step, and what it can detect\<close>

lemma and_255: "(c :: u32) AND 0xFF = take_bit 8 c"
  by (simp add: take_bit_eq_mask mask_eq_exp_minus_1)

lemma xor_right_cancel: "x XOR z = y XOR z \<longleftrightarrow> x = (y :: u32)"
  by (metis xor.assoc xor_self_eq xor.right_neutral)

lemma xor_left_cancel: "z XOR x = z XOR y \<longleftrightarrow> x = (y :: u32)"
  by (metis xor.assoc xor_self_eq xor.left_neutral)

lemma bit_byte_high: "8 \<le> n \<Longrightarrow> \<not> bit (x :: byte) n"
  using bit_imp_le_length [of x n] by auto

lemma poly_byte_low: "c AND 0xFF = c \<Longrightarrow> poly_byte c = crc_table ! unat c"
proof -
  assume a: "c AND 0xFF = c"
  have "c = take_bit 8 c"
    using a by (simp add: take_bit_eq_mask mask_eq_exp_minus_1)
  then have "unat c = take_bit 8 (unat c)"
    by (metis unsigned_take_bit_eq)
  then have "unat c < 256"
    using take_bit_nat_less_exp [of 8 "unat c"] by simp
  then show ?thesis by (simp add: crc_table_poly)
qed

lemma crc_step_poly: "crc_step crc b = poly_byte (crc XOR ucast b)"
proof -
  let ?h = "crc AND NOT (mask 8)" and ?l = "take_bit 8 crc XOR ucast b"
  have split: "crc XOR ucast b = ?h XOR ?l"
    by (rule bit_word_eqI) (auto simp: bit_simps)
  have "?h AND 0xFF = 0" "drop_bit 8 ?h = drop_bit 8 crc"
    unfolding and_255
    by (rule bit_word_eqI, auto simp: bit_simps dest: bit_imp_le_length)+
  then have h: "poly_byte ?h = drop_bit 8 crc"
    by (simp add: poly_byte_high)
  have "?l AND 0xFF = ?l"
    unfolding and_255 by (rule bit_word_eqI) (auto simp: bit_simps bit_byte_high)
  then have "poly_byte ?l = crc_table ! unat ?l" by (rule poly_byte_low)
  with split h show ?thesis by (simp add: crc_step_def poly_byte_xor and_255)
qed

lemma crc_step_inj_state: "crc_step c b = crc_step d b \<longleftrightarrow> c = d"
  by (auto simp: crc_step_poly xor_right_cancel dest: poly_byte_inj)

lemma foldl_crc_inj: "foldl crc_step c bs = foldl crc_step d bs \<longleftrightarrow> c = d"
  by (induction bs arbitrary: c d) (simp_all add: crc_step_inj_state)

lemma crc32_append: "crc32 (xs @ ys) p = crc32 ys (crc32 xs p)"
  by (simp add: crc32_def)

lemma crc32_Nil: "crc32 [] p = p"
  by (simp add: crc32_def)

lemma poly_byte_push: "poly_byte (push_bit 8 c) = drop_bit 8 (push_bit 8 c)"
proof (rule poly_byte_high)
  show "push_bit 8 c AND 0xFF = 0"
    unfolding and_255 by (rule bit_word_eqI) (auto simp: bit_simps)
qed

text \<open>Four steps amount to one exclusive-or of the four bytes, followed by 32 divisions.\<close>

definition le_word :: "byte \<Rightarrow> byte \<Rightarrow> byte \<Rightarrow> byte \<Rightarrow> u32" where
  "le_word a b c d =
     ucast a XOR push_bit 8 (ucast b) XOR push_bit 16 (ucast c) XOR push_bit 24 (ucast d)"

lemma le_word_inject:
  "le_word a b c d = le_word a' b' c' d' \<longleftrightarrow> a = a' \<and> b = b' \<and> c = c' \<and> d = d'"
proof
  assume eq: "le_word a b c d = le_word a' b' c' d'"
  have bits: "bit (le_word a b c d) n = bit a n" "bit (le_word a b c d) (8 + n) = bit b n"
    "bit (le_word a b c d) (16 + n) = bit c n" "bit (le_word a b c d) (24 + n) = bit d n"
    if "n < 8" for a b c d n
    using that by (simp_all add: le_word_def bit_simps bit_byte_high)
  have ext: "x = y" if "\<And>n. n < 8 \<Longrightarrow> bit x n = bit y n" for x y :: byte
    by (rule bit_word_eqI) (use that in simp)
  show "a = a' \<and> b = b' \<and> c = c' \<and> d = d'"
    using bits [of _ a b c d] bits [of _ a' b' c' d'] eq by (auto intro!: ext)
qed simp

lemma poly_byte_shift:
  "drop_bit 24 c = 0 \<Longrightarrow> poly_byte (push_bit 8 c) = c"
proof -
  assume a: "drop_bit 24 c = 0"
  have "n < 24" if "bit c n" for n
    using arg_cong [OF a, of "\<lambda>w. bit w (n - 24)"] that by (cases "n < 24") (auto simp: bit_simps)
  then have "drop_bit 8 (push_bit 8 c) = c"
    by (intro bit_word_eqI) (auto simp: bit_simps dest: bit_imp_le_length)
  then show ?thesis by (simp add: poly_byte_push)
qed
lemma crc_four_steps:
  "foldl crc_step s [a, b, c, d] =
     poly_byte (poly_byte (poly_byte (poly_byte (s XOR le_word a b c d))))"
proof -
  have small: "drop_bit 24 (ucast (x :: byte) :: u32) = 0" "drop_bit 24 (push_bit 8 (ucast x) :: u32) = 0"
     "drop_bit 24 (push_bit 16 (ucast x) :: u32) = 0" for x
    by (rule bit_word_eqI, simp add: bit_simps bit_byte_high)+
  have sh: "poly_byte (push_bit 8 (ucast x)) = ucast x"
    "poly_byte (push_bit 16 (ucast x)) = push_bit 8 (ucast x)"
    "poly_byte (push_bit 24 (ucast x)) = push_bit 16 (ucast x)" for x :: byte
    using poly_byte_shift [OF small(1)] poly_byte_shift [OF small(2)] poly_byte_shift [OF small(3)]
    by (simp_all add: push_bit_push_bit)
  show ?thesis
    by (simp add: crc_step_poly le_word_def poly_byte_xor sh ac_simps)
qed


lemma foldl_crc_state: "foldl crc_step c (xs @ w @ ys) = foldl crc_step c (xs @ w' @ ys) \<longleftrightarrow>
    foldl crc_step (foldl crc_step c xs) w = foldl crc_step (foldl crc_step c xs) w'"
  by (simp add: foldl_crc_inj)

lemma crc32_window: "crc32 (xs @ w @ ys) p = crc32 (xs @ w' @ ys) p \<longleftrightarrow>
    foldl crc_step (foldl crc_step (NOT p) xs) w = foldl crc_step (foldl crc_step (NOT p) xs) w'"
  by (simp add: crc32_def foldl_crc_inj)

lemma crc_step_inj_byte: "crc_step s b = crc_step s b' \<longleftrightarrow> b = b'"
proof
  assume "crc_step s b = crc_step s b'"
  then have eq: "(ucast b :: u32) = ucast b'"
    using poly_byte_inj [of "s XOR ucast b" "s XOR ucast b'"]
    by (simp add: crc_step_poly xor_left_cancel)
  have "bit b n = bit b' n" if "n < 8" for n
  proof -
    have "bit (ucast b :: u32) n = bit (ucast b' :: u32) n" by (simp only: eq)
    with that show ?thesis by (simp add: bit_unsigned_iff)
  qed
  then show "b = b'" by (intro bit_word_eqI) simp
qed simp

lemma crc32_byte_change: "crc32 (xs @ b # ys) p = crc32 (xs @ b' # ys) p \<longleftrightarrow> b = b'"
  using crc32_window [of xs "[b]" ys p "[b']"] by (simp add: crc_step_inj_byte)

lemma crc32_burst:
  "crc32 (xs @ [a, b, c, d] @ ys) p = crc32 (xs @ [a', b', c', d'] @ ys) p \<longleftrightarrow>
     [a, b, c, d] = [a', b', c', d']"
proof
  assume "crc32 (xs @ [a, b, c, d] @ ys) p = crc32 (xs @ [a', b', c', d'] @ ys) p"
  then have "le_word a b c d = le_word a' b' c' d'"
    unfolding crc32_window crc_four_steps by (blast dest: poly_byte_inj xor_left_cancel [THEN iffD1])
  then show "[a, b, c, d] = [a', b', c', d']" by (simp add: le_word_inject)
qed simp

text \<open>
  C27: the checksum of \<^verbatim>\<open>crc32\<close> in \<^verbatim>\<open>types.h\<close>, computed with the 256-entry table, is the
  bitwise CRC-32 of the reflected polynomial 0xEDB88320, for every input and every
  starting value. One wrong entry of the table would refute it.
\<close>

theorem crc32_is_polynomial:
  "crc32 data previous_crc =
     NOT (foldl (\<lambda>c b. poly_byte (c XOR ucast b)) (NOT previous_crc) data)"
proof -
  have "crc_step = (\<lambda>c b. poly_byte (c XOR ucast b))"
    by (intro ext) (rule crc_step_poly)
  then show ?thesis by (simp add: crc32_def)
qed

text \<open>
  C28: the checksum detects every error burst of up to four bytes: two inputs that differ
  only inside a window of four consecutive bytes have the same checksum only if they are equal.
\<close>

theorem crc32_detects_burst:
  "crc32 (xs @ [a, b, c, d] @ ys) p = crc32 (xs @ [a', b', c', d'] @ ys) p \<longleftrightarrow>
     [a, b, c, d] = [a', b', c', d']"
  by (rule crc32_burst)

end
