(* ===== verification/Codec.thy ===== *)
theory Codec
  imports Prelude
begin

text \<open>
  The little-endian codecs that \<^verbatim>\<open>src/wal.cpp\<close>, \<^verbatim>\<open>src/bloom_filter.cpp\<close> and
  \<^verbatim>\<open>src/sstable.cpp\<close> each define for 32-bit values, and \<^verbatim>\<open>src/sstable.cpp\<close> for
  64-bit values. An encoder returns the bytes it stores; a decoder reads the first bytes
  of the buffer it is given. Both directions of the round trip are proved.
\<close>

section \<open>32 bits\<close>

definition encodeUint32LE :: "u32 \<Rightarrow> bytes" where
  "encodeUint32LE value =
    [ucast (value AND 0xFF),
     ucast (drop_bit 8 value AND 0xFF),
     ucast (drop_bit 16 value AND 0xFF),
     ucast (drop_bit 24 value AND 0xFF)]"

definition decodeUint32LE :: "bytes \<Rightarrow> u32" where
  "decodeUint32LE buffer =
     ucast (buffer ! 0) OR push_bit 8 (ucast (buffer ! 1)) OR
     push_bit 16 (ucast (buffer ! 2)) OR push_bit 24 (ucast (buffer ! 3))"

section \<open>64 bits\<close>

definition encodeUint64LE :: "u64 \<Rightarrow> bytes" where
  "encodeUint64LE value = map (\<lambda>i. ucast (drop_bit (8 * i) value AND 0xFF)) [0..<8]"

definition decodeUint64LE :: "bytes \<Rightarrow> u64" where
  "decodeUint64LE buffer =
     foldl (\<lambda>val i. val OR push_bit (8 * i) (ucast (buffer ! i))) 0 [0..<8]"

section \<open>Lengths and round trips\<close>

lemma length_encodeUint32LE [simp, len_simps]: "length (encodeUint32LE v) = 4"
  by (simp add: encodeUint32LE_def)

lemma length_encodeUint64LE [simp, len_simps]: "length (encodeUint64LE v) = 8"
  by (simp add: encodeUint64LE_def)

lemma ucast_byte_and: "(ucast (w AND 0xFF) :: byte) = ucast (w :: 'a::len word)" if "8 \<le> LENGTH('a)"
proof -
  have "w AND 0xFF = take_bit 8 w"
    by (simp add: take_bit_eq_mask mask_eq_exp_minus_1)
  then show ?thesis
    using that by (simp only:) (rule bit_word_eqI, auto simp: bit_simps)
qed

lemma bit_byte_ge: "8 \<le> n \<Longrightarrow> \<not> bit (x :: byte) n"
  using bit_imp_le_length [of x n] by auto

text \<open>The bits of a decoded value: bit \<open>n\<close> is bit \<open>n mod 8\<close> of byte \<open>n div 8\<close>.\<close>

lemma decode32_encode_bits: "decodeUint32LE (encodeUint32LE v) = v"
proof (rule bit_word_eqI)
  fix n assume "n < LENGTH(32)"
  then consider "n < 8" | "8 \<le> n" "n < 16" | "16 \<le> n" "n < 24" | "24 \<le> n" "n < 32"
    by fastforce
  then show "bit (decodeUint32LE (encodeUint32LE v)) n = bit v n"
    by cases (auto simp: decodeUint32LE_def encodeUint32LE_def ucast_byte_and bit_simps bit_byte_ge)
qed

lemma decode32_append: "4 \<le> length bs \<Longrightarrow> decodeUint32LE (bs @ rest) = decodeUint32LE bs"
  by (cases bs) (auto simp: decodeUint32LE_def nth_append)

lemma decode_encode32 [simp, codec_simps]: "decodeUint32LE (encodeUint32LE v @ rest) = v"
  by (simp add: decode32_append decode32_encode_bits)

lemma decode_encode32' [simp, codec_simps]: "decodeUint32LE (encodeUint32LE v) = v"
  by (rule decode32_encode_bits)

lemma encode_decode32: "encodeUint32LE (decodeUint32LE [a, b, c, d]) = [a, b, c, d]"
  by (auto simp: encodeUint32LE_def decodeUint32LE_def ucast_byte_and
      intro!: bit_word_eqI simp: bit_simps bit_byte_ge)

lemma encode_decode32_list: "length bs = 4 \<Longrightarrow> encodeUint32LE (decodeUint32LE bs) = bs"
  by (auto simp: length_Suc_conv numeral_eq_Suc encode_decode32 [unfolded numeral_eq_Suc])

lemma encode32_inject [simp]: "encodeUint32LE v = encodeUint32LE w \<longleftrightarrow> v = w"
  by (metis decode_encode32')

lemma decode64_append: "8 \<le> length bs \<Longrightarrow> decodeUint64LE (bs @ rest) = decodeUint64LE bs"
  unfolding decodeUint64LE_def by (rule foldl_cong) (auto simp: nth_append)

lemma foldl_OR_bits:
  "bit (foldl (\<lambda>val i. val OR f i) (w :: u64) is) n \<longleftrightarrow> bit w n \<or> (\<exists>i\<in>set is. bit (f i) n)"
  by (induction "is" arbitrary: w) (auto simp: bit_or_iff)

lemma decode64_encode_bits: "decodeUint64LE (encodeUint64LE v) = v"
proof (rule bit_word_eqI)
  fix n assume n: "n < LENGTH(64)"
  have "bit (decodeUint64LE (encodeUint64LE v)) n \<longleftrightarrow>
    (\<exists>i<8. 8 * i \<le> n \<and> n - 8 * i < 8 \<and> bit v n)"
    using n by (auto simp: decodeUint64LE_def encodeUint64LE_def foldl_OR_bits ucast_byte_and bit_simps
        simp del: upt_Suc intro!: exI [of _ "n div 8"])
  also have "\<dots> \<longleftrightarrow> bit v n"
    using n by (intro iffI exI [of _ "n div 8"] conjI) auto
  finally show "bit (decodeUint64LE (encodeUint64LE v)) n = bit v n" .
qed

lemma decode_encode64 [simp, codec_simps]: "decodeUint64LE (encodeUint64LE v @ rest) = v"
  by (simp add: decode64_append decode64_encode_bits)

lemma decode_encode64' [simp, codec_simps]: "decodeUint64LE (encodeUint64LE v) = v"
  by (rule decode64_encode_bits)

text \<open>
  C29: both codecs lose nothing: decoding the encoded 32-bit or 64-bit value, whatever
  bytes follow it in the buffer, gives the value back, and any four bytes are the encoding
  of the 32-bit value they decode to.
\<close>

theorem codec_roundtrip:
  "decodeUint32LE (encodeUint32LE v @ rest) = v \<and>
   decodeUint64LE (encodeUint64LE w @ rest) = w \<and>
   encodeUint32LE (decodeUint32LE [a, b, c, d]) = [a, b, c, d]"
  by (simp add: encode_decode32)

end
