(* ===== verification/StdIO.thy ===== *)
theory StdIO
  imports Prelude
begin

text \<open>
  The part of the C++ standard library that the store uses for its files:
  \<^verbatim>\<open>std::ofstream\<close>, \<^verbatim>\<open>std::ifstream\<close> and the calls of \<^verbatim>\<open>std::filesystem\<close>.

  The world holds the files by path and a list of pending faults. Each call of the
  library that can fail consumes one entry of the list: \<open>None\<close> lets it succeed, and so
  does an exhausted list; \<open>Some n\<close> makes it fail, a failing write having put \<open>n\<close> bytes
  on disk. Every change of a file is one event, and the world records the events in
  order, so that the state of the disk at a crash is that of a prefix of them.

  A stream buffers what is written to it until it is flushed or closed. Once a write or a
  flush has failed, the stream stays bad and ignores later writes.
\<close>

section \<open>Files and their events\<close>

type_synonym path = bytes
type_synonym disk = "path \<Rightarrow> bytes option"

datatype io_event =
    EvCreate path
  | EvTrunc path
  | EvAppend path bytes
  | EvRename path path
  | EvRemove path

fun apply_event :: "io_event \<Rightarrow> disk \<Rightarrow> disk" where
  "apply_event (EvCreate p) d = (case d p of None \<Rightarrow> d(p \<mapsto> []) | Some _ \<Rightarrow> d)"
| "apply_event (EvTrunc p) d = d(p \<mapsto> [])"
| "apply_event (EvAppend p bs) d = d(p \<mapsto> (case d p of None \<Rightarrow> [] | Some c \<Rightarrow> c) @ bs)"
| "apply_event (EvRename p q) d = (case d p of None \<Rightarrow> d | Some c \<Rightarrow> d(p := None, q \<mapsto> c))"
| "apply_event (EvRemove p) d = d(p := None)"

definition apply_events :: "io_event list \<Rightarrow> disk \<Rightarrow> disk" where
  "apply_events evs d = fold apply_event evs d"

record world =
  files :: disk
  dirs :: "path \<Rightarrow> bool"
  faults :: "nat option list"
  events :: "io_event list"
  os_message :: bytes
  uninit :: "nat \<Rightarrow> byte"

text \<open>A world with no file, no pending fault and no history.\<close>

definition empty_world :: world where
  "empty_world =
    \<lparr>files = Map.empty, dirs = (\<lambda>_. False), faults = [], events = [], os_message = [],
     uninit = (\<lambda>_. 0)\<rparr>"

definition emit :: "io_event list \<Rightarrow> world \<Rightarrow> world" where
  "emit evs w = w\<lparr>files := apply_events evs (files w), events := events w @ evs\<rparr>"

definition next_fault :: "world \<Rightarrow> nat option \<times> world" where
  "next_fault w = (case faults w of [] \<Rightarrow> (None, w) | f # fs \<Rightarrow> (f, w\<lparr>faults := fs\<rparr>))"

section \<open>Output streams\<close>

record ofstream =
  os_path :: path
  os_open :: bool
  os_bad :: bool
  os_buf :: bytes

definition closed_ofstream :: ofstream where
  "closed_ofstream = \<lparr>os_path = [], os_open = False, os_bad = False, os_buf = []\<rparr>"

definition ofs_open_with :: "(path \<Rightarrow> io_event) \<Rightarrow> path \<Rightarrow> world \<Rightarrow> ofstream \<times> world" where
  "ofs_open_with ev p w =
    (case next_fault w of
      (Some _, w1) \<Rightarrow> (\<lparr>os_path = p, os_open = False, os_bad = True, os_buf = []\<rparr>, w1)
    | (None, w1) \<Rightarrow>
        (\<lparr>os_path = p, os_open = True, os_bad = False, os_buf = []\<rparr>, emit [ev p] w1))"

abbreviation ofs_open_trunc :: "path \<Rightarrow> world \<Rightarrow> ofstream \<times> world" where
  "ofs_open_trunc \<equiv> ofs_open_with EvTrunc"

abbreviation ofs_open_app :: "path \<Rightarrow> world \<Rightarrow> ofstream \<times> world" where
  "ofs_open_app \<equiv> ofs_open_with EvCreate"

definition append_events :: "path \<Rightarrow> bytes \<Rightarrow> io_event list" where
  "append_events p bs = (if bs = [] then [] else [EvAppend p bs])"

definition ofs_write :: "bytes \<Rightarrow> ofstream \<Rightarrow> world \<Rightarrow> ofstream \<times> world" where
  "ofs_write bs s w =
    (if \<not> os_open s \<or> os_bad s then (s\<lparr>os_bad := True\<rparr>, w)
     else case next_fault w of
       (None, w1) \<Rightarrow> (s\<lparr>os_buf := os_buf s @ bs\<rparr>, w1)
     | (Some n, w1) \<Rightarrow>
         (s\<lparr>os_bad := True, os_buf := []\<rparr>,
          emit (append_events (os_path s) (take n (os_buf s @ bs))) w1))"

definition ofs_flush :: "ofstream \<Rightarrow> world \<Rightarrow> ofstream \<times> world" where
  "ofs_flush s w =
    (if \<not> os_open s \<or> os_bad s \<or> os_buf s = [] then (s, w)
     else case next_fault w of
       (None, w1) \<Rightarrow> (s\<lparr>os_buf := []\<rparr>, emit (append_events (os_path s) (os_buf s)) w1)
     | (Some n, w1) \<Rightarrow>
         (s\<lparr>os_bad := True, os_buf := []\<rparr>,
          emit (append_events (os_path s) (take n (os_buf s))) w1))"

definition ofs_close :: "ofstream \<Rightarrow> world \<Rightarrow> ofstream \<times> world" where
  "ofs_close s w = (case ofs_flush s w of (s1, w1) \<Rightarrow> (s1\<lparr>os_open := False\<rparr>, w1))"

definition ofs_good :: "ofstream \<Rightarrow> bool" where
  "ofs_good s \<longleftrightarrow> \<not> os_bad s"

section \<open>Input streams\<close>

text \<open>
  Opening a file for reading yields its bytes; a stream is the bytes from its position to
  the end of the file. \<open>ifs_read\<close> returns the bytes it delivered (\<^verbatim>\<open>gcount\<close> of them); a
  read that falls short fails the stream, and a failed stream delivers nothing.
\<close>

definition ifs_open :: "path \<Rightarrow> world \<Rightarrow> bytes option \<times> world" where
  "ifs_open p w =
    (case next_fault w of (Some _, w1) \<Rightarrow> (None, w1) | (None, w1) \<Rightarrow> (files w1 p, w1))"

record ifstream =
  ifs_rest :: bytes
  ifs_fail :: bool

text \<open>The size of a stream is what is left of it, which is what the loops that read consume.\<close>

instantiation ifstream_ext :: (type) size
begin

definition size_ifstream_ext :: "'a ifstream_scheme \<Rightarrow> nat" where
  [simp]: "size_ifstream_ext s = length (ifs_rest s)"

instance ..

end

definition ifs_at :: "bytes \<Rightarrow> nat \<Rightarrow> ifstream" where
  "ifs_at content off = \<lparr>ifs_rest = drop off content, ifs_fail = False\<rparr>"

definition ifs_read :: "nat \<Rightarrow> ifstream \<Rightarrow> bytes \<times> ifstream" where
  "ifs_read n s =
    (if ifs_fail s then ([], s)
     else (take n (ifs_rest s),
           \<lparr>ifs_rest = drop n (ifs_rest s), ifs_fail = (length (ifs_rest s) < n)\<rparr>))"

definition ifs_eof :: "ifstream \<Rightarrow> bool" where
  "ifs_eof s \<longleftrightarrow> ifs_fail s \<or> ifs_rest s = []"

section \<open>File system calls\<close>

definition fs_exists :: "path \<Rightarrow> world \<Rightarrow> bool" where
  "fs_exists p w \<longleftrightarrow> files w p \<noteq> None \<or> dirs w p"

text \<open>Whether a directory was created.\<close>

definition fs_create_directories :: "path \<Rightarrow> world \<Rightarrow> bool \<times> world" where
  "fs_create_directories p w =
    (case next_fault w of
      (Some _, w1) \<Rightarrow> (False, w1)
    | (None, w1) \<Rightarrow> (\<not> dirs w1 p, w1\<lparr>dirs := (dirs w1)(p := True)\<rparr>))"

text \<open>The next two return whether the error code is set.\<close>

definition fs_remove :: "path \<Rightarrow> world \<Rightarrow> bool \<times> world" where
  "fs_remove p w =
    (case next_fault w of
      (Some _, w1) \<Rightarrow> (True, w1)
    | (None, w1) \<Rightarrow> (False, if files w1 p = None then w1 else emit [EvRemove p] w1))"

definition fs_rename :: "path \<Rightarrow> path \<Rightarrow> world \<Rightarrow> bool \<times> world" where
  "fs_rename p q w =
    (case next_fault w of
      (Some _, w1) \<Rightarrow> (True, w1)
    | (None, w1) \<Rightarrow> if files w1 p = None then (True, w1) else (False, emit [EvRename p q] w1))"

definition ec_message :: "bool \<Rightarrow> world \<Rightarrow> bytes" where
  "ec_message ec w = (if ec then os_message w else lit ''Success'')"

text \<open>\<^verbatim>\<open>fs::path(p).filename()\<close>: what follows the last slash.\<close>

definition path_filename :: "path \<Rightarrow> bytes" where
  "path_filename p = rev (takeWhile (\<lambda>c. c \<noteq> 47) (rev p))"

text \<open>The lines that repeated \<^verbatim>\<open>std::getline\<close> delivers.\<close>

fun getlines_from :: "bytes \<Rightarrow> bytes \<Rightarrow> bytes list" where
  "getlines_from acc [] = (if acc = [] then [] else [acc])"
| "getlines_from acc (c # cs) =
     (if c = 10 then acc # getlines_from [] cs else getlines_from (acc @ [c]) cs)"

definition getlines :: "bytes \<Rightarrow> bytes list" where
  "getlines content = getlines_from [] content"

section \<open>Normal forms when no fault is pending\<close>

text \<open>
  With no pending fault every operation is a change of the stream followed by the emission
  of the events it causes; these equations drive all later proofs.
\<close>

lemma apply_events_simps [simp]:
  "apply_events [] d = d"
  "apply_events (e # evs) d = apply_events evs (apply_event e d)"
  by (simp_all add: apply_events_def)

lemma apply_events_append [simp]:
  "apply_events (evs @ evs') d = apply_events evs' (apply_events evs d)"
  by (simp add: apply_events_def)

lemma emit_simps [simp]:
  "emit [] w = w"
  "emit evs (emit evs' w) = emit (evs' @ evs) w"
  "files (emit evs w) = apply_events evs (files w)"
  "dirs (emit evs w) = dirs w"
  "faults (emit evs w) = faults w"
  "events (emit evs w) = events w @ evs"
  "os_message (emit evs w) = os_message w"
  "uninit (emit evs w) = uninit w"
  by (simp_all add: emit_def)

lemma append_events_simps [simp]:
  "append_events p [] = []"
  "apply_events (append_events p bs) d p = (if bs = [] then d p
     else Some ((case d p of None \<Rightarrow> [] | Some c \<Rightarrow> c) @ bs))"
  "q \<noteq> p \<Longrightarrow> apply_events (append_events p bs) d q = d q"
  by (simp_all add: append_events_def)

lemma next_fault_none [io_simps]: "faults w = [] \<Longrightarrow> next_fault w = (None, w)"
  by (simp add: next_fault_def)

lemma ofs_open_none [io_simps]:
  "faults w = [] \<Longrightarrow> ofs_open_with ev p w =
     (\<lparr>os_path = p, os_open = True, os_bad = False, os_buf = []\<rparr>, emit [ev p] w)"
  by (simp add: ofs_open_with_def next_fault_none)

lemma ofs_write_none [io_simps]:
  "faults w = [] \<Longrightarrow> os_open s \<Longrightarrow> \<not> os_bad s \<Longrightarrow>
     ofs_write bs s w = (s\<lparr>os_buf := os_buf s @ bs\<rparr>, w)"
  by (simp add: ofs_write_def next_fault_none)

lemma ofs_flush_none [io_simps]:
  "faults w = [] \<Longrightarrow> os_open s \<Longrightarrow> \<not> os_bad s \<Longrightarrow>
     ofs_flush s w = (s\<lparr>os_buf := []\<rparr>, emit (append_events (os_path s) (os_buf s)) w)"
  by (simp add: ofs_flush_def next_fault_none)

lemma ofs_close_none [io_simps]:
  "faults w = [] \<Longrightarrow> os_open s \<Longrightarrow> \<not> os_bad s \<Longrightarrow>
     ofs_close s w = (s\<lparr>os_buf := [], os_open := False\<rparr>,
                      emit (append_events (os_path s) (os_buf s)) w)"
  by (simp add: ofs_close_def ofs_flush_none)

lemma ofs_close_closed [io_simps]:
  "\<not> os_open s \<Longrightarrow> ofs_close s w = (s\<lparr>os_open := False\<rparr>, w)"
  by (simp add: ofs_close_def ofs_flush_def)

lemma ifs_open_none [io_simps]: "faults w = [] \<Longrightarrow> ifs_open p w = (files w p, w)"
  by (simp add: ifs_open_def next_fault_none)

lemma fs_remove_none [io_simps]:
  "faults w = [] \<Longrightarrow>
     fs_remove p w = (False, if files w p = None then w else emit [EvRemove p] w)"
  by (simp add: fs_remove_def next_fault_none)

lemma fs_rename_none [io_simps]:
  "faults w = [] \<Longrightarrow> files w p = Some c \<Longrightarrow> fs_rename p q w = (False, emit [EvRename p q] w)"
  by (simp add: fs_rename_def next_fault_none)

lemma ifs_at_simps [simp]:
  "ifs_rest (ifs_at content off) = drop off content" "\<not> ifs_fail (ifs_at content off)"
  by (simp_all add: ifs_at_def)

text \<open>A read of as many bytes as are there.\<close>

lemma ifs_read_append [io_simps]:
  "n = length xs \<Longrightarrow>
     ifs_read n \<lparr>ifs_rest = xs @ ys, ifs_fail = False\<rparr> = (xs, \<lparr>ifs_rest = ys, ifs_fail = False\<rparr>)"
  by (simp add: ifs_read_def)

text \<open>No read makes the remaining input longer, and a complete one consumes it.\<close>

lemma ifs_read_rest_le: "ifs_read n s = (xs, s') \<Longrightarrow> length (ifs_rest s') \<le> length (ifs_rest s)"
  by (auto simp: ifs_read_def split: if_splits)

lemma ifs_read_consumes:
  "ifs_read n s = (xs, s') \<Longrightarrow> n \<le> length xs \<Longrightarrow> 0 < n \<Longrightarrow>
     length (ifs_rest s') < length (ifs_rest s)"
  by (auto simp: ifs_read_def split: if_splits)

lemma ifs_read_complete:
  "ifs_read n s = (xs, s') \<Longrightarrow> n \<le> length xs \<Longrightarrow> \<not> ifs_fail s \<Longrightarrow>
     ifs_rest s = xs @ ifs_rest s' \<and> \<not> ifs_fail s' \<and> length xs = n"
  by (auto simp: ifs_read_def split: if_splits)

section \<open>What an operation leaves alone\<close>

text \<open>
  With or without faults, an output stream changes only the file at its path. The relation is
  that of two worlds which agree on every other file.
\<close>

definition touches :: "path \<Rightarrow> world \<Rightarrow> world \<Rightarrow> bool" where
  "touches p w w' \<longleftrightarrow> (\<forall>q. q \<noteq> p \<longrightarrow> files w' q = files w q)"

lemma touches_refl [simp, intro]: "touches p w w"
  by (simp add: touches_def)

lemma touches_trans [trans]: "touches p w w' \<Longrightarrow> touches p w' w'' \<Longrightarrow> touches p w w''"
  by (simp add: touches_def)

lemma touches_files: "files w' = files w \<Longrightarrow> touches p w w'"
  by (simp add: touches_def)

lemma next_fault_files: "next_fault w = (f, w') \<Longrightarrow> files w' = files w"
  by (auto simp: next_fault_def split: list.splits)

lemma touches_append: "files w1 = files w \<Longrightarrow> touches p w (emit (append_events p bs) w1)"
  by (simp add: touches_def append_events_def)

lemma ofs_write_touches:
  "ofs_write bs s w = (s', w') \<Longrightarrow> touches (os_path s) w w' \<and> os_path s' = os_path s"
  by (auto simp: ofs_write_def touches_append touches_files dest: next_fault_files
      split: if_splits prod.splits option.splits)

lemma ofs_flush_touches:
  "ofs_flush s w = (s', w') \<Longrightarrow> touches (os_path s) w w' \<and> os_path s' = os_path s"
  by (auto simp: ofs_flush_def touches_append touches_files dest: next_fault_files
      split: if_splits prod.splits option.splits)

lemma ofs_close_touches:
  "ofs_close s w = (s', w') \<Longrightarrow> touches (os_path s) w w' \<and> os_path s' = os_path s"
  by (auto simp: ofs_close_def dest: ofs_flush_touches split: prod.splits)

lemma ofs_open_trunc_touches:
  "ofs_open_trunc p w = (s', w') \<Longrightarrow> touches p w w' \<and> os_path s' = p"
  by (auto simp: ofs_open_with_def touches_def dest: next_fault_files
      split: prod.splits option.splits)

lemma ifs_open_files: "ifs_open p w = (c, w') \<Longrightarrow> files w' = files w"
  by (auto simp: ifs_open_def dest: next_fault_files split: prod.splits option.splits)

lemma fs_remove_touches: "fs_remove p w = (ec, w') \<Longrightarrow> touches p w w'"
  by (auto simp: fs_remove_def touches_def dest: next_fault_files
      split: prod.splits option.splits if_splits)

lemma fs_rename_failed: "fs_rename p q w = (True, w') \<Longrightarrow> files w' = files w"
  by (auto simp: fs_rename_def dest: next_fault_files split: prod.splits option.splits if_splits)

section \<open>Lines and file names\<close>

lemma getlines_from_line:
  "10 \<notin> set l \<Longrightarrow> getlines_from acc (l @ 10 # rest) = (acc @ l) # getlines_from [] rest"
  by (induction l arbitrary: acc) auto

text \<open>Writing a line per element and reading the lines back.\<close>

lemma getlines_concat:
  "\<forall>l\<in>set ls. 10 \<notin> set l \<Longrightarrow> getlines (concat (map (\<lambda>l. l @ [10]) ls)) = ls"
  unfolding getlines_def by (induction ls) (simp_all add: getlines_from_line)

lemma path_filename_join:
  "47 \<notin> set f \<Longrightarrow> path_filename (dir @ 47 # f) = f"
  by (subst path_filename_def) (simp, subst takeWhile_append2, auto)

end
