(* ===== verification/Types.thy ===== *)
theory Types
  imports Prelude
begin

text \<open>
  The shared types of \<^verbatim>\<open>include/lsm/status.h\<close>, \<^verbatim>\<open>include/lsm/types.h\<close> and
  \<^verbatim>\<open>include/lsm/options.h\<close>: statuses and results, record types and entries, options.
\<close>

section \<open>Status and Result\<close>

datatype StatusCode = OK | NOT_FOUND | IO_ERROR | CORRUPTION | INVALID_ARGUMENT

record Status =
  st_code :: StatusCode
  st_message :: bytes

definition Status_OK :: Status where
  "Status_OK = \<lparr>st_code = OK, st_message = []\<rparr>"

definition Status_NotFound :: "bytes \<Rightarrow> Status" where
  "Status_NotFound msg = \<lparr>st_code = NOT_FOUND, st_message = msg\<rparr>"

definition Status_IOError :: "bytes \<Rightarrow> Status" where
  "Status_IOError msg = \<lparr>st_code = IO_ERROR, st_message = msg\<rparr>"

definition Status_Corruption :: "bytes \<Rightarrow> Status" where
  "Status_Corruption msg = \<lparr>st_code = CORRUPTION, st_message = msg\<rparr>"

definition Status_InvalidArgument :: "bytes \<Rightarrow> Status" where
  "Status_InvalidArgument msg = \<lparr>st_code = INVALID_ARGUMENT, st_message = msg\<rparr>"

definition ok :: "Status \<Rightarrow> bool" where
  "ok s \<longleftrightarrow> st_code s = OK"

definition isNotFound :: "Status \<Rightarrow> bool" where
  "isNotFound s \<longleftrightarrow> st_code s = NOT_FOUND"

definition isCorruption :: "Status \<Rightarrow> bool" where
  "isCorruption s \<longleftrightarrow> st_code s = CORRUPTION"

definition toString :: "Status \<Rightarrow> bytes" where
  "toString s =
    (case st_code s of
      OK \<Rightarrow> lit ''OK''
    | NOT_FOUND \<Rightarrow> lit ''NotFound: '' @ st_message s
    | IO_ERROR \<Rightarrow> lit ''IOError: '' @ st_message s
    | CORRUPTION \<Rightarrow> lit ''Corruption: '' @ st_message s
    | INVALID_ARGUMENT \<Rightarrow> lit ''InvalidArgument: '' @ st_message s)"

record Result =
  r_status :: Status
  r_value :: bytes

definition Result_OK :: "bytes \<Rightarrow> Result" where
  "Result_OK v = \<lparr>r_status = Status_OK, r_value = v\<rparr>"

definition Result_NotFound :: "bytes \<Rightarrow> Result" where
  "Result_NotFound msg = \<lparr>r_status = Status_NotFound msg, r_value = []\<rparr>"

definition Result_Error :: "Status \<Rightarrow> Result" where
  "Result_Error s = \<lparr>r_status = s, r_value = []\<rparr>"

definition r_ok :: "Result \<Rightarrow> bool" where
  "r_ok r \<longleftrightarrow> ok (r_status r)"

lemma ok_simps [simp]:
  "ok Status_OK" "\<not> ok (Status_NotFound m)" "\<not> ok (Status_IOError m)"
  "\<not> ok (Status_Corruption m)" "\<not> ok (Status_InvalidArgument m)"
  by (simp_all add: ok_def Status_OK_def Status_NotFound_def Status_IOError_def
      Status_Corruption_def Status_InvalidArgument_def)

lemma isNotFound_simps [simp]:
  "\<not> isNotFound Status_OK" "isNotFound (Status_NotFound m)" "\<not> isNotFound (Status_IOError m)"
  "\<not> isNotFound (Status_Corruption m)" "\<not> isNotFound (Status_InvalidArgument m)"
  by (simp_all add: isNotFound_def Status_OK_def Status_NotFound_def Status_IOError_def
      Status_Corruption_def Status_InvalidArgument_def)

lemma isCorruption_simps [simp]:
  "\<not> isCorruption Status_OK" "\<not> isCorruption (Status_NotFound m)"
  "\<not> isCorruption (Status_IOError m)" "isCorruption (Status_Corruption m)"
  "\<not> isCorruption (Status_InvalidArgument m)"
  by (simp_all add: isCorruption_def Status_OK_def Status_NotFound_def Status_IOError_def
      Status_Corruption_def Status_InvalidArgument_def)

lemma r_simps [simp]:
  "r_ok (Result_OK v)" "\<not> r_ok (Result_NotFound m)" "r_ok (Result_Error s) = ok s"
  "r_value (Result_OK v) = v" "r_status (Result_NotFound m) = Status_NotFound m"
  "r_status (Result_Error s) = s" "r_status (Result_OK v) = Status_OK"
  by (simp_all add: r_ok_def Result_OK_def Result_NotFound_def Result_Error_def)

lemma Result_OK_eq [simp]: "Result_OK v = Result_OK w \<longleftrightarrow> v = w"
  by (simp add: Result_OK_def)

section \<open>Record types and entries\<close>

text \<open>
  \<^verbatim>\<open>RecordType\<close> is a scoped enumeration with the underlying type \<^verbatim>\<open>uint8_t\<close>: every
  byte is one of its values (the table readers cast any byte of a file to it), and two of
  them are named.
\<close>

type_synonym RecordType = byte

abbreviation (input) PUT :: RecordType where "PUT \<equiv> 1"

abbreviation (input) TOMBSTONE :: RecordType where "TOMBSTONE \<equiv> 2"

record KeyValueEntry =
  kve_key :: bytes
  kve_value :: bytes
  kve_type :: RecordType

definition kve_isTombstone :: "KeyValueEntry \<Rightarrow> bool" where
  "kve_isTombstone e \<longleftrightarrow> kve_type e = TOMBSTONE"

section \<open>Options\<close>

record Options =
  memtable_size_threshold :: u64
  sparse_index_interval :: u64
  bloom_bits_per_key :: u64
  bloom_num_hashes :: u64
  compaction_threshold :: u64
  enable_bloom_filter :: bool

definition default_options :: Options where
  "default_options =
    \<lparr>memtable_size_threshold = 4 * 1024 * 1024,
     sparse_index_interval = 16,
     bloom_bits_per_key = 10,
     bloom_num_hashes = 7,
     compaction_threshold = 4,
     enable_bloom_filter = True\<rparr>"

section \<open>Decimal text\<close>

text \<open>
  \<^verbatim>\<open>std::to_string\<close> and stream output of an unsigned integer, and \<^verbatim>\<open>std::stoull\<close> with
  its two exceptions: no digit to convert, and a value beyond 64 bits. It skips leading
  white space, accepts a sign and stops at the first byte that is not a digit.
\<close>

fun decimal :: "nat \<Rightarrow> bytes" where
  "decimal n = (if n < 10 then [48 + of_nat n] else decimal (n div 10) @ [48 + of_nat (n mod 10)])"

declare decimal.simps [simp del]

definition is_digit :: "byte \<Rightarrow> bool" where
  "is_digit c \<longleftrightarrow> 48 \<le> c \<and> c \<le> 57"

definition is_space :: "byte \<Rightarrow> bool" where
  "is_space c \<longleftrightarrow> c = 32 \<or> (9 \<le> c \<and> c \<le> 13)"

definition digits_value :: "bytes \<Rightarrow> nat" where
  "digits_value ds = foldl (\<lambda>n d. 10 * n + (unat d - 48)) 0 ds"

definition stoull :: "bytes \<Rightarrow> u64 outcome" where
  "stoull s =
    (let s1 = dropWhile is_space s;
         neg = (s1 \<noteq> [] \<and> hd s1 = 45);
         s2 = (if s1 \<noteq> [] \<and> (hd s1 = 45 \<or> hd s1 = 43) then tl s1 else s1);
         ds = takeWhile is_digit s2
     in if ds = [] then Throw (lit ''stoull'')
        else if 2 ^ 64 \<le> digits_value ds then Throw (lit ''stoull'')
        else Ret (if neg then - of_nat (digits_value ds) else of_nat (digits_value ds)))"

lemma decimal_digit: "d < 10 \<Longrightarrow> is_digit (48 + of_nat d) \<and> unat (48 + of_nat d :: byte) = 48 + d"
  by (auto simp: is_digit_def word_le_nat_alt unat_word_ariths unat_of_nat)

lemma decimal_digits: "d \<in> set (decimal n) \<Longrightarrow> is_digit d"
  by (induction n rule: decimal.induct)
    (subst (asm) (2) decimal.simps, auto simp: decimal_digit split: if_splits)

lemma decimal_nonempty [simp]: "decimal n \<noteq> []"
  by (subst decimal.simps) simp

lemma digits_value_snoc: "digits_value (ds @ [d]) = 10 * digits_value ds + (unat d - 48)"
  by (simp add: digits_value_def)

lemma digits_value_decimal: "digits_value (decimal n) = n"
proof (induction n rule: decimal.induct)
  case (1 n)
  show ?case
  proof (cases "n < 10")
    case True
    then show ?thesis
      by (subst decimal.simps) (simp add: digits_value_def decimal_digit)
  next
    case False
    then show ?thesis
      by (subst decimal.simps) (simp add: digits_value_snoc 1 decimal_digit)
  qed
qed

lemma digits_value_zeros: "digits_value (replicate k 48 @ ds) = digits_value ds"
  by (induction k) (simp_all add: digits_value_def)

end
