(* ===== verification/OrderedMap.thy ===== *)
theory OrderedMap
  imports Prelude
begin

text \<open>
  \<^verbatim>\<open>std::map\<close>, the container behind the MemTable and the merge of a compaction. Its
  contract is the locale \<^theory_text>\<open>ordered_map\<close>: what a lookup sees after an assignment, and that
  iteration visits the keys in strictly increasing order. The model of the container is
  the strictly sorted association list, which interprets the locale.
\<close>

section \<open>The contract\<close>

locale ordered_map =
  fixes empty :: "'m"
    and assign :: "'k::linorder \<Rightarrow> 'v \<Rightarrow> 'm \<Rightarrow> 'm"
    and find :: "'m \<Rightarrow> 'k \<Rightarrow> 'v option"
    and items :: "'m \<Rightarrow> ('k \<times> 'v) list"
    and invar :: "'m \<Rightarrow> bool"
  assumes invar_empty: "invar empty"
    and invar_assign: "invar m \<Longrightarrow> invar (assign k v m)"
    and items_empty: "items empty = []"
    and find_items: "invar m \<Longrightarrow> find m k = map_of (items m) k"
    and items_sorted: "invar m \<Longrightarrow> sorted_wrt (<) (map fst (items m))"
    and find_assign: "invar m \<Longrightarrow> find (assign k v m) = (find m)(k \<mapsto> v)"
begin

lemma find_empty: "find empty = (\<lambda>_. None)"
  by (simp add: fun_eq_iff find_items invar_empty items_empty)

lemma invar_assign_all: "invar m \<Longrightarrow> invar (fold (\<lambda>(k, v). assign k v) kvs m)"
  by (induction kvs arbitrary: m) (auto simp: invar_assign)

text \<open>The last assignment to a key wins.\<close>

lemma find_assign_all:
  "invar m \<Longrightarrow> find (fold (\<lambda>(k, v). assign k v) kvs m) = find m ++ map_of (rev kvs)"
  by (induction kvs arbitrary: m)
    (auto simp: invar_assign find_assign fun_eq_iff map_add_def split: option.splits)

text \<open>A strictly sorted list with the same lookups is what iteration visits.\<close>

lemma items_of_find:
  assumes "invar m" "sorted_wrt (<) (map fst xs)" "map_of xs = find m"
  shows "items m = xs"
proof -
  have "distinct (map fst xs)" "distinct (map fst (items m))"
    "sorted (map fst xs)" "sorted (map fst (items m))"
    using assms items_sorted strict_sorted_iff by blast+
  moreover have "map_of xs = map_of (items m)"
    using assms by (simp add: fun_eq_iff find_items)
  ultimately have "set xs = set (items m)" by (metis map_of_inject_set)
  with \<open>distinct (map fst xs)\<close> \<open>distinct (map fst (items m))\<close>
    \<open>sorted (map fst xs)\<close> \<open>sorted (map fst (items m))\<close>
  show ?thesis
    using map_sorted_distinct_set_unique [of fst xs "items m"]
    by (metis distinct_map sup.idem)
qed

lemma items_unique: "invar m \<Longrightarrow> invar m' \<Longrightarrow> find m = find m' \<Longrightarrow> items m = items m'"
  by (rule items_of_find) (auto simp: items_sorted find_items fun_eq_iff)

end

section \<open>Sorted association lists\<close>

fun smap_assign :: "'k::linorder \<Rightarrow> 'v \<Rightarrow> ('k \<times> 'v) list \<Rightarrow> ('k \<times> 'v) list" where
  "smap_assign k v [] = [(k, v)]"
| "smap_assign k v ((k', v') # m) =
     (if k < k' then (k, v) # (k', v') # m
      else if k = k' then (k, v) # m
      else (k', v') # smap_assign k v m)"

definition smap_find :: "('k \<times> 'v) list \<Rightarrow> 'k \<Rightarrow> 'v option" where
  "smap_find m k = map_of m k"

definition sorted_keys :: "('k::linorder \<times> 'v) list \<Rightarrow> bool" where
  "sorted_keys m \<longleftrightarrow> sorted_wrt (<) (map fst m)"

lemma keys_smap_assign: "fst ` set (smap_assign k v m) = insert k (fst ` set m)"
  by (induction k v m rule: smap_assign.induct) auto

lemma set_smap_assign: "set (smap_assign k v m) \<subseteq> insert (k, v) (set m)"
  by (induction k v m rule: smap_assign.induct) auto

lemma length_smap_assign: "length (smap_assign k v m) \<le> Suc (length m)"
  by (induction k v m rule: smap_assign.induct) auto

lemma sorted_keys_Nil [simp]: "sorted_keys []"
  by (simp add: sorted_keys_def)

lemma sorted_keys_Cons [simp]:
  "sorted_keys ((k, v) # m) \<longleftrightarrow> (\<forall>k'\<in>fst ` set m. k < k') \<and> sorted_keys m"
  by (auto simp: sorted_keys_def)

lemma sorted_keys_assign: "sorted_keys m \<Longrightarrow> sorted_keys (smap_assign k v m)"
  by (induction k v m rule: smap_assign.induct) (auto simp: keys_smap_assign dest: less_trans)

lemma map_of_smap_assign: "sorted_keys m \<Longrightarrow> map_of (smap_assign k v m) = (map_of m)(k \<mapsto> v)"
  by (induction k v m rule: smap_assign.induct) (auto simp: fun_eq_iff)

interpretation smap: ordered_map "[]" smap_assign smap_find id sorted_keys
  by unfold_locales
    (simp_all add: sorted_keys_assign smap_find_def map_of_smap_assign fun_eq_iff
      sorted_keys_def [symmetric])

end
