(* ===== verification/Levels.thy ===== *)
theory Levels
  imports Types
begin

text \<open>
  What the MemTable and each SSTable have in common: a lookup that answers with a value,
  with "deleted here", or with "not known here". The locale \<^theory_text>\<open>level\<close> states the contract of
  such a lookup against the map the level stands for; the MemTable and the table reader
  interpret it, and the store's read path uses it.
\<close>

text \<open>
  A level maps a key to \<open>None\<close> (not known), \<open>Some None\<close> (a tombstone) or
  \<open>Some (Some v)\<close> (a value).
\<close>

type_synonym level_map = "bytes \<Rightarrow> bytes option option"

text \<open>The value a client sees once all levels are merged.\<close>

definition visible :: "level_map \<Rightarrow> bytes \<Rightarrow> bytes option" where
  "visible m k = (case m k of Some (Some v) \<Rightarrow> Some v | _ \<Rightarrow> None)"

text \<open>Levels from the oldest to the newest, the newer one overriding the older.\<close>

definition merge_levels :: "level_map list \<Rightarrow> level_map" where
  "merge_levels ms = foldl (++) Map.empty ms"

text \<open>The tombstones of a level that nothing lies below can be dropped.\<close>

definition purge :: "level_map \<Rightarrow> level_map" where
  "purge m k = (case m k of Some None \<Rightarrow> None | x \<Rightarrow> x)"

lemma merge_levels_simps [simp]:
  "merge_levels [] = Map.empty"
  "merge_levels (ms @ [m]) = merge_levels ms ++ m"
  by (simp_all add: merge_levels_def)

lemma foldl_map_add: "foldl (++) m ms = m ++ foldl (++) Map.empty ms"
proof (induction ms arbitrary: m)
  case (Cons a ms)
  show ?case
    using Cons [of "m ++ a"] Cons [of "Map.empty ++ a"] by (simp add: map_add_assoc)
qed simp

lemma merge_levels_append: "merge_levels (ms @ ms') = merge_levels ms ++ merge_levels ms'"
  by (simp add: merge_levels_def) (metis foldl_map_add)

lemma merge_levels_Cons: "merge_levels (m # ms) = m ++ merge_levels ms"
  using merge_levels_append [of "[m]" ms] by (simp add: merge_levels_def)

lemma visible_upd: "visible (m(k \<mapsto> x)) = (visible m)(k := x)"
  by (auto simp: visible_def fun_eq_iff split: option.splits)

lemma visible_purge: "visible (purge m) = visible m"
  by (auto simp: visible_def purge_def fun_eq_iff split: option.splits)

lemma visible_purge_add: "visible (purge m ++ m') = visible (m ++ m')"
  by (auto simp: visible_def purge_def map_add_def fun_eq_iff split: option.splits)

lemma map_add_idem: "m ++ n ++ n = m ++ (n :: 'a \<rightharpoonup> 'b)"
  by (auto simp: map_add_def fun_eq_iff split: option.splits)

section \<open>The contract of a lookup\<close>

locale level =
  fixes get :: "'t \<Rightarrow> bytes \<Rightarrow> Result \<times> bool"
    and abs :: "'t \<Rightarrow> level_map"
    and wf :: "'t \<Rightarrow> bool"
  assumes get_value: "wf t \<Longrightarrow> abs t k = Some (Some v) \<Longrightarrow> get t k = (Result_OK v, False)"
    and get_deleted: "wf t \<Longrightarrow> abs t k = Some None \<Longrightarrow> \<exists>msg. get t k = (Result_NotFound msg, True)"
    and get_absent: "wf t \<Longrightarrow> abs t k = None \<Longrightarrow> \<exists>msg. get t k = (Result_NotFound msg, False)"
begin

lemma get_cases:
  assumes "wf t"
  obtains (Value) v where "abs t k = Some (Some v)" "get t k = (Result_OK v, False)"
  | (Deleted) msg where "abs t k = Some None" "get t k = (Result_NotFound msg, True)"
  | (Absent) msg where "abs t k = None" "get t k = (Result_NotFound msg, False)"
  using get_value [OF assms] get_deleted [OF assms] get_absent [OF assms]
  by (metis not_Some_eq)

lemma get_ok_iff: "wf t \<Longrightarrow> r_ok (fst (get t k)) \<longleftrightarrow> (\<exists>v. abs t k = Some (Some v))"
  by (erule get_cases [where k = k]) auto

lemma get_tombstone_iff: "wf t \<Longrightarrow> snd (get t k) \<longleftrightarrow> abs t k = Some None"
  by (erule get_cases [where k = k]) auto

lemma get_never_fails: "wf t \<Longrightarrow> r_ok (fst (get t k)) \<or> isNotFound (r_status (fst (get t k)))"
  by (erule get_cases [where k = k]) auto

lemma get_visible:
  "wf t \<Longrightarrow> r_ok (fst (get t k)) \<Longrightarrow> visible (abs t) k = Some (r_value (fst (get t k)))"
  by (erule get_cases [where k = k]) (auto simp: visible_def)

end

end
