(* ===== verification/MemTable.thy ===== *)
theory MemTable
  imports Types OrderedMap Levels
begin

text \<open>
  \<^verbatim>\<open>include/lsm/memtable.h\<close> and \<^verbatim>\<open>src/memtable.cpp\<close>: the sorted in-memory buffer with
  its running estimate of the memory it uses. Sizes are 64-bit words, as \<^verbatim>\<open>size_t\<close> is.
\<close>

section \<open>State and operations\<close>

record MemTableEntry =
  me_value :: bytes
  me_type :: RecordType

definition me_isTombstone :: "MemTableEntry \<Rightarrow> bool" where
  "me_isTombstone e \<longleftrightarrow> me_type e = TOMBSTONE"

record MemTable =
  table :: "(bytes \<times> MemTableEntry) list"
  approximate_size :: u64
  size_threshold :: u64

text \<open>
  \<^verbatim>\<open>sizeof(void*) * 4 + sizeof(MemTableEntry)\<close> on a 64-bit libstdc++ target: an 8-byte
  pointer, and a 32-byte string followed by one byte, padded to 40.
\<close>

definition kEntryOverhead :: u64 where
  "kEntryOverhead = 8 * 4 + 40"

definition mt_new :: "u64 \<Rightarrow> MemTable" where
  "mt_new threshold = \<lparr>table = [], approximate_size = 0, size_threshold = threshold\<rparr>"

definition addSize :: "u64 \<Rightarrow> MemTable \<Rightarrow> MemTable" where
  "addSize n m = m\<lparr>approximate_size := approximate_size m + n\<rparr>"

definition subSize :: "u64 \<Rightarrow> MemTable \<Rightarrow> MemTable" where
  "subSize n m =
    (if n \<le> approximate_size m then m\<lparr>approximate_size := approximate_size m - n\<rparr>
     else m\<lparr>approximate_size := 0\<rparr>)"

definition size_of :: "bytes \<Rightarrow> u64" where
  "size_of s = of_nat (length s)"

definition old_entry_size :: "bytes \<Rightarrow> MemTableEntry \<Rightarrow> u64" where
  "old_entry_size key e =
     size_of key + (if me_isTombstone e then 0 else size_of (me_value e)) + kEntryOverhead"

definition mt_put :: "bytes \<Rightarrow> bytes \<Rightarrow> MemTable \<Rightarrow> MemTable" where
  "mt_put key v m =
    (case smap_find (table m) key of
      Some e \<Rightarrow>
        let m1 = subSize (old_entry_size key e) m;
            m2 = m1\<lparr>table := smap_assign key \<lparr>me_value = v, me_type = PUT\<rparr> (table m1)\<rparr>
        in addSize (size_of key + size_of v + kEntryOverhead) m2
    | None \<Rightarrow>
        let m1 = m\<lparr>table := smap_assign key \<lparr>me_value = v, me_type = PUT\<rparr> (table m)\<rparr>
        in addSize (size_of key + size_of v + kEntryOverhead) m1)"

text \<open>The result, and the value of the out-parameter \<^verbatim>\<open>is_tombstone\<close>.\<close>

definition mt_get :: "bytes \<Rightarrow> MemTable \<Rightarrow> Result \<times> bool" where
  "mt_get key m =
    (case smap_find (table m) key of
      None \<Rightarrow> (Result_NotFound (lit ''Key not found in MemTable''), False)
    | Some e \<Rightarrow>
        if me_isTombstone e then (Result_NotFound (lit ''Key is deleted (tombstone)''), True)
        else (Result_OK (me_value e), False))"

definition mt_remove :: "bytes \<Rightarrow> MemTable \<Rightarrow> MemTable" where
  "mt_remove key m =
    (case smap_find (table m) key of
      Some e \<Rightarrow>
        let m1 = subSize (old_entry_size key e) m;
            m2 = m1\<lparr>table := smap_assign key \<lparr>me_value = [], me_type = TOMBSTONE\<rparr> (table m1)\<rparr>
        in addSize (size_of key + kEntryOverhead) m2
    | None \<Rightarrow>
        let m1 = m\<lparr>table := smap_assign key \<lparr>me_value = [], me_type = TOMBSTONE\<rparr> (table m)\<rparr>
        in addSize (size_of key + kEntryOverhead) m1)"

definition mt_contains :: "bytes \<Rightarrow> MemTable \<Rightarrow> bool" where
  "mt_contains key m \<longleftrightarrow> smap_find (table m) key \<noteq> None"

definition mt_isFull :: "MemTable \<Rightarrow> bool" where
  "mt_isFull m \<longleftrightarrow> size_threshold m \<le> approximate_size m"

definition mt_clear :: "MemTable \<Rightarrow> MemTable" where
  "mt_clear m = m\<lparr>table := [], approximate_size := 0\<rparr>"

definition mt_count :: "MemTable \<Rightarrow> nat" where
  "mt_count m = length (table m)"

definition mt_empty :: "MemTable \<Rightarrow> bool" where
  "mt_empty m \<longleftrightarrow> table m = []"

section \<open>Abstraction\<close>

text \<open>
  What a level of the store knows of a key: nothing, that it was deleted
  (\<open>Some None\<close>), or its value (\<open>Some (Some v)\<close>).
\<close>

definition entry_value :: "MemTableEntry \<Rightarrow> bytes option" where
  "entry_value e = (if me_isTombstone e then None else Some (me_value e))"

definition mt_abs :: "MemTable \<Rightarrow> bytes \<Rightarrow> bytes option option" where
  "mt_abs m k = map_option entry_value (map_of (table m) k)"

text \<open>The exact number of bytes the estimate stands for.\<close>

definition entry_bytes :: "bytes \<times> MemTableEntry \<Rightarrow> nat" where
  "entry_bytes ke =
     length (fst ke) + (if me_isTombstone (snd ke) then 0 else length (me_value (snd ke))) + 72"

definition mt_bytes :: "MemTable \<Rightarrow> nat" where
  "mt_bytes m = sum_list (map entry_bytes (table m))"

text \<open>
  Well-formed: the keys are sorted, an entry carries one of the two named record types and a
  tombstone no value. Exact: the estimate is the number of bytes it stands for.
\<close>

definition mt_wf :: "MemTable \<Rightarrow> bool" where
  "mt_wf m \<longleftrightarrow> sorted_keys (table m) \<and>
     (\<forall>e\<in>snd ` set (table m). me_type e = PUT \<or> me_type e = TOMBSTONE \<and> me_value e = [])"

definition mt_exact :: "MemTable \<Rightarrow> bool" where
  "mt_exact m \<longleftrightarrow> unat (approximate_size m) = mt_bytes m"

section \<open>Lookups and updates\<close>

lemma addSize_simps [simp]:
  "table (addSize n m) = table m" "size_threshold (addSize n m) = size_threshold m"
  "approximate_size (addSize n m) = approximate_size m + n"
  by (simp_all add: addSize_def)

lemma subSize_simps [simp]:
  "table (subSize n m) = table m" "size_threshold (subSize n m) = size_threshold m"
  by (simp_all add: subSize_def)

lemma table_mt_put:
  "table (mt_put k v m) = smap_assign k \<lparr>me_value = v, me_type = PUT\<rparr> (table m)"
  by (simp add: mt_put_def Let_def split: option.splits)

lemma table_mt_remove:
  "table (mt_remove k m) = smap_assign k \<lparr>me_value = [], me_type = TOMBSTONE\<rparr> (table m)"
  by (simp add: mt_remove_def Let_def split: option.splits)

lemma mt_simps [simp]:
  "size_threshold (mt_put k v m) = size_threshold m"
  "size_threshold (mt_remove k m) = size_threshold m"
  "size_threshold (mt_clear m) = size_threshold m"
  "table (mt_clear m) = []" "table (mt_new t) = []"
  by (simp_all add: mt_put_def mt_remove_def mt_clear_def mt_new_def Let_def split: option.splits)

lemma mt_wf_new: "mt_wf (mt_new t)"
  by (simp add: mt_wf_def)

lemma mt_wf_clear: "mt_wf (mt_clear m)"
  by (simp add: mt_wf_def)

lemma mt_wf_put: "mt_wf m \<Longrightarrow> mt_wf (mt_put k v m)"
  using set_smap_assign [of k "\<lparr>me_value = v, me_type = PUT\<rparr>" "table m"]
  by (auto simp: mt_wf_def table_mt_put sorted_keys_assign)

lemma mt_wf_remove: "mt_wf m \<Longrightarrow> mt_wf (mt_remove k m)"
  using set_smap_assign [of k "\<lparr>me_value = [], me_type = TOMBSTONE\<rparr>" "table m"]
  by (auto simp: mt_wf_def table_mt_remove sorted_keys_assign)

lemma mt_abs_put: "mt_wf m \<Longrightarrow> mt_abs (mt_put k v m) = (mt_abs m)(k \<mapsto> Some v)"
  by (auto simp: mt_wf_def mt_abs_def table_mt_put map_of_smap_assign fun_eq_iff
      entry_value_def me_isTombstone_def)

lemma mt_abs_remove: "mt_wf m \<Longrightarrow> mt_abs (mt_remove k m) = (mt_abs m)(k \<mapsto> None)"
  by (auto simp: mt_wf_def mt_abs_def table_mt_remove map_of_smap_assign fun_eq_iff
      entry_value_def me_isTombstone_def)

lemma mt_abs_empty [simp]: "mt_abs (mt_clear m) = Map.empty" "mt_abs (mt_new t) = Map.empty"
  by (simp_all add: mt_abs_def fun_eq_iff)

interpretation mt: level "\<lambda>m k. mt_get k m" mt_abs mt_wf
  by unfold_locales
    (auto simp: mt_get_def mt_abs_def smap_find_def entry_value_def split: option.splits if_splits)

section \<open>The size estimate\<close>

lemma sum_smap_assign_new:
  "map_of m k = None \<Longrightarrow> sorted_keys m \<Longrightarrow>
     sum_list (map f (smap_assign k v m)) = sum_list (map f m) + (f (k, v) :: nat)"
  by (induction k v m rule: smap_assign.induct) (auto split: if_splits)

lemma map_of_key_above: "\<forall>x\<in>set m. k' < fst x \<Longrightarrow> map_of m k = Some e \<Longrightarrow> k' < k"
  using map_of_SomeD by fastforce

lemma sum_smap_assign_old:
  "map_of m k = Some e \<Longrightarrow> sorted_keys m \<Longrightarrow>
     sum_list (map f (smap_assign k v m)) + f (k, e) = sum_list (map f m) + (f (k, v) :: nat)"
  by (induction k v m rule: smap_assign.induct) (auto split: if_splits dest: map_of_key_above)

lemma entry_bytes_le: "map_of (table m) k = Some e \<Longrightarrow> entry_bytes (k, e) \<le> mt_bytes m"
  unfolding mt_bytes_def by (rule member_le_sum_list) (auto dest: map_of_SomeD)

lemma unat_sum3:
  "a + b + 72 < 2 ^ 64 \<Longrightarrow> unat (of_nat a + of_nat b + 72 :: u64) = a + b + 72"
  by (simp add: unat_word_ariths unat_of_nat)

lemma unat_sum2: "a + 72 < 2 ^ 64 \<Longrightarrow> unat (of_nat a + 72 :: u64) = a + 72"
  by (simp add: unat_word_ariths unat_of_nat)

lemma unat_old_entry_size:
  assumes "mt_bytes m < 2 ^ 64" "map_of (table m) k = Some e"
  shows "unat (old_entry_size k e) = entry_bytes (k, e)"
  using entry_bytes_le [OF assms(2)] assms(1)
  by (auto simp: old_entry_size_def entry_bytes_def size_of_def kEntryOverhead_def
      unat_sum3 unat_sum2)

text \<open>Replacing or adding an entry of \<open>n\<close> bytes, in the order the code does it.\<close>

lemma exact_replace:
  assumes "mt_exact m" "mt_bytes m < 2 ^ 64" "map_of (table m) k = Some e"
    and "mt_bytes m' + entry_bytes (k, e) = mt_bytes m + unat n" "mt_bytes m' < 2 ^ 64"
  shows "unat (approximate_size (subSize (old_entry_size k e) m) + n) = mt_bytes m'"
proof -
  let ?o = "old_entry_size k e"
  have o: "unat ?o = entry_bytes (k, e)" using assms by (simp add: unat_old_entry_size)
  then have le: "?o \<le> approximate_size m"
    using assms entry_bytes_le [OF assms(3)] by (simp add: word_le_nat_alt mt_exact_def)
  then have "unat (approximate_size m - ?o) = mt_bytes m - entry_bytes (k, e)"
    using assms(1) o by (simp add: unat_sub mt_exact_def)
  then show ?thesis
    using assms(4,5) entry_bytes_le [OF assms(3)] le
    by (simp add: subSize_def unat_word_ariths)
qed

lemma exact_add:
  assumes "mt_exact m" "mt_bytes m' = mt_bytes m + unat n" "mt_bytes m' < 2 ^ 64"
  shows "unat (approximate_size m + n) = mt_bytes m'"
  using assms by (simp add: mt_exact_def unat_word_ariths)

lemma mt_exact_put:
  assumes "mt_wf m" "mt_exact m" "mt_bytes (mt_put k v m) < 2 ^ 64"
    and "length k + length v + 72 < 2 ^ 64"
  shows "mt_exact (mt_put k v m)"
proof -
  let ?new = "\<lparr>me_value = v, me_type = PUT\<rparr>" and ?n = "size_of k + size_of v + kEntryOverhead"
  have n: "unat ?n = entry_bytes (k, ?new)"
    using assms(4) by (simp add: size_of_def kEntryOverhead_def entry_bytes_def
        me_isTombstone_def unat_sum3)
  have small: "mt_bytes m < 2 ^ 64"
    using assms(2) unat_u64_lt [of "approximate_size m"] by (simp add: mt_exact_def)
  have srt: "sorted_keys (table m)" using assms(1) by (simp add: mt_wf_def)
  show ?thesis
  proof (cases "map_of (table m) k")
    case None
    with n srt have "mt_bytes (mt_put k v m) = mt_bytes m + unat ?n"
      by (simp add: mt_bytes_def table_mt_put sum_smap_assign_new)
    with None exact_add [OF assms(2) this assms(3)] show ?thesis
      by (simp add: mt_exact_def mt_put_def smap_find_def add.assoc)
  next
    case (Some e)
    with n srt have "mt_bytes (mt_put k v m) + entry_bytes (k, e) = mt_bytes m + unat ?n"
      by (simp add: mt_bytes_def table_mt_put sum_smap_assign_old)
    with Some exact_replace [OF assms(2) small Some this assms(3)] show ?thesis
      by (simp add: mt_exact_def mt_put_def smap_find_def Let_def add.assoc)
  qed
qed

lemma mt_exact_remove:
  assumes "mt_wf m" "mt_exact m" "mt_bytes (mt_remove k m) < 2 ^ 64"
    and "length k + 72 < 2 ^ 64"
  shows "mt_exact (mt_remove k m)"
proof -
  let ?new = "\<lparr>me_value = [], me_type = TOMBSTONE\<rparr>" and ?n = "size_of k + kEntryOverhead"
  have n: "unat ?n = entry_bytes (k, ?new)"
    using assms(4) by (simp add: size_of_def kEntryOverhead_def entry_bytes_def
        me_isTombstone_def unat_sum2)
  have small: "mt_bytes m < 2 ^ 64"
    using assms(2) unat_u64_lt [of "approximate_size m"] by (simp add: mt_exact_def)
  have srt: "sorted_keys (table m)" using assms(1) by (simp add: mt_wf_def)
  show ?thesis
  proof (cases "map_of (table m) k")
    case None
    with n srt have "mt_bytes (mt_remove k m) = mt_bytes m + unat ?n"
      by (simp add: mt_bytes_def table_mt_remove sum_smap_assign_new)
    with None exact_add [OF assms(2) this assms(3)] show ?thesis
      by (simp add: mt_exact_def mt_remove_def smap_find_def add.assoc)
  next
    case (Some e)
    with n srt have "mt_bytes (mt_remove k m) + entry_bytes (k, e) = mt_bytes m + unat ?n"
      by (simp add: mt_bytes_def table_mt_remove sum_smap_assign_old)
    with Some exact_replace [OF assms(2) small Some this assms(3)] show ?thesis
      by (simp add: mt_exact_def mt_remove_def smap_find_def Let_def add.assoc)
  qed
qed

lemma mt_bytes_clear [simp]: "mt_bytes (mt_clear m) = 0"
  by (simp add: mt_bytes_def)

lemma mt_exact_clear: "mt_exact (mt_clear m)"
  by (simp add: mt_exact_def) (simp add: mt_clear_def)

lemma mt_isFull_exact: "mt_exact m \<Longrightarrow> mt_isFull m \<longleftrightarrow> unat (size_threshold m) \<le> mt_bytes m"
  by (simp add: mt_isFull_def mt_exact_def word_le_nat_alt)

section \<open>Properties\<close>

text \<open>
  C21: the MemTable refines a map from keys to values and tombstones. \<^verbatim>\<open>put\<close> and \<^verbatim>\<open>remove\<close>
  keep it well-formed and update exactly one key of the map, \<^verbatim>\<open>clear\<close> empties it, and \<^verbatim>\<open>get\<close>
  answers with the value, reports a tombstone through its out-parameter, or answers
  \<^verbatim>\<open>NotFound\<close> without it.
\<close>

theorem memtable_refines_map:
  assumes "mt_wf m"
  shows "mt_wf (mt_put k v m) \<and> mt_abs (mt_put k v m) = (mt_abs m)(k \<mapsto> Some v) \<and>
    mt_wf (mt_remove k m) \<and> mt_abs (mt_remove k m) = (mt_abs m)(k \<mapsto> None) \<and>
    mt_wf (mt_clear m) \<and> mt_abs (mt_clear m) = Map.empty \<and>
    (case mt_abs m k' of
      None \<Rightarrow> \<not> snd (mt_get k' m) \<and> isNotFound (r_status (fst (mt_get k' m)))
    | Some None \<Rightarrow> snd (mt_get k' m) \<and> isNotFound (r_status (fst (mt_get k' m)))
    | Some (Some x) \<Rightarrow> mt_get k' m = (Result_OK x, False))"
  using mt.get_cases [OF assms, of k'] assms
  by (cases rule: mt.get_cases [OF assms, of k'])
    (simp_all add: mt_wf_put mt_wf_remove mt_wf_clear mt_abs_put mt_abs_remove)

theorem memtable_refines_map_witness:
  "mt_wf (mt_put [1] [7] (mt_new 500)) \<and>
   mt_abs (mt_remove [1] (mt_put [1] [7] (mt_new 500))) =
     (mt_abs (mt_put [1] [7] (mt_new 500)))([1] \<mapsto> None)"
  using memtable_refines_map [of "mt_new 500" "[1]" "[7]"]
    memtable_refines_map [of "mt_put [1] [7] (mt_new 500)" "[1]"]
  by (simp add: mt_wf_new)

text \<open>
  C22: the running estimate is exact. As long as the sizes fit into 64 bits, after a \<^verbatim>\<open>put\<close> or
  a \<^verbatim>\<open>remove\<close> (also one that overwrites a value or a tombstone) and after a \<^verbatim>\<open>clear\<close>
  \<^verbatim>\<open>approximateSize()\<close> is the sum over the entries of key length, value length and node
  overhead, which is 0 after \<^verbatim>\<open>clear\<close>, so that the saturating subtraction never saturates; and
  \<^verbatim>\<open>isFull\<close> then tells whether that sum has reached the threshold, equality included.
\<close>

theorem memtable_size_exact:
  assumes "mt_wf m" "mt_exact m"
    and "mt_bytes (mt_put k v m) < 2 ^ 64" "mt_bytes (mt_remove k m) < 2 ^ 64"
    and "length k + length v + 72 < 2 ^ 64"
  shows "unat (approximate_size (mt_put k v m)) = mt_bytes (mt_put k v m) \<and>
    unat (approximate_size (mt_remove k m)) = mt_bytes (mt_remove k m) \<and>
    unat (approximate_size (mt_clear m)) = mt_bytes (mt_clear m) \<and> mt_bytes (mt_clear m) = 0 \<and>
    (mt_isFull (mt_put k v m) \<longleftrightarrow> unat (size_threshold m) \<le> mt_bytes (mt_put k v m)) \<and>
    (mt_isFull (mt_remove k m) \<longleftrightarrow> unat (size_threshold m) \<le> mt_bytes (mt_remove k m)) \<and>
    (mt_isFull (mt_clear m) \<longleftrightarrow> unat (size_threshold m) = 0)"
proof -
  have bound: "length k + 72 < 2 ^ 64" using assms(5) by simp
  have "mt_exact (mt_put k v m)" "mt_exact (mt_remove k m)" "mt_exact (mt_clear m)"
    by (fact mt_exact_put [OF assms(1-3,5)] mt_exact_remove [OF assms(1,2,4) bound] mt_exact_clear)+
  then show ?thesis
    using mt_bytes_clear [of m] by (simp add: mt_isFull_exact) (simp add: mt_exact_def)
qed

theorem memtable_size_exact_witness:
  "unat (approximate_size (mt_put [1] [7, 8] (mt_new 500))) = 75 \<and>
   unat (approximate_size (mt_clear (mt_put [1] [7, 8] (mt_new 500)))) = 0"
proof -
  let ?m = "mt_put [1] [7, 8] (mt_new 500)"
  have new: "mt_wf (mt_new 500)" "mt_exact (mt_new 500)"
    by (simp_all add: mt_wf_def mt_exact_def mt_bytes_def mt_new_def)
  have bytes: "mt_bytes ?m = 75" "mt_bytes (mt_put [] [] ?m) < 2 ^ 64" "mt_bytes (mt_remove [] ?m) < 2 ^ 64"
    "mt_bytes (mt_remove [1] (mt_new 500)) < 2 ^ 64"
    by (simp_all add: mt_bytes_def table_mt_put table_mt_remove entry_bytes_def me_isTombstone_def)
  have put: "unat (approximate_size ?m) = 75"
    using memtable_size_exact [OF new, of "[1]" "[7, 8]"] bytes by simp
  then have "mt_wf ?m" "mt_exact ?m" using new bytes by (simp_all add: mt_wf_put mt_exact_def)
  from memtable_size_exact [OF this, of "[]" "[]"] put bytes show ?thesis by simp
qed

end
