(* ===== verification/Framing.thy ===== *)
theory Framing
  imports Crc Codec Types StdIO
begin

text \<open>
  The record layout that the write-ahead log and the data section of a table share: a
  9-byte header (type, key length, value length), the key, the value, and the CRC32 of all
  of that. A reader of one record is an interface, the locale \<^theory_text>\<open>framed\<close>; from its laws
  follow unique decodability and what a truncated sequence of records looks like. The log
  and the table reader interpret it.
\<close>

section \<open>Reading one record\<close>

text \<open>
  One iteration of a reading loop ends the loop with a status and the truncation flag, or
  delivers a record and the stream after it.
\<close>

datatype 'r read_step = Stop Status bool | Got 'r ifstream

definition in_stream :: "bytes \<Rightarrow> ifstream" where
  "in_stream bs = \<lparr>ifs_rest = bs, ifs_fail = False\<rparr>"

lemma in_stream_simps [simp]:
  "ifs_rest (in_stream bs) = bs" "\<not> ifs_fail (in_stream bs)"
  "in_stream bs = in_stream bs' \<longleftrightarrow> bs = bs'"
  by (simp_all add: in_stream_def)

lemma in_stream_eq: "\<not> ifs_fail s \<Longrightarrow> s = in_stream (ifs_rest s)"
  by (simp add: in_stream_def)

lemma ifs_at_in_stream: "ifs_at content off = in_stream (drop off content)"
  by (simp add: ifs_at_def in_stream_def)

lemma ifs_eof_in_stream [simp]: "ifs_eof (in_stream bs) \<longleftrightarrow> bs = []"
  by (simp add: ifs_eof_def)

lemma ifs_read_in_stream:
  "ifs_read n (in_stream bs) =
     (take n bs, \<lparr>ifs_rest = drop n bs, ifs_fail = (length bs < n)\<rparr>)"
  by (simp add: ifs_read_def)

lemma ifs_read_whole: "n = length xs \<Longrightarrow> ifs_read n (in_stream (xs @ ys)) = (xs, in_stream ys)"
  by (simp only: ifs_read_in_stream) (simp add: in_stream_def)

lemma ifs_read_short: "length bs < n \<Longrightarrow> fst (ifs_read n (in_stream bs)) = bs"
  by (simp add: ifs_read_in_stream)

text \<open>A payload whose 32-bit length was read before: nothing is read for a length of zero.\<close>

definition ifs_read_len :: "u32 \<Rightarrow> ifstream \<Rightarrow> bytes \<times> ifstream" where
  "ifs_read_len len s = (if 0 < len then ifs_read (unat len) s else ([], s))"

lemma ifs_read_len_whole:
  "length xs < 2 ^ 32 \<Longrightarrow>
     ifs_read_len (of_nat (length xs)) (in_stream (xs @ ys)) = (xs, in_stream ys)"
  using unat_of_nat_u32 [of "length xs"]
  by (auto simp: ifs_read_len_def ifs_read_whole word_gt_0 dest: unat_of_nat_u32 split: if_splits)

lemma ifs_read_len_rest_le:
  "ifs_read_len n s = (xs, s') \<Longrightarrow> length (ifs_rest s') \<le> length (ifs_rest s)"
  by (auto simp: ifs_read_len_def dest: ifs_read_rest_le split: if_splits)

lemma ifs_read_len_complete:
  "ifs_read_len n s = (xs, s') \<Longrightarrow> unat n \<le> length xs \<Longrightarrow> \<not> ifs_fail s \<Longrightarrow>
     ifs_rest s = xs @ ifs_rest s' \<and> \<not> ifs_fail s' \<and> length xs = unat n"
  by (auto simp: ifs_read_len_def word_gt_0 dest: ifs_read_complete split: if_splits)

lemma ifs_read_len_short:
  "length bs < unat n \<Longrightarrow> fst (ifs_read_len n (in_stream bs)) = bs"
  by (auto simp: ifs_read_len_def ifs_read_short word_gt_0)

section \<open>The layout\<close>

definition frame_header :: "RecordType \<Rightarrow> bytes \<Rightarrow> bytes \<Rightarrow> bytes" where
  "frame_header t k v =
     [t] @ encodeUint32LE (of_nat (length k)) @ encodeUint32LE (of_nat (length v))"

definition frame_body :: "RecordType \<Rightarrow> bytes \<Rightarrow> bytes \<Rightarrow> bytes" where
  "frame_body t k v = frame_header t k v @ k @ v"

definition frame :: "RecordType \<Rightarrow> bytes \<Rightarrow> bytes \<Rightarrow> bytes" where
  "frame t k v = frame_body t k v @ encodeUint32LE (crc32 (frame_body t k v) 0)"

lemma length_frame_header [simp, len_simps]: "length (frame_header t k v) = 9"
  by (simp add: frame_header_def)

lemma length_frame_body [simp, len_simps]: "length (frame_body t k v) = 9 + length k + length v"
  by (simp add: frame_body_def)

lemma length_frame [simp, len_simps]: "length (frame t k v) = 13 + length k + length v"
  by (simp add: frame_def)

lemma frame_header_fields [simp]:
  "frame_header t k v ! 0 = t"
  "decodeUint32LE (drop (Suc 0) (frame_header t k v)) = of_nat (length k)"
  "decodeUint32LE (drop 5 (frame_header t k v)) = of_nat (length v)"
  by (simp_all add: frame_header_def)

text \<open>Any nine bytes are the header of the record type and lengths they decode to.\<close>

lemma header_bytes:
  assumes "length h = 9" "length k = unat (decodeUint32LE (drop 1 h))"
    and "length v = unat (decodeUint32LE (drop 5 h))"
  shows "h = frame_header (h ! 0) k v"
proof -
  have "h = take 1 h @ take 4 (drop 1 h) @ drop 5 h"
    using append_take_drop_id [of 4 "drop 1 h"] append_take_drop_id [of 1 h] by simp
  moreover have "take 1 h = [h ! 0]"
    using assms(1) by (cases h) auto
  moreover have "encodeUint32LE (decodeUint32LE (take 4 (drop 1 h))) = take 4 (drop 1 h)"
    "encodeUint32LE (decodeUint32LE (drop 5 h)) = drop 5 h"
    using assms(1) by (simp_all add: encode_decode32_list)
  moreover have "decodeUint32LE (take 4 (drop 1 h)) = decodeUint32LE (drop 1 h)"
    using decode32_append [of "take 4 (drop 1 h)" "drop 4 (drop 1 h)"] assms(1)
    by (simp only: append_take_drop_id) simp
  ultimately show ?thesis
    using assms(2,3) by (simp add: frame_header_def)
qed

lemma framed_bytes:
  assumes "length h = 9" "length k = unat (decodeUint32LE (drop 1 h))"
    and "length v = unat (decodeUint32LE (drop 5 h))" "length c = 4"
    and "crc32 (h @ k @ v) 0 = decodeUint32LE c"
  shows "frame (h ! 0) k v = h @ k @ v @ c"
proof -
  have "frame_body (h ! 0) k v = h @ k @ v"
    using header_bytes [OF assms(1-3)] by (simp add: frame_body_def)
  moreover have "encodeUint32LE (crc32 (h @ k @ v) 0) = c"
    unfolding assms(5) by (rule encode_decode32_list [OF assms(4)])
  ultimately show ?thesis by (simp add: frame_def)
qed

lemma strict_prefix_append_cases:
  assumes "strict_prefix p (xs @ ys)"
  obtains (left) "length p < length xs"
  | (right) q where "p = xs @ q" "strict_prefix q ys"
proof (cases "strict_prefix p xs")
  case True
  then show ?thesis by (intro left prefix_length_less)
next
  case False
  with assms obtain q where q: "p = xs @ q" "prefix q ys"
    by (auto simp: strict_prefix_def prefix_append)
  with assms show ?thesis by (intro right [of q]) (auto simp: strict_prefix_def)
qed

section \<open>Readers of framed records\<close>

locale framed =
  fixes read :: "ifstream \<Rightarrow> 'r read_step"
    and enc :: "'r \<Rightarrow> bytes"
    and valid :: "'r \<Rightarrow> bool"
  assumes read_enc: "valid r \<Longrightarrow> read (in_stream (enc r @ rest)) = Got r (in_stream rest)"
    and read_sound: "read (in_stream bs) = Got r s \<Longrightarrow>
        valid r \<and> \<not> ifs_fail s \<and> bs = enc r @ ifs_rest s"
    and read_truncated: "valid r \<Longrightarrow> strict_prefix p (enc r) \<Longrightarrow> p \<noteq> [] \<Longrightarrow>
        \<exists>msg. read (in_stream p) = Stop (Status_Corruption msg) True"
    and enc_nonempty: "enc r \<noteq> []"
begin

lemma enc_append_inject:
  assumes "valid r" "valid r'" "enc r @ xs = enc r' @ ys"
  shows "r = r' \<and> xs = ys"
proof -
  have "Got r (in_stream xs) = read (in_stream (enc r @ xs))"
    by (rule read_enc [OF assms(1), symmetric])
  also have "\<dots> = read (in_stream (enc r' @ ys))" by (simp only: assms(3))
  also have "\<dots> = Got r' (in_stream ys)" by (rule read_enc [OF assms(2)])
  finally show ?thesis by simp
qed

lemma concat_enc_inject:
  "list_all valid rs \<Longrightarrow> list_all valid rs' \<Longrightarrow>
     concat (map enc rs) = concat (map enc rs') \<Longrightarrow> rs = rs'"
proof (induction rs arbitrary: rs')
  case Nil
  then show ?case by (cases rs') (simp_all add: enc_nonempty)
next
  case (Cons r rs)
  note IH = Cons.IH and prems = Cons.prems
  show ?case
  proof (cases rs')
    case Nil
    with prems(3) show ?thesis by (simp add: enc_nonempty)
  next
    case (Cons r' rs'')
    have "enc r @ concat (map enc rs) = enc r' @ concat (map enc rs'')"
      using prems(3) unfolding Cons by simp
    moreover have "valid r" "valid r'" "list_all valid rs" "list_all valid rs''"
      using prems(1,2) unfolding Cons by simp_all
    ultimately have "r = r'" "rs = rs''"
      using enc_append_inject IH by blast+
    with Cons show ?thesis by simp
  qed
qed

text \<open>What is left of a sequence of records after it is cut anywhere.\<close>

lemma prefix_of_concat:
  assumes "prefix p (concat (map enc rs))"
  shows "\<exists>n t. n \<le> length rs \<and> p = concat (map enc (take n rs)) @ t \<and>
    (t = [] \<or> n < length rs \<and> strict_prefix t (enc (rs ! n)))"
  using assms
proof (induction rs arbitrary: p)
  case Nil
  then show ?case by simp
next
  case (Cons r rs)
  show ?case
  proof (cases "strict_prefix p (enc r)")
    case True
    then show ?thesis by (intro exI [of _ 0] exI [of _ p]) simp
  next
    case False
    with Cons.prems obtain p' where p: "p = enc r @ p'"
      by (auto simp: strict_prefix_def prefix_append)
    with Cons.prems have "prefix p' (concat (map enc rs))" by simp
    from Cons.IH [OF this] obtain n t where "n \<le> length rs"
      "p' = concat (map enc (take n rs)) @ t"
      "t = [] \<or> n < length rs \<and> strict_prefix t (enc (rs ! n))"
      by blast
    with p show ?thesis by (intro exI [of _ "Suc n"] exI [of _ t]) auto
  qed
qed

end

end
