(* ===== verification/Wal.thy ===== *)
theory Wal
  imports Framing
begin

text \<open>
  The write-ahead log of \<^verbatim>\<open>include/lsm/wal.h\<close> and \<^verbatim>\<open>src/wal.cpp\<close>: opening, appending,
  clearing and replaying. The replay reads one framed record per iteration; its reader
  interprets the locale \<^theory_text>\<open>framed\<close>.
\<close>

section \<open>The log writer\<close>

record WALRecord =
  wr_type :: RecordType
  wr_key :: bytes
  wr_value :: bytes

record WAL =
  wal_filepath :: path
  wal_file :: ofstream
  wal_is_open :: bool

definition wal_new :: WAL where
  "wal_new = \<lparr>wal_filepath = [], wal_file = closed_ofstream, wal_is_open = False\<rparr>"

definition wal_close :: "WAL \<Rightarrow> world \<Rightarrow> Status \<times> WAL \<times> world" where
  "wal_close l w =
    (if wal_is_open l then
       (case ofs_flush (wal_file l) w of (f1, w1) \<Rightarrow>
        case ofs_close f1 w1 of (f2, w2) \<Rightarrow>
          (Status_OK, l\<lparr>wal_file := f2, wal_is_open := False\<rparr>, w2))
     else (Status_OK, l, w))"

definition wal_open :: "path \<Rightarrow> WAL \<Rightarrow> world \<Rightarrow> Status \<times> WAL \<times> world" where
  "wal_open filepath l w =
    (case wal_close l w of (_, l1, w1) \<Rightarrow>
     case ofs_open_app filepath w1 of (f, w2) \<Rightarrow>
       let l2 = l1\<lparr>wal_filepath := filepath, wal_file := f\<rparr>
       in if \<not> os_open f then
            (Status_IOError (lit ''Failed to open WAL file: '' @ filepath), l2, w2)
          else (Status_OK, l2\<lparr>wal_is_open := True\<rparr>, w2))"

text \<open>
  The buffer of one record. Its size is computed with the 32-bit sum of the two lengths;
  when that sum wraps around, the two \<^verbatim>\<open>memcpy\<close> calls write past the end of the buffer.
\<close>

definition wal_buffer :: "RecordType \<Rightarrow> bytes \<Rightarrow> bytes \<Rightarrow> bytes outcome" where
  "wal_buffer type key val =
    (let key_len = (of_nat (length key) :: u32);
         val_len = (if type = TOMBSTONE then 0 else (of_nat (length val) :: u32));
         total_record_size = 9 + unat (key_len + val_len)
     in if total_record_size < 9 + unat key_len + unat val_len then Undef
        else Ret ([type] @ encodeUint32LE key_len @ encodeUint32LE val_len
                  @ take (unat key_len) key @ take (unat val_len) val))"

definition wal_appendRecord ::
  "RecordType \<Rightarrow> bytes \<Rightarrow> bytes \<Rightarrow> WAL \<Rightarrow> world \<Rightarrow> (Status \<times> WAL \<times> world) outcome" where
  "wal_appendRecord type key val l w =
    (if \<not> wal_is_open l then Ret (Status_IOError (lit ''WAL is not open''), l, w)
     else obind (wal_buffer type key val) (\<lambda>buffer.
       case ofs_write buffer (wal_file l) w of (f1, w1) \<Rightarrow>
       case ofs_write (encodeUint32LE (crc32 buffer 0)) f1 w1 of (f2, w2) \<Rightarrow>
         if \<not> ofs_good f2 then
           Ret (Status_IOError (lit ''Failed writing to WAL file''), l\<lparr>wal_file := f2\<rparr>, w2)
         else (case ofs_flush f2 w2 of (f3, w3) \<Rightarrow>
           Ret (Status_OK, l\<lparr>wal_file := f3\<rparr>, w3))))"

definition wal_appendPut ::
  "bytes \<Rightarrow> bytes \<Rightarrow> WAL \<Rightarrow> world \<Rightarrow> (Status \<times> WAL \<times> world) outcome" where
  "wal_appendPut key val l w = wal_appendRecord PUT key val l w"

definition wal_appendDelete :: "bytes \<Rightarrow> WAL \<Rightarrow> world \<Rightarrow> (Status \<times> WAL \<times> world) outcome" where
  "wal_appendDelete key l w = wal_appendRecord TOMBSTONE key [] l w"

definition wal_flush :: "WAL \<Rightarrow> world \<Rightarrow> Status \<times> WAL \<times> world" where
  "wal_flush l w =
    (if \<not> wal_is_open l then (Status_IOError (lit ''WAL is not open''), l, w)
     else case ofs_flush (wal_file l) w of (f, w1) \<Rightarrow>
       if \<not> ofs_good f then
         (Status_IOError (lit ''Failed to flush WAL file''), l\<lparr>wal_file := f\<rparr>, w1)
       else (Status_OK, l\<lparr>wal_file := f\<rparr>, w1))"

definition wal_clear :: "WAL \<Rightarrow> world \<Rightarrow> Status \<times> WAL \<times> world" where
  "wal_clear l w =
    (case wal_close l w of (_, l1, w1) \<Rightarrow>
     case ofs_open_trunc (wal_filepath l1) w1 of (f, w2) \<Rightarrow>
       if \<not> os_open f then
         (Status_IOError (lit ''Failed to truncate WAL file: '' @ wal_filepath l1),
          l1\<lparr>wal_file := f\<rparr>, w2)
       else (Status_OK, l1\<lparr>wal_file := f, wal_is_open := True\<rparr>, w2))"

section \<open>Replay\<close>

text \<open>One iteration of the replay loop after its end-of-file test.\<close>

definition wal_read_record :: "ifstream \<Rightarrow> WALRecord read_step" where
  "wal_read_record in0 =
    (case ifs_read 9 in0 of (header, in1) \<Rightarrow>
     if length header = 0 then Stop Status_OK False
     else if length header < 9 then
       Stop (Status_Corruption (lit ''Truncated WAL record header'')) True
     else
      let type_val = header ! 0 in
      if type_val \<noteq> PUT \<and> type_val \<noteq> TOMBSTONE then
        Stop (Status_Corruption (lit ''Invalid RecordType in WAL: '' @ decimal (unat type_val))) False
      else
       let key_len = decodeUint32LE (drop 1 header); val_len = decodeUint32LE (drop 5 header) in
       if 16 * 1024 * 1024 < key_len \<or> 64 * 1024 * 1024 < val_len then
         Stop (Status_Corruption
           (lit ''WAL record payload lengths exceed reasonable safety limits'')) False
       else
        case ifs_read_len key_len in1 of (key, in2) \<Rightarrow>
        if length key < unat key_len then
          Stop (Status_Corruption (lit ''Truncated WAL record key payload'')) True
        else
         case ifs_read_len val_len in2 of (val, in3) \<Rightarrow>
         if length val < unat val_len then
           Stop (Status_Corruption (lit ''Truncated WAL record value payload'')) True
         else
          case ifs_read 4 in3 of (crc_buf, in4) \<Rightarrow>
          if length crc_buf < 4 then
            Stop (Status_Corruption (lit ''Truncated WAL record checksum'')) True
          else if crc32 (header @ key @ val) 0 \<noteq> decodeUint32LE crc_buf then
            Stop (Status_Corruption (lit ''WAL record checksum mismatch'')) False
          else Got \<lparr>wr_type = type_val, wr_key = key, wr_value = val\<rparr> in4)"

definition wal_frame :: "WALRecord \<Rightarrow> bytes" where
  "wal_frame r = frame (wr_type r) (wr_key r) (wr_value r)"

text \<open>The records that replay accepts.\<close>

definition wal_valid :: "WALRecord \<Rightarrow> bool" where
  "wal_valid r \<longleftrightarrow> (wr_type r = PUT \<or> wr_type r = TOMBSTONE) \<and>
     length (wr_key r) \<le> 16 * 1024 * 1024 \<and> length (wr_value r) \<le> 64 * 1024 * 1024"

text \<open>Whatever is delivered is a valid record that stands, framed, at the front of the input.\<close>

lemma wal_read_record_sound:
  assumes "wal_read_record s = Got r s'" "\<not> ifs_fail s"
  shows "wal_valid r \<and> \<not> ifs_fail s' \<and> ifs_rest s = wal_frame r @ ifs_rest s'"
proof -
  obtain h s1 where 1: "ifs_read 9 s = (h, s1)" by (meson surj_pair)
  define kl vl where "kl = decodeUint32LE (drop 1 h)" and "vl = decodeUint32LE (drop 5 h)"
  obtain k s2 where 2: "ifs_read_len kl s1 = (k, s2)" by (meson surj_pair)
  obtain v s3 where 3: "ifs_read_len vl s2 = (v, s3)" by (meson surj_pair)
  obtain c s4 where 4: "ifs_read 4 s3 = (c, s4)" by (meson surj_pair)
  have facts: "9 \<le> length h" "h ! 0 = PUT \<or> h ! 0 = TOMBSTONE" "kl \<le> 16 * 1024 * 1024"
    "vl \<le> 64 * 1024 * 1024" "unat kl \<le> length k" "unat vl \<le> length v" "4 \<le> length c"
    "crc32 (h @ k @ v) 0 = decodeUint32LE c" "s' = s4"
    "r = \<lparr>wr_type = h ! 0, wr_key = k, wr_value = v\<rparr>"
    using assms(1) unfolding wal_read_record_def 1 prod.case Let_def kl_def [symmetric]
      vl_def [symmetric] 2 3 4
    by (auto split: if_splits)
  have r1: "ifs_rest s = h @ ifs_rest s1" "\<not> ifs_fail s1" "length h = 9"
    using ifs_read_complete [OF 1 facts(1) assms(2)] by blast+
  have r2: "ifs_rest s1 = k @ ifs_rest s2" "\<not> ifs_fail s2" "length k = unat kl"
    using ifs_read_len_complete [OF 2 facts(5) r1(2)] by blast+
  have r3: "ifs_rest s2 = v @ ifs_rest s3" "\<not> ifs_fail s3" "length v = unat vl"
    using ifs_read_len_complete [OF 3 facts(6) r2(2)] by blast+
  have r4: "ifs_rest s3 = c @ ifs_rest s4" "\<not> ifs_fail s4" "length c = 4"
    using ifs_read_complete [OF 4 facts(7) r3(2)] by blast+
  have "unat kl \<le> 16 * 1024 * 1024" "unat vl \<le> 64 * 1024 * 1024"
    using facts(3,4) by (simp_all add: word_le_nat_alt)
  with facts(2,10) r2(3) r3(3) have "wal_valid r" by (simp add: wal_valid_def)
  moreover have "frame (h ! 0) k v = h @ k @ v @ c"
    using facts(8) r1(3) r2(3) r3(3) r4(3) by (intro framed_bytes) (simp_all add: kl_def vl_def)
  ultimately show ?thesis
    using facts(9,10) r1(1) r2(1) r3(1) r4(1,2) by (simp add: wal_frame_def)
qed

lemma wal_read_record_failed: "ifs_fail s \<Longrightarrow> wal_read_record s = Stop Status_OK False"
  by (simp add: wal_read_record_def ifs_read_def)

lemma wal_read_record_consumes:
  "wal_read_record s = Got r s' \<Longrightarrow> size s' < size s"
  by (cases "ifs_fail s")
    (auto simp: wal_read_record_failed wal_frame_def dest!: wal_read_record_sound)

text \<open>
  The loop, with the consumer as a state transformer: the status, whether a truncated
  record was met, and the consumer's state.
\<close>

function wal_replay_loop ::
  "(WALRecord \<Rightarrow> 's \<Rightarrow> 's) \<Rightarrow> ifstream \<Rightarrow> 's \<Rightarrow> Status \<times> bool \<times> 's" where
  "wal_replay_loop consumer inp st =
    (if ifs_eof inp then (Status_OK, False, st)
     else case wal_read_record inp of
       Stop s truncated \<Rightarrow> (s, truncated, st)
     | Got r inp' \<Rightarrow> wal_replay_loop consumer inp' (consumer r st))"
  by pat_completeness auto
termination
  by (relation "measure (\<lambda>(c, inp, st). size inp)")
    (auto dest: wal_read_record_consumes)

declare wal_replay_loop.simps [simp del]

definition wal_replay ::
  "path \<Rightarrow> (WALRecord \<Rightarrow> 's \<Rightarrow> 's) \<Rightarrow> 's \<Rightarrow> world \<Rightarrow> (Status \<times> bool \<times> 's) \<times> world" where
  "wal_replay filepath consumer st w =
    (case ifs_open filepath w of
      (None, w1) \<Rightarrow> ((Status_OK, False, st), w1)
    | (Some content, w1) \<Rightarrow>
        if length content = 0 then ((Status_OK, False, st), w1)
        else (wal_replay_loop consumer (ifs_at content 0) st, w1))"

definition wal_replay_records ::
  "path \<Rightarrow> WALRecord list \<Rightarrow> world \<Rightarrow> (Status \<times> bool \<times> WALRecord list) \<times> world" where
  "wal_replay_records filepath out_records w =
     wal_replay filepath (\<lambda>rec out. out @ [rec]) out_records w"

section \<open>The reader is a framed reader\<close>

lemma wal_valid_lengths:
  assumes "wal_valid r"
  shows "length (wr_key r) < 2 ^ 32" "length (wr_value r) < 2 ^ 32"
    "of_nat (length (wr_key r)) \<le> (16 * 1024 * 1024 :: u32)"
    "of_nat (length (wr_value r)) \<le> (64 * 1024 * 1024 :: u32)"
  using assms by (auto simp: wal_valid_def word_le_nat_alt unat_of_nat)

lemma wal_read_header:
  assumes "wal_valid r"
  shows "wal_read_record (in_stream (frame_header (wr_type r) (wr_key r) (wr_value r) @ bs)) =
    (case ifs_read_len (of_nat (length (wr_key r))) (in_stream bs) of (key, in2) \<Rightarrow>
     if length key < length (wr_key r) then
       Stop (Status_Corruption (lit ''Truncated WAL record key payload'')) True
     else case ifs_read_len (of_nat (length (wr_value r))) in2 of (val, in3) \<Rightarrow>
     if length val < length (wr_value r) then
       Stop (Status_Corruption (lit ''Truncated WAL record value payload'')) True
     else case ifs_read 4 in3 of (crc_buf, in4) \<Rightarrow>
     if length crc_buf < 4 then
       Stop (Status_Corruption (lit ''Truncated WAL record checksum'')) True
     else if crc32 (frame_header (wr_type r) (wr_key r) (wr_value r) @ key @ val) 0
         \<noteq> decodeUint32LE crc_buf then
       Stop (Status_Corruption (lit ''WAL record checksum mismatch'')) False
     else Got \<lparr>wr_type = wr_type r, wr_key = key, wr_value = val\<rparr> in4)"
proof -
  have lim: "\<not> (16 * 1024 * 1024 :: u32) < of_nat (length (wr_key r))"
    "\<not> (64 * 1024 * 1024 :: u32) < of_nat (length (wr_value r))"
    using wal_valid_lengths [OF assms] by (simp_all only: not_less)
  have u: "unat (of_nat (length (wr_key r)) :: u32) = length (wr_key r)"
    "unat (of_nat (length (wr_value r)) :: u32) = length (wr_value r)"
    using wal_valid_lengths [OF assms] by (simp_all add: unat_of_nat_u32)
  have t: "wr_type r = PUT \<or> wr_type r = TOMBSTONE"
    using assms by (auto simp: wal_valid_def)
  have e: "frame_header t k v \<noteq> []" for t k v
    by (simp add: frame_header_def)
  show ?thesis
    using t unfolding wal_read_record_def
    by (elim disjE) (simp_all add: Let_def ifs_read_whole u lim [simplified] e
        cong: prod.case_cong if_cong)
qed

lemma wal_read_frame:
  assumes "wal_valid r"
  shows "wal_read_record (in_stream (wal_frame r @ rest)) = Got r (in_stream rest)"
  using wal_valid_lengths [OF assms]
  by (simp add: wal_frame_def frame_def frame_body_def wal_read_header [OF assms]
      ifs_read_len_whole ifs_read_whole)

lemma wal_read_truncated:
  assumes v: "wal_valid r" and p: "strict_prefix p (wal_frame r)" "p \<noteq> []"
  shows "\<exists>msg. wal_read_record (in_stream p) = Stop (Status_Corruption msg) True"
proof -
  let ?h = "frame_header (wr_type r) (wr_key r) (wr_value r)"
  let ?c = "encodeUint32LE (crc32 (?h @ wr_key r @ wr_value r) 0)"
  note len = wal_valid_lengths [OF v]
  from p(1) have "strict_prefix p (?h @ wr_key r @ wr_value r @ ?c)"
    by (simp add: wal_frame_def frame_def frame_body_def)
  then show ?thesis
  proof (cases rule: strict_prefix_append_cases)
    case left
    with p(2) show ?thesis
      using ifs_read_short [of p 9]
      by (auto simp: wal_read_record_def split: prod.splits)
  next
    case (right q)
    note q = right
    from q(2) show ?thesis
    proof (cases rule: strict_prefix_append_cases)
      case left
      with q len show ?thesis
        using ifs_read_len_short [of q "of_nat (length (wr_key r))"]
        by (auto simp: wal_read_header [OF v] unat_of_nat_u32 split: prod.splits)
    next
      case (right q')
      note q' = right
      from q'(2) show ?thesis
      proof (cases rule: strict_prefix_append_cases)
        case left
        with q q' len show ?thesis
          using ifs_read_len_short [of q' "of_nat (length (wr_value r))"]
          by (auto simp: wal_read_header [OF v] ifs_read_len_whole unat_of_nat_u32
              split: prod.splits)
      next
        case (right q'')
        with q q' len show ?thesis
          using ifs_read_short [of q'' 4] prefix_length_less [OF right(2)]
          by (auto simp: wal_read_header [OF v] ifs_read_len_whole split: prod.splits)
      qed
    qed
  qed
qed

interpretation walf: framed wal_read_record wal_frame wal_valid
proof
  fix r rest assume "wal_valid r"
  then show "wal_read_record (in_stream (wal_frame r @ rest)) = Got r (in_stream rest)"
    by (rule wal_read_frame)
next
  fix bs r s assume "wal_read_record (in_stream bs) = Got r s"
  then show "wal_valid r \<and> \<not> ifs_fail s \<and> bs = wal_frame r @ ifs_rest s"
    using wal_read_record_sound by fastforce
next
  fix r p assume "wal_valid r" "strict_prefix p (wal_frame r)" "p \<noteq> []"
  then show "\<exists>msg. wal_read_record (in_stream p) = Stop (Status_Corruption msg) True"
    by (rule wal_read_truncated)
next
  fix r show "wal_frame r \<noteq> []"
    using length_frame [of "wr_type r" "wr_key r" "wr_value r"]
    by (auto simp: wal_frame_def simp del: length_frame)
qed

section \<open>The replay loop\<close>

lemma replay_loop_end [simp]: "wal_replay_loop c (in_stream []) st = (Status_OK, False, st)"
  by (simp add: wal_replay_loop.simps)

lemma replay_loop_frames:
  "list_all wal_valid rs \<Longrightarrow>
     wal_replay_loop c (in_stream (concat (map wal_frame rs) @ t)) st =
     wal_replay_loop c (in_stream t) (fold c rs st)"
proof (induction rs arbitrary: st)
  case (Cons r rs)
  then have "wal_read_record (in_stream (wal_frame r @ concat (map wal_frame rs) @ t)) =
      Got r (in_stream (concat (map wal_frame rs) @ t))"
    by (intro walf.read_enc) simp
  with Cons show ?case
    by (subst wal_replay_loop.simps) (simp add: walf.enc_nonempty)
qed simp

lemma replay_loop_whole:
  "list_all wal_valid rs \<Longrightarrow>
     wal_replay_loop c (in_stream (concat (map wal_frame rs))) st = (Status_OK, False, fold c rs st)"
  using replay_loop_frames [of rs c "[]" st] by simp

lemma replay_loop_stop:
  assumes "list_all wal_valid rs" "t \<noteq> []" "wal_read_record (in_stream t) = Stop s b"
  shows "wal_replay_loop c (in_stream (concat (map wal_frame rs) @ t)) st = (s, b, fold c rs st)"
  using assms by (subst replay_loop_frames, simp) (subst wal_replay_loop.simps, simp)

text \<open>A stop on non-empty input is always an error.\<close>

lemma wal_read_stop_corrupt:
  "wal_read_record (in_stream t) = Stop s b \<Longrightarrow> t \<noteq> [] \<Longrightarrow> isCorruption s"
  unfolding wal_read_record_def
  by (auto simp: Let_def ifs_read_in_stream split: prod.splits if_splits)

lemma replay_loop_sound:
  "\<not> ifs_fail inp \<Longrightarrow> wal_replay_loop c inp st = (s, b, st') \<Longrightarrow>
     \<exists>rs t. ifs_rest inp = concat (map wal_frame rs) @ t \<and> list_all wal_valid rs \<and>
       st' = fold c rs st \<and> (if t = [] then s = Status_OK \<and> \<not> b else isCorruption s)"
proof (induction c inp st rule: wal_replay_loop.induct)
  case (1 c inp st)
  show ?case
  proof (cases "ifs_rest inp = []")
    case True
    then have "inp = in_stream []" using in_stream_eq [OF "1.prems"(1)] by simp
    with "1.prems"(2) show ?thesis by (intro exI [of _ "[]"]) simp
  next
    case False
    with "1.prems"(1) have ne: "\<not> ifs_eof inp" by (simp add: ifs_eof_def)
    show ?thesis
    proof (cases "wal_read_record inp")
      case (Stop s' b')
      with "1.prems"(2) ne have "s' = s" "b' = b" "st' = st"
        by (simp_all add: wal_replay_loop.simps)
      moreover have "isCorruption s'"
        using wal_read_stop_corrupt [of "ifs_rest inp" s' b'] Stop False
          in_stream_eq [OF "1.prems"(1)] by simp
      ultimately show ?thesis
        using False by (intro exI [of _ "[]"] exI [of _ "ifs_rest inp"]) simp
    next
      case (Got r inp')
      note r = wal_read_record_sound [OF Got "1.prems"(1)]
      from "1.prems"(2) ne Got have "wal_replay_loop c inp' (c r st) = (s, b, st')"
        by (simp add: wal_replay_loop.simps [of c inp])
      from "1.IH" [OF ne Got _ this] r obtain rs t where
        "ifs_rest inp' = concat (map wal_frame rs) @ t" "list_all wal_valid rs"
        "st' = fold c rs (c r st)"
        "if t = [] then s = Status_OK \<and> \<not> b else isCorruption s"
        by blast
      with r show ?thesis by (intro exI [of _ "r # rs"] exI [of _ t]) simp
    qed
  qed
qed

lemma fold_snoc_records: "fold (\<lambda>rec out. out @ [rec]) rs out = out @ rs"
  by (induction rs arbitrary: out) simp_all

lemma wal_replay_file:
  assumes "faults w = []" "files w p = Some content"
  shows "wal_replay p c st w = (wal_replay_loop c (in_stream content) st, w)"
  using assms by (simp add: wal_replay_def ifs_open_none ifs_at_in_stream)

lemma wal_replay_no_file:
  assumes "faults w = []" "files w p = None"
  shows "wal_replay p c st w = ((Status_OK, False, st), w)"
  using assms by (simp add: wal_replay_def ifs_open_none)

section \<open>Appending\<close>

text \<open>An open log with nothing buffered, and the value a record of a type carries.\<close>

definition wal_ready :: "WAL \<Rightarrow> bool" where
  "wal_ready l \<longleftrightarrow> wal_is_open l \<and> os_open (wal_file l) \<and> \<not> os_bad (wal_file l) \<and>
     os_buf (wal_file l) = [] \<and> os_path (wal_file l) = wal_filepath l"

definition wal_record :: "RecordType \<Rightarrow> bytes \<Rightarrow> bytes \<Rightarrow> WALRecord" where
  "wal_record t k v = \<lparr>wr_type = t, wr_key = k, wr_value = (if t = TOMBSTONE then [] else v)\<rparr>"

lemma wal_buffer_frame:
  assumes "length k + length (wr_value (wal_record t k v)) < 2 ^ 32"
  shows "wal_buffer t k v = Ret (frame_body t k (wr_value (wal_record t k v)))"
proof (cases "t = TOMBSTONE")
  case True
  with assms show ?thesis
    by (simp add: wal_buffer_def wal_record_def frame_body_def frame_header_def unat_of_nat_u32)
next
  case False
  with assms show ?thesis
    by (simp add: wal_buffer_def wal_record_def frame_body_def frame_header_def unat_of_nat_u32
        flip: of_nat_add)
qed

lemma wal_append_ready:
  assumes "wal_ready l" "faults w = []"
    and "length k + length (wr_value (wal_record t k v)) < 2 ^ 32"
  shows "wal_appendRecord t k v l w =
    Ret (Status_OK, l, emit [EvAppend (wal_filepath l) (wal_frame (wal_record t k v))] w)"
proof -
  have "l\<lparr>wal_file := (wal_file l)\<lparr>os_buf := []\<rparr>\<rparr> = l"
    using assms(1) by (simp add: wal_ready_def)
  then show ?thesis
    using assms wal_buffer_frame [OF assms(3)]
    by (simp add: wal_appendRecord_def wal_ready_def io_simps ofs_good_def append_events_def
        wal_frame_def frame_def wal_record_def frame_body_def frame_header_def)
qed

section \<open>Properties\<close>

text \<open>
  C17: what is appended is replayed. On a log that holds the frames of \<open>rs\<close>, appending a record
  that replay accepts succeeds, and a replay of the file then returns \<^verbatim>\<open>OK\<close> without a truncation
  and delivers \<open>rs\<close> followed by the record, a deletion carrying no value.
\<close>

theorem wal_append_then_replay:
  assumes "wal_ready l" "faults w = []"
    and "files w (wal_filepath l) = Some (concat (map wal_frame rs))" "list_all wal_valid rs"
    and "wal_valid (wal_record t k v)"
  shows "\<exists>w'. wal_appendRecord t k v l w = Ret (Status_OK, l, w') \<and>
    wal_replay_records (wal_filepath l) [] w' = ((Status_OK, False, rs @ [wal_record t k v]), w')"
proof -
  let ?r = "wal_record t k v"
  let ?w = "emit [EvAppend (wal_filepath l) (wal_frame ?r)] w"
  have "length k + length (wr_value ?r) < 2 ^ 32"
    using assms(5) by (auto simp: wal_valid_def wal_record_def split: if_splits)
  from wal_append_ready [OF assms(1,2) this]
  have "wal_appendRecord t k v l w = Ret (Status_OK, l, ?w)" .
  moreover have "files ?w (wal_filepath l) = Some (concat (map wal_frame (rs @ [?r])))"
    using assms(3) by simp
  then have "wal_replay_records (wal_filepath l) [] ?w =
      (wal_replay_loop (\<lambda>rec out. out @ [rec]) (in_stream (concat (map wal_frame (rs @ [?r])))) [], ?w)"
    unfolding wal_replay_records_def using assms(2) by (intro wal_replay_file) simp_all
  moreover have "list_all wal_valid (rs @ [?r])" using assms(4,5) by simp
  ultimately show ?thesis
    by (simp only: replay_loop_whole fold_snoc_records) simp
qed

definition sample_wal :: WAL where
  "sample_wal = \<lparr>wal_filepath = [1],
     wal_file = \<lparr>os_path = [1], os_open = True, os_bad = False, os_buf = []\<rparr>,
     wal_is_open = True\<rparr>"

theorem wal_append_then_replay_witness:
  "\<exists>w'. wal_appendRecord TOMBSTONE [5] [] sample_wal (empty_world\<lparr>files := [[1] \<mapsto> []]\<rparr>) =
      Ret (Status_OK, sample_wal, w') \<and>
    wal_replay_records [1] [] w' =
      ((Status_OK, False, [\<lparr>wr_type = TOMBSTONE, wr_key = [5], wr_value = []\<rparr>]), w')"
  using wal_append_then_replay [of sample_wal "empty_world\<lparr>files := [[1] \<mapsto> []]\<rparr>" "[]" TOMBSTONE
      "[5]" "[]"]
  by (simp add: sample_wal_def wal_ready_def empty_world_def wal_valid_def wal_record_def)

text \<open>
  C18: a torn log is recovered up to the tear. Cut the file of the records \<open>rs\<close> after any number
  of bytes: replay delivers exactly the records that are whole, in order, and it reports
  \<^verbatim>\<open>OK\<close> when the cut falls between records, and a corruption flagged as a truncation when it
  falls inside one.
\<close>

theorem wal_replay_torn:
  assumes "list_all wal_valid rs" "faults w = []"
    and "files w p = Some (take m (concat (map wal_frame rs)))"
  shows "\<exists>n t s. n \<le> length rs \<and>
    take m (concat (map wal_frame rs)) = concat (map wal_frame (take n rs)) @ t \<and>
    wal_replay_records p [] w = ((s, t \<noteq> [], take n rs), w) \<and>
    (if t = [] then s = Status_OK else isCorruption s \<and> strict_prefix t (wal_frame (rs ! n)))"
proof -
  let ?cut = "take m (concat (map wal_frame rs))"
  obtain n t where n: "n \<le> length rs" "?cut = concat (map wal_frame (take n rs)) @ t"
    "t = [] \<or> n < length rs \<and> strict_prefix t (wal_frame (rs ! n))"
    using walf.prefix_of_concat [OF take_is_prefix] by blast
  have v: "list_all wal_valid (take n rs)"
    using assms(1) by (metis append_take_drop_id list_all_append)
  have rep: "wal_replay_records p [] w =
      (wal_replay_loop (\<lambda>rec out. out @ [rec]) (in_stream ?cut) [], w)"
    unfolding wal_replay_records_def by (rule wal_replay_file [OF assms(2,3)])
  show ?thesis
  proof (cases "t = []")
    case True
    then have "wal_replay_records p [] w = ((Status_OK, False, take n rs), w)"
      unfolding rep n(2) by (simp add: replay_loop_whole [OF v] fold_snoc_records)
    with True n(1,2) show ?thesis by (intro exI [of _ n] exI [of _ t] exI [of _ Status_OK]) simp
  next
    case False
    with n(3) have lt: "n < length rs" "strict_prefix t (wal_frame (rs ! n))" by simp_all
    then have "wal_valid (rs ! n)" using assms(1) by (simp add: list_all_length)
    from walf.read_truncated [OF this lt(2) False] obtain msg where
      msg: "wal_read_record (in_stream t) = Stop (Status_Corruption msg) True" ..
    have "wal_replay_records p [] w = ((Status_Corruption msg, True, take n rs), w)"
      unfolding rep n(2) by (simp add: replay_loop_stop [OF v False msg] fold_snoc_records)
    with False n(1,2) lt show ?thesis
      by (intro exI [of _ n] exI [of _ t] exI [of _ "Status_Corruption msg"]) simp
  qed
qed

definition sample_record :: WALRecord where
  "sample_record = \<lparr>wr_type = PUT, wr_key = [5], wr_value = [6]\<rparr>"

definition torn_world :: world where
  "torn_world = empty_world\<lparr>files := [[1] \<mapsto> take 5 (concat (map wal_frame [sample_record]))]\<rparr>"

theorem wal_replay_torn_witness:
  "\<exists>n t s. n \<le> length [sample_record] \<and>
    take 5 (concat (map wal_frame [sample_record])) =
      concat (map wal_frame (take n [sample_record])) @ t \<and>
    wal_replay_records [1] [] torn_world = ((s, t \<noteq> [], take n [sample_record]), torn_world) \<and>
    (if t = [] then s = Status_OK
     else isCorruption s \<and> strict_prefix t (wal_frame ([sample_record] ! n)))"
  by (rule wal_replay_torn)
    (simp_all add: wal_valid_def empty_world_def torn_world_def sample_record_def)

text \<open>
  C19: replay never invents a record. Whatever bytes the log file holds, the delivered records
  are, framed one after the other, a prefix of the file; each has a known type and lengths
  within the limits; the status is \<^verbatim>\<open>OK\<close> when they are the whole file, and a corruption
  otherwise.
\<close>

theorem wal_replay_sound:
  "\<exists>s b rs t. wal_replay_loop (\<lambda>rec out. out @ [rec]) (in_stream content) [] = (s, b, rs) \<and>
     content = concat (map wal_frame rs) @ t \<and> list_all wal_valid rs \<and>
     (if t = [] then s = Status_OK \<and> \<not> b else isCorruption s)"
proof -
  obtain s b out where res:
    "wal_replay_loop (\<lambda>rec out. out @ [rec]) (in_stream content) [] = (s, b, out)"
    by (metis prod_cases3)
  from replay_loop_sound [OF _ this] obtain rs t where
    "content = concat (map wal_frame rs) @ t" "list_all wal_valid rs" "out = rs"
    "if t = [] then s = Status_OK \<and> \<not> b else isCorruption s"
    by (auto simp: fold_snoc_records)
  with res show ?thesis
    by (intro exI [of _ s] exI [of _ b] exI [of _ rs] exI [of _ t]) simp
qed

lemma crc_payload_change:
  assumes "pl = xs @ b # ys" "pl' = xs @ b' # ys" "b \<noteq> b'"
  shows "crc32 (h @ pl') 0 \<noteq> crc32 (h @ pl) 0"
  using assms crc32_byte_change [of "h @ xs" b' ys 0 b] by simp

lemma wal_read_damaged:
  assumes "wal_valid r" "wr_key r @ wr_value r = xs @ b # ys" "b \<noteq> b'"
  shows "wal_read_record (in_stream (frame_header (wr_type r) (wr_key r) (wr_value r) @
      xs @ b' # ys @ encodeUint32LE (crc32 (frame_body (wr_type r) (wr_key r) (wr_value r)) 0) @ t)) =
    Stop (Status_Corruption (lit ''WAL record checksum mismatch'')) False"
proof -
  let ?h = "frame_header (wr_type r) (wr_key r) (wr_value r)"
  let ?crc = "crc32 (frame_body (wr_type r) (wr_key r) (wr_value r)) 0"
  have "length (xs @ b' # ys) = length (wr_key r) + length (wr_value r)"
    using arg_cong [OF assms(2), of length] by simp
  then obtain k v where kv: "xs @ b' # ys = k @ v" "length k = length (wr_key r)"
    "length v = length (wr_value r)"
    by (metis (no_types) append_take_drop_id length_append length_drop length_take
        add_diff_cancel_left' min_absorb2 le_add1)
  note lim = wal_valid_lengths [OF assms(1)]
  have k: "ifs_read_len (of_nat (length (wr_key r))) (in_stream (k @ bs)) = (k, in_stream bs)" for bs
    using ifs_read_len_whole [of k bs] lim kv(2) by simp
  have v: "ifs_read_len (of_nat (length (wr_value r))) (in_stream (v @ bs)) = (v, in_stream bs)" for bs
    using ifs_read_len_whole [of v bs] lim kv(3) by simp
  have "crc32 (?h @ xs @ b' # ys) 0 \<noteq> crc32 (?h @ wr_key r @ wr_value r) 0"
    using assms(2,3) by (intro crc_payload_change) simp_all
  then have crc: "crc32 (?h @ k @ v) 0 \<noteq> ?crc"
    by (simp add: frame_body_def kv(1))
  have eq: "?h @ xs @ b' # ys @ encodeUint32LE ?crc @ t = ?h @ k @ v @ encodeUint32LE ?crc @ t"
    using kv(1) by (metis append.assoc append_Cons)
  show ?thesis
    unfolding eq wal_read_header [OF assms(1)]
    using crc kv(2,3) by (simp add: k v ifs_read_whole)
qed

text \<open>
  C20: a damaged payload is never replayed. If one byte of a record's key or value has been
  changed on disk, replay delivers the records before it and stops there with a corruption
  that is not taken for a truncation, whatever follows in the file.
\<close>

theorem wal_replay_detects_damage:
  assumes "list_all wal_valid rs" "wal_valid r"
    and "wr_key r @ wr_value r = xs @ b # ys" "b \<noteq> b'"
    and "faults w = []"
    and "files w p = Some (concat (map wal_frame rs) @
      frame_header (wr_type r) (wr_key r) (wr_value r) @ xs @ b' # ys @
      encodeUint32LE (crc32 (frame_body (wr_type r) (wr_key r) (wr_value r)) 0) @ t)"
  shows "wal_replay_records p [] w =
    ((Status_Corruption (lit ''WAL record checksum mismatch''), False, rs), w)"
proof -
  have "frame_header (wr_type r) (wr_key r) (wr_value r) \<noteq> []"
    by (simp add: frame_header_def)
  then show ?thesis
    unfolding wal_replay_records_def wal_replay_file [OF assms(5,6)]
    by (subst replay_loop_stop [OF assms(1) _ wal_read_damaged [OF assms(2-4)]])
      (simp_all add: fold_snoc_records)
qed

theorem wal_replay_detects_damage_witness:
  "fst (wal_replay_records [1] [] (empty_world\<lparr>files := [[1] \<mapsto>
      frame_header PUT [5] [6] @ [5, 7] @ encodeUint32LE (crc32 (frame_body PUT [5] [6]) 0)]\<rparr>)) =
    (Status_Corruption (lit ''WAL record checksum mismatch''), False, [])"
  by (subst wal_replay_detects_damage [of "[]" "\<lparr>wr_type = PUT, wr_key = [5], wr_value = [6]\<rparr>"
        "[5]" 6 "[]" 7 _ "[1]" "[]"])
    (simp_all add: wal_valid_def empty_world_def)

lemma wal_read_oversize:
  assumes "t = PUT \<or> t = TOMBSTONE" "16 * 1024 * 1024 < length k" "length k < 2 ^ 32"
  shows "wal_read_record (in_stream (frame t k v @ rest)) =
    Stop (Status_Corruption (lit ''WAL record payload lengths exceed reasonable safety limits'')) False"
proof -
  have "(16 * 1024 * 1024 :: u32) < of_nat (length k)"
    using assms(2,3) by (simp add: word_less_nat_alt unat_of_nat_u32)
  moreover have "frame_header t k v \<noteq> []" by (simp add: frame_header_def)
  ultimately show ?thesis
    using assms(1)
    by (elim disjE)
      (simp_all add: wal_read_record_def Let_def frame_def frame_body_def ifs_read_whole)
qed

text \<open>
  C36: the writer accepts what replay rejects. There is no length check on the way in: a key
  longer than 16 MiB is appended with status \<^verbatim>\<open>OK\<close>, and from then on replaying the log stops at
  that record with a corruption that is not a truncation, losing it and all that follows.
\<close>

theorem wal_accepts_unreplayable:
  assumes "wal_ready l" "faults w = []"
    and "files w (wal_filepath l) = Some (concat (map wal_frame rs))" "list_all wal_valid rs"
    and "16 * 1024 * 1024 < length k" "length k + length v < 2 ^ 32"
  shows "\<exists>w'. wal_appendPut k v l w = Ret (Status_OK, l, w') \<and>
    wal_replay_records (wal_filepath l) [] w' =
      ((Status_Corruption (lit ''WAL record payload lengths exceed reasonable safety limits''),
        False, rs), w')"
proof -
  let ?r = "wal_record PUT k v"
  let ?w = "emit [EvAppend (wal_filepath l) (wal_frame ?r)] w"
  have "wal_appendPut k v l w = Ret (Status_OK, l, ?w)"
    using assms(6) unfolding wal_appendPut_def
    by (intro wal_append_ready [OF assms(1,2)]) (simp add: wal_record_def)
  moreover have "files ?w (wal_filepath l) = Some (concat (map wal_frame rs) @ wal_frame ?r)"
    using assms(3) by simp
  then have "wal_replay_records (wal_filepath l) [] ?w = (wal_replay_loop (\<lambda>rec out. out @ [rec])
      (in_stream (concat (map wal_frame rs) @ wal_frame ?r)) [], ?w)"
    unfolding wal_replay_records_def using assms(2) by (intro wal_replay_file) simp_all
  moreover have stop: "wal_read_record (in_stream (wal_frame ?r)) =
      Stop (Status_Corruption (lit ''WAL record payload lengths exceed reasonable safety limits'')) False"
    using wal_read_oversize [of PUT k v "[]"] assms(5,6) by (simp add: wal_frame_def wal_record_def)
  ultimately show ?thesis
    by (simp add: replay_loop_stop [OF assms(4) _ stop] walf.enc_nonempty fold_snoc_records)
qed

theorem wal_accepts_unreplayable_witness:
  "\<exists>w'. wal_appendPut (replicate 20000000 7) [] sample_wal (empty_world\<lparr>files := [[1] \<mapsto> []]\<rparr>) =
      Ret (Status_OK, sample_wal, w') \<and>
    wal_replay_records [1] [] w' =
      ((Status_Corruption (lit ''WAL record payload lengths exceed reasonable safety limits''),
        False, []), w')"
  using wal_accepts_unreplayable [of sample_wal "empty_world\<lparr>files := [[1] \<mapsto> []]\<rparr>" "[]"
      "replicate 20000000 7" "[]"]
  by (simp add: sample_wal_def wal_ready_def empty_world_def)

text \<open>
  C37: the buffer of a record overflows exactly when the 32-bit sum of the two lengths wraps
  around; otherwise it is the header, the key and the value, cut to their 32-bit lengths.
\<close>

theorem wal_buffer_overflow_iff:
  "wal_buffer t k v = Undef \<longleftrightarrow>
     2 ^ 32 \<le> length k mod 2 ^ 32 + (if t = TOMBSTONE then 0 else length v mod 2 ^ 32)"
proof -
  have wrap: "(unat (x + y) < unat x + unat y) = (2 ^ 32 \<le> unat x + unat y)" for x y :: u32
    using unat_u32_lt [of x] unat_u32_lt [of y] by (auto simp: unat_word_ariths mod_if)
  show ?thesis
    by (auto simp: wal_buffer_def Let_def wrap unat_of_nat)
qed

text \<open>
  C35: a failing flush goes unnoticed. \<^verbatim>\<open>appendRecord\<close> tests the stream before it flushes and
  not after: when both writes go to the stream's buffer and the flush fails with nothing
  written, it returns \<^verbatim>\<open>OK\<close> although the file is unchanged and the record is lost.
\<close>

theorem wal_append_ignores_failed_flush:
  assumes "wal_ready l" "faults w = [None, None, Some 0]"
    and "length k + length v < 2 ^ 32"
  shows "\<exists>l' w'. wal_appendPut k v l w = Ret (Status_OK, l', w') \<and> files w' = files w"
proof -
  have "wal_buffer PUT k v = Ret (frame_body PUT k v)"
    using wal_buffer_frame [of k PUT v] assms(3) by (simp add: wal_record_def)
  then show ?thesis
    using assms(1,2)
    by (simp add: wal_appendPut_def wal_appendRecord_def wal_ready_def ofs_write_def ofs_flush_def
        next_fault_def ofs_good_def append_events_def)
qed

theorem wal_append_ignores_failed_flush_witness:
  "\<exists>l' w'. wal_appendPut [5] [6] sample_wal (empty_world\<lparr>faults := [None, None, Some 0]\<rparr>) =
     Ret (Status_OK, l', w') \<and> files w' = Map.empty"
  using wal_append_ignores_failed_flush [of sample_wal
      "empty_world\<lparr>faults := [None, None, Some 0]\<rparr>" "[5]" "[6]"]
  by (simp add: sample_wal_def wal_ready_def empty_world_def)

end
