(* ===== verification/Bloom.thy ===== *)
theory Bloom
  imports Codec Types
begin

text \<open>
  \<^verbatim>\<open>include/lsm/bloom_filter.h\<close> and \<^verbatim>\<open>src/bloom_filter.cpp\<close>: the filter that spares a
  table lookup the disk. Its contract, the absence of false negatives, is the locale
  \<^theory_text>\<open>membership_filter\<close>; the filter interprets it, and the exact set of positives and the
  serialised form are proved as well.
\<close>

section \<open>State and operations\<close>

record BloomFilter =
  bf_bits :: bytes
  bf_num_hashes :: u32

definition bf_new :: "u64 \<Rightarrow> u64 \<Rightarrow> u64 \<Rightarrow> BloomFilter" where
  "bf_new num_keys bits_per_key num_hashes =
    (let num_keys = (if num_keys = 0 then 64 else num_keys);
         total_bits = num_keys * bits_per_key;
         total_bits = (if total_bits < 64 then 64 else total_bits);
         num_bytes = (total_bits + 7) div 8
     in \<lparr>bf_bits = replicate (unat num_bytes) 0, bf_num_hashes = ucast num_hashes\<rparr>)"

definition bf_bitCount :: "BloomFilter \<Rightarrow> u64" where
  "bf_bitCount f = of_nat (length (bf_bits f)) * 8"

text \<open>FNV-1a.\<close>

definition bf_hash1 :: "bytes \<Rightarrow> u32" where
  "bf_hash1 key = foldl (\<lambda>hash c. (hash XOR ucast c) * 16777619) 2166136261 key"

text \<open>Jenkins' one-at-a-time hash, never zero.\<close>

definition bf_hash2_step :: "u32 \<Rightarrow> byte \<Rightarrow> u32" where
  "bf_hash2_step hash c =
    (let hash = hash + ucast c;
         hash = hash + push_bit 10 hash
     in hash XOR drop_bit 6 hash)"

definition bf_hash2 :: "bytes \<Rightarrow> u32" where
  "bf_hash2 key =
    (let hash = foldl bf_hash2_step 0 key;
         hash = hash + push_bit 3 hash;
         hash = hash XOR drop_bit 11 hash;
         hash = hash + push_bit 15 hash
     in if hash = 0 then 1 else hash)"

text \<open>The bit that the \<open>i\<close>-th probe of a key addresses, in 64-bit arithmetic.\<close>

definition bf_bit_idx :: "BloomFilter \<Rightarrow> bytes \<Rightarrow> nat \<Rightarrow> u64" where
  "bf_bit_idx f key i =
     (ucast (bf_hash1 key) + of_nat i * ucast (bf_hash2 key)) mod bf_bitCount f"

definition bf_set_bit :: "u64 \<Rightarrow> BloomFilter \<Rightarrow> BloomFilter" where
  "bf_set_bit idx f =
    f\<lparr>bf_bits := (bf_bits f)[unat (idx div 8) :=
        bf_bits f ! unat (idx div 8) OR push_bit (unat (idx mod 8)) 1]\<rparr>"

definition bf_test_bit :: "u64 \<Rightarrow> BloomFilter \<Rightarrow> bool" where
  "bf_test_bit idx f \<longleftrightarrow> bf_bits f ! unat (idx div 8) AND push_bit (unat (idx mod 8)) 1 \<noteq> 0"

definition bf_add :: "bytes \<Rightarrow> BloomFilter \<Rightarrow> BloomFilter" where
  "bf_add key f =
    (if bf_bits f = [] then f
     else fold (\<lambda>i g. bf_set_bit (bf_bit_idx g key i) g) [0..<unat (bf_num_hashes f)] f)"

definition bf_possiblyContains :: "BloomFilter \<Rightarrow> bytes \<Rightarrow> bool" where
  "bf_possiblyContains f key =
    (if bf_bits f = [] then True
     else list_all (\<lambda>i. bf_test_bit (bf_bit_idx f key i) f) [0..<unat (bf_num_hashes f)])"

definition bf_serialize :: "BloomFilter \<Rightarrow> bytes" where
  "bf_serialize f =
     encodeUint32LE (bf_num_hashes f) @ encodeUint32LE (of_nat (length (bf_bits f))) @ bf_bits f"

text \<open>
  Reading from \<open>data\<close>, all that can be read at the pointer, of which \<open>len\<close> bytes are the
  filter's. The length test adds 8 in 32-bit arithmetic: when the sum wraps around, the
  copy reads past the end.
\<close>

definition bf_deserialize :: "bytes \<Rightarrow> nat \<Rightarrow> BloomFilter outcome" where
  "bf_deserialize data len =
    (if len < 8 then Throw (lit ''Invalid Bloom filter buffer size'')
     else
       let num_hashes = decodeUint32LE data; num_bytes = decodeUint32LE (drop 4 data)
       in if len < unat (8 + num_bytes) then Throw (lit ''Bloom filter data truncated'')
          else if length data < 8 + unat num_bytes then Undef
          else Ret \<lparr>bf_bits = take (unat num_bytes) (drop 8 data), bf_num_hashes = num_hashes\<rparr>)"

section \<open>The contract\<close>

locale membership_filter =
  fixes add :: "'k \<Rightarrow> 'f \<Rightarrow> 'f"
    and query :: "'f \<Rightarrow> 'k \<Rightarrow> bool"
    and wf :: "'f \<Rightarrow> bool"
  assumes wf_add: "wf f \<Longrightarrow> wf (add k f)"
    and query_add: "wf f \<Longrightarrow> query (add k f) k"
    and query_mono: "wf f \<Longrightarrow> query f k \<Longrightarrow> query (add k' f) k"
begin

lemma wf_add_all: "wf f \<Longrightarrow> wf (fold add ks f)"
  by (induction ks arbitrary: f) (simp_all add: wf_add)

lemma query_mono_all: "wf f \<Longrightarrow> query f k \<Longrightarrow> query (fold add ks f) k"
  by (induction ks arbitrary: f) (simp_all add: wf_add query_mono)

lemma no_false_negatives: "wf f \<Longrightarrow> k \<in> set ks \<Longrightarrow> query (fold add ks f) k"
  by (induction ks arbitrary: f) (auto simp: wf_add query_add query_mono_all)

text \<open>What the filter rules out was never added.\<close>

lemma negative_sound: "wf f \<Longrightarrow> \<not> query (fold add ks f) k \<Longrightarrow> k \<notin> set ks"
  using no_false_negatives by blast

end

section \<open>Bits by position\<close>

text \<open>
  The filter as a set of positions. A filter is well formed when its bit count does not wrap
  around; every constructed filter is.
\<close>

definition bf_wf :: "BloomFilter \<Rightarrow> bool" where
  "bf_wf f \<longleftrightarrow> length (bf_bits f) < 2 ^ 61"

definition bf_positions :: "BloomFilter \<Rightarrow> nat set" where
  "bf_positions f = {j. j < 8 * length (bf_bits f) \<and> bit (bf_bits f ! (j div 8)) (j mod 8)}"

definition bf_probe :: "nat \<Rightarrow> bytes \<Rightarrow> nat \<Rightarrow> nat" where
  "bf_probe n key i = (unat (bf_hash1 key) + i * unat (bf_hash2 key)) mod n"

definition bf_probes :: "BloomFilter \<Rightarrow> bytes \<Rightarrow> nat set" where
  "bf_probes f key = bf_probe (8 * length (bf_bits f)) key ` {..<unat (bf_num_hashes f)}"

lemma bf_bitCount_unat: "bf_wf f \<Longrightarrow> unat (bf_bitCount f) = 8 * length (bf_bits f)"
  by (simp add: bf_bitCount_def bf_wf_def unat_word_ariths unat_of_nat_u64)

text \<open>No probe of any key overflows 64 bits, so the index is the exact one.\<close>

lemma bf_bit_idx_unat:
  assumes "bf_wf f" "i < 2 ^ 32"
  shows "unat (bf_bit_idx f key i) = bf_probe (8 * length (bf_bits f)) key i"
proof -
  let ?h1 = "bf_hash1 key" and ?h2 = "bf_hash2 key"
  have "i * unat ?h2 \<le> (2 ^ 32 - 1) * (2 ^ 32 - 1)"
    using assms(2) unat_u32_lt [of ?h2] by (intro mult_le_mono) simp_all
  then have lt: "unat ?h1 + i * unat ?h2 < 2 ^ 64"
    using unat_u32_lt [of ?h1] by simp
  have "unat (ucast ?h1 + of_nat i * ucast ?h2 :: u64) = unat ?h1 + i * unat ?h2"
    using lt assms(2) unat_u32_lt [of ?h2]
    by (simp add: unat_word_ariths unat_of_nat_u64 unsigned_ucast_eq take_bit_nat_eq_self
        unsigned_of_nat)
  then show ?thesis
    using bf_bitCount_unat [OF assms(1)] by (simp add: bf_bit_idx_def bf_probe_def unat_mod)
qed

lemma bf_probe_less: "0 < n \<Longrightarrow> bf_probe n key i < n"
  by (simp add: bf_probe_def)


lemma unat_div8: "unat (idx div 8 :: u64) = unat idx div 8" "unat (idx mod 8 :: u64) = unat idx mod 8"
  by (simp_all add: unat_div unat_mod)

lemma bf_set_bit_simps [simp]:
  "length (bf_bits (bf_set_bit idx f)) = length (bf_bits f)"
  "bf_num_hashes (bf_set_bit idx f) = bf_num_hashes f"
  "bf_wf (bf_set_bit idx f) = bf_wf f"
  by (simp_all add: bf_set_bit_def bf_wf_def)

lemma bf_test_bit_iff:
  "unat idx < 8 * length (bf_bits f) \<Longrightarrow> bf_test_bit idx f \<longleftrightarrow> unat idx \<in> bf_positions f"
  by (simp add: bf_test_bit_def bf_positions_def unat_div8 push_bit_eq_mult and_exp_eq_0_iff_not_bit)

lemma bf_positions_set_bit:
  assumes "unat idx < 8 * length (bf_bits f)"
  shows "bf_positions (bf_set_bit idx f) = insert (unat idx) (bf_positions f)"
proof -
  have "bit (bf_bits (bf_set_bit idx f) ! (j div 8)) (j mod 8) \<longleftrightarrow>
      j = unat idx \<or> bit (bf_bits f ! (j div 8)) (j mod 8)" if "j < 8 * length (bf_bits f)" for j
  proof (cases "j div 8 = unat idx div 8")
    case True
    then have "j = unat idx \<longleftrightarrow> j mod 8 = unat idx mod 8"
      by (metis div_mult_mod_eq)
    moreover have "bit (push_bit m 1 :: byte) n \<longleftrightarrow> n = m" if "n < 8" for m n
      using that by (auto simp: bit_simps)
    ultimately show ?thesis
      using True assms by (simp add: bf_set_bit_def unat_div8 bit_or_iff disj_commute)
  next
    case False
    then show ?thesis
      using assms by (auto simp: bf_set_bit_def unat_div8)
  qed
  then show ?thesis
    using assms by (auto simp: bf_positions_def)
qed

text \<open>Adding a key adds its probes; a query asks for all of them.\<close>

lemma bf_add_loop:
  assumes "bf_wf f" "bf_bits f \<noteq> []" "\<forall>i\<in>set is. i < 2 ^ 32"
    and "g = fold (\<lambda>i g. bf_set_bit (bf_bit_idx g key i) g) is f"
  shows "length (bf_bits g) = length (bf_bits f) \<and> bf_num_hashes g = bf_num_hashes f \<and>
    bf_positions g = bf_positions f \<union> bf_probe (8 * length (bf_bits f)) key ` set is"
  using assms
proof (induction "is" arbitrary: f)
  case (Cons i "is")
  let ?f = "bf_set_bit (bf_bit_idx f key i) f"
  have i: "unat (bf_bit_idx f key i) = bf_probe (8 * length (bf_bits f)) key i"
    using Cons.prems(1,3) by (intro bf_bit_idx_unat) simp_all
  have "bf_wf ?f" using Cons.prems(1) by simp
  moreover have "bf_bits ?f \<noteq> []"
    using Cons.prems(2) unfolding length_0_conv [symmetric] by simp
  moreover have "\<forall>i\<in>set is. i < 2 ^ 32" using Cons.prems(3) by simp
  moreover have "g = fold (\<lambda>i g. bf_set_bit (bf_bit_idx g key i) g) is ?f"
    using Cons.prems(4) by simp
  moreover have "bf_positions ?f = insert (bf_probe (8 * length (bf_bits f)) key i) (bf_positions f)"
    using Cons.prems(2) unfolding i [symmetric]
    by (intro bf_positions_set_bit) (simp add: i bf_probe_less)
  ultimately show ?case
    using Cons.IH [of ?f] by simp
qed simp

lemma bf_num_hashes_lt: "i < unat (bf_num_hashes f) \<Longrightarrow> i < 2 ^ 32"
  using unat_u32_lt [of "bf_num_hashes f"] by simp

lemma bf_add_simps:
  assumes "bf_wf f"
  shows "length (bf_bits (bf_add key f)) = length (bf_bits f)"
    and "bf_num_hashes (bf_add key f) = bf_num_hashes f"
    and "bf_bits f \<noteq> [] \<Longrightarrow> bf_positions (bf_add key f) = bf_positions f \<union> bf_probes f key"
proof -
  have "\<forall>i\<in>set [0..<unat (bf_num_hashes f)]. i < 2 ^ 32"
    using bf_num_hashes_lt [of _ f] by simp
  note loop = bf_add_loop [OF assms _ this, where key = key]
  show "length (bf_bits (bf_add key f)) = length (bf_bits f)"
    using loop by (cases "bf_bits f = []") (simp_all add: bf_add_def)
  show "bf_num_hashes (bf_add key f) = bf_num_hashes f"
    using loop by (cases "bf_bits f = []") (simp_all add: bf_add_def)
  show "bf_bits f \<noteq> [] \<Longrightarrow> bf_positions (bf_add key f) = bf_positions f \<union> bf_probes f key"
    using loop by (simp add: bf_add_def bf_probes_def lessThan_atLeast0)
qed

lemma bf_contains_iff:
  assumes "bf_wf f"
  shows "bf_possiblyContains f key \<longleftrightarrow> bf_bits f = [] \<or> bf_probes f key \<subseteq> bf_positions f"
proof -
  have "bf_test_bit (bf_bit_idx f key i) f \<longleftrightarrow>
      bf_probe (8 * length (bf_bits f)) key i \<in> bf_positions f"
    if "bf_bits f \<noteq> []" "i < unat (bf_num_hashes f)" for i
    using that bf_bit_idx_unat [OF assms bf_num_hashes_lt [OF that(2)]]
    by (subst bf_test_bit_iff) (simp_all add: bf_probe_less)
  then show ?thesis
    by (auto simp: bf_possiblyContains_def bf_probes_def list_all_iff)
qed

lemma bf_probes_cong:
  "length (bf_bits f) = length (bf_bits g) \<Longrightarrow> bf_num_hashes f = bf_num_hashes g \<Longrightarrow>
     bf_probes f key = bf_probes g key"
  by (simp add: bf_probes_def)

lemma bf_probes_add [simp]: "bf_wf f \<Longrightarrow> bf_probes (bf_add k f) key = bf_probes f key"
  by (intro bf_probes_cong) (simp_all add: bf_add_simps)

lemma bf_bits_add_Nil [simp]: "bf_wf f \<Longrightarrow> bf_bits (bf_add k f) = [] \<longleftrightarrow> bf_bits f = []"
  using bf_add_simps(1) [of f k] by (simp flip: length_0_conv)

lemma bf_wf_add [simp]: "bf_wf f \<Longrightarrow> bf_wf (bf_add k f)"
  using bf_add_simps(1) [of f k] by (simp add: bf_wf_def)

interpretation bf: membership_filter bf_add bf_possiblyContains bf_wf
proof
  fix f k k' assume wf: "bf_wf f"
  show "bf_wf (bf_add k f)" using wf by simp
  show "bf_possiblyContains (bf_add k f) k"
    using wf by (auto simp: bf_contains_iff bf_add_simps(3))
  assume "bf_possiblyContains f k"
  then show "bf_possiblyContains (bf_add k' f) k"
    using wf by (auto simp: bf_contains_iff bf_add_simps(3))
qed


section \<open>Construction and the serialised form\<close>

lemma bf_wf_new: "bf_wf (bf_new n b h)"
proof -
  have "unat (x div 8 :: u64) < 2 ^ 61" for x
    using unat_u64_lt [of x] by (simp add: unat_div)
  then show ?thesis
    by (simp add: bf_new_def bf_wf_def Let_def)
qed

lemma bf_positions_new: "bf_positions (bf_new n b h) = {}"
  by (auto simp: bf_positions_def bf_new_def Let_def)

lemma bf_fold_simps:
  assumes "bf_wf f"
  shows "length (bf_bits (fold bf_add ks f)) = length (bf_bits f)"
    "bf_num_hashes (fold bf_add ks f) = bf_num_hashes f"
    "bf_bits f \<noteq> [] \<Longrightarrow>
      bf_positions (fold bf_add ks f) = bf_positions f \<union> (\<Union>k\<in>set ks. bf_probes f k)"
  using assms by (induction ks arbitrary: f) (simp_all add: bf_add_simps Un_assoc)

lemma length_bf_serialize [simp, len_simps]:
  "length (bf_serialize f) = 8 + length (bf_bits f)"
  by (simp add: bf_serialize_def)

lemma bf_deserialize_serialize:
  assumes "length (bf_bits f) + 8 < 2 ^ 32"
  shows "bf_deserialize (bf_serialize f @ rest) (length (bf_serialize f)) = Ret f"
proof -
  have "unat (8 + of_nat (length (bf_bits f)) :: u32) = 8 + length (bf_bits f)"
    using assms unat_of_nat_u32 [of "8 + length (bf_bits f)"] by simp
  moreover have "unat (of_nat (length (bf_bits f)) :: u32) = length (bf_bits f)"
    using assms by (simp add: unat_of_nat_u32)
  ultimately show ?thesis
    using assms by (simp add: bf_deserialize_def Let_def bf_serialize_def)
qed

section \<open>Properties\<close>

text \<open>
  C23: no false negatives. Whatever the constructor's three arguments were, even where its
  size computation wraps around, every key that was added is possibly contained.
\<close>

theorem bloom_no_false_negatives:
  "list_all (bf_possiblyContains (fold bf_add ks (bf_new n b h))) ks"
  by (simp add: list_all_iff bf.no_false_negatives [OF bf_wf_new])

text \<open>
  C24: the positives are exact. A constructed filter with its bits answers yes for a key
  precisely when each of the key's probed positions is one of an added key; the bits hold
  nothing else.
\<close>

theorem bloom_positives_exact:
  assumes "f = bf_new n b h"
  shows "bf_possiblyContains (fold bf_add ks f) key \<longleftrightarrow>
    bf_bits f = [] \<or> bf_probes f key \<subseteq> (\<Union>k\<in>set ks. bf_probes f k)"
proof -
  have wf: "bf_wf f" and new: "bf_positions f = {}"
    using assms by (simp_all add: bf_wf_new bf_positions_new)
  have "bf_bits (fold bf_add ks f) = [] \<longleftrightarrow> bf_bits f = []"
    using bf_fold_simps(1) [OF wf, of ks] unfolding length_0_conv [symmetric] by simp
  moreover have "bf_probes (fold bf_add ks f) key = bf_probes f key"
    by (intro bf_probes_cong bf_fold_simps wf)
  ultimately show ?thesis
    using bf_contains_iff [OF bf.wf_add_all [OF wf], of ks key] bf_fold_simps(3) [OF wf, of ks]
    by (cases "bf_bits f = []") (simp_all add: new)
qed

theorem bloom_positives_exact_witness:
  "\<not> bf_possiblyContains (fold bf_add [] (bf_new 1 10 7)) [1]"
proof -
  have "bf_bits (bf_new 1 10 7) \<noteq> []" "bf_probes (bf_new 1 10 7) [1] \<noteq> {}"
    by (simp_all add: bf_new_def bf_probes_def lessThan_empty_iff)
  then show ?thesis
    by (subst bloom_positives_exact [OF refl]) simp
qed

text \<open>
  The position of a probe is computed without overflow and lies in the bit array: for
  every hash number below \<open>2^32\<close> it is \<open>h1 + i * h2\<close> modulo the number of bits.
\<close>

lemma bloom_index_exact:
  assumes "bf_wf f" "bf_bits f \<noteq> []" "i < unat (bf_num_hashes f)"
  shows "unat (bf_bit_idx f key i) =
      (unat (bf_hash1 key) + i * unat (bf_hash2 key)) mod (8 * length (bf_bits f)) \<and>
    unat (bf_bit_idx f key i div 8) < length (bf_bits f)"
proof
  show eq: "unat (bf_bit_idx f key i) =
      (unat (bf_hash1 key) + i * unat (bf_hash2 key)) mod (8 * length (bf_bits f))"
    using bf_bit_idx_unat [OF assms(1) bf_num_hashes_lt [OF assms(3)]] by (simp add: bf_probe_def)
  have "unat (bf_bit_idx f key i) < 8 * length (bf_bits f)"
    using assms(2) by (simp add: eq)
  then show "unat (bf_bit_idx f key i div 8) < length (bf_bits f)"
    by (simp add: unat_div)
qed

text \<open>
  C38: the length test of the reader can be bypassed. On a buffer whose filter bytes lie
  within it, reading runs past the end of the buffer exactly when the declared number of
  bytes is one of the last eight below \<open>2^32\<close> and the buffer does not hold that many.
\<close>

theorem bloom_deserialize_overread:
  assumes "8 \<le> len" "len \<le> length data"
  shows "bf_deserialize data len = Undef \<longleftrightarrow>
    2 ^ 32 \<le> 8 + unat (decodeUint32LE (drop 4 data)) \<and>
    length data < 8 + unat (decodeUint32LE (drop 4 data))"
proof -
  have "unat (8 + x) = (if 2 ^ 32 \<le> 8 + unat x then 8 + unat x - 2 ^ 32 else 8 + unat x)" for x :: u32
    using unat_u32_lt [of x] by (simp add: unat_word_ariths mod_if)
  then show ?thesis
    using assms unat_u32_lt [of "decodeUint32LE (drop 4 data)"]
    by (auto simp: bf_deserialize_def Let_def)
qed

theorem bloom_deserialize_overread_witness:
  "bf_deserialize [7, 0, 0, 0, 248, 255, 255, 255] 8 = Undef"
  using bloom_deserialize_overread [of 8 "[7, 0, 0, 0, 248, 255, 255, 255]"]
  by (simp add: decodeUint32LE_def)

end
