(* ===== verification/SSTIndex.thy ===== *)
theory SSTIndex
  imports Crc Codec Types
begin

text \<open>
  The sparse index and the footer of a table: \<^verbatim>\<open>SSTableIndex\<close> and \<^verbatim>\<open>SSTableFooter\<close> of
  \<^verbatim>\<open>include/lsm/sstable.h\<close> and \<^verbatim>\<open>src/sstable.cpp\<close>, with their serialised forms and the
  binary search for the byte range of a key.
\<close>

section \<open>The sparse index\<close>

definition kSSTableHeaderMagic :: u64 where "kSSTableHeaderMagic = 0x4C534D5452454531"
definition kSSTableFooterMagic :: u64 where "kSSTableFooterMagic = 0x4C534D5353544654"
definition kSSTableVersion :: u32 where "kSSTableVersion = 1"
abbreviation (input) kSSTableHeaderSize :: nat where "kSSTableHeaderSize \<equiv> 16"
abbreviation (input) kSSTableFooterSize :: nat where "kSSTableFooterSize \<equiv> 64"

record IndexEntry =
  ie_key :: bytes
  ie_offset :: u64

type_synonym SSTableIndex = "IndexEntry list"

definition idx_add :: "bytes \<Rightarrow> u64 \<Rightarrow> SSTableIndex \<Rightarrow> SSTableIndex" where
  "idx_add key offset entries = entries @ [\<lparr>ie_key = key, ie_offset = offset\<rparr>]"

definition idx_entry_bytes :: "IndexEntry \<Rightarrow> bytes" where
  "idx_entry_bytes e =
     encodeUint32LE (of_nat (length (ie_key e))) @ ie_key e @ encodeUint64LE (ie_offset e)"

definition idx_serialize :: "SSTableIndex \<Rightarrow> bytes" where
  "idx_serialize entries =
    (let buffer = encodeUint32LE (of_nat (length entries)) @ concat (map idx_entry_bytes entries)
     in buffer @ encodeUint32LE (crc32 buffer 0))"

text \<open>
  The loop of the reader over \<open>n\<close> remaining entries. The cursor stays below the size of the
  buffer, so that its 64-bit sums do not wrap around.
\<close>

fun idx_read_entries :: "nat \<Rightarrow> bytes \<Rightarrow> nat \<Rightarrow> SSTableIndex \<Rightarrow> SSTableIndex outcome" where
  "idx_read_entries 0 data cursor entries = Ret entries"
| "idx_read_entries (Suc n) data cursor entries =
    (if length data - 4 < cursor + 4 then
       Throw (lit ''Index corrupted while reading key length'')
     else
      let klen = decodeUint32LE (drop cursor data); cursor = cursor + 4 in
      if length data - 4 < cursor + unat klen then
        Throw (lit ''Index corrupted while reading key'')
      else
       let key = take (unat klen) (drop cursor data); cursor = cursor + unat klen in
       if length data - 4 < cursor + 8 then
         Throw (lit ''Index corrupted while reading offset'')
       else idx_read_entries n data (cursor + 8)
         (entries @ [\<lparr>ie_key = key, ie_offset = decodeUint64LE (drop cursor data)\<rparr>]))"

definition idx_deserialize :: "bytes \<Rightarrow> SSTableIndex outcome" where
  "idx_deserialize data =
    (let size = length data in
     if size < 8 then Throw (lit ''Index block too small'')
     else if decodeUint32LE (drop (size - 4) data) \<noteq> crc32 (take (size - 4) data) 0 then
       Throw (lit ''Index block CRC mismatch'')
     else idx_read_entries (unat (decodeUint32LE data)) data 4 [])"

text \<open>
  \<^verbatim>\<open>std::upper_bound\<close>: the binary search for the first entry whose key is greater, over the
  \<open>len\<close> entries from \<open>first\<close> on.
\<close>

function upper_bound :: "bytes \<Rightarrow> SSTableIndex \<Rightarrow> nat \<Rightarrow> nat \<Rightarrow> nat" where
  "upper_bound key entries first len =
    (if 0 < len then
       let half = len div 2; middle = first + half
       in if key < ie_key (entries ! middle) then upper_bound key entries first half
          else upper_bound key entries (Suc middle) (len - half - 1)
     else first)"
  by pat_completeness auto
termination
  by (relation "measure (\<lambda>(key, entries, first, len). len)") auto

declare upper_bound.simps [simp del]

text \<open>The range \<open>(start, end)\<close> to search for a key.\<close>

definition findOffsetRange :: "bytes \<Rightarrow> SSTableIndex \<Rightarrow> u64 \<Rightarrow> u64 \<times> u64" where
  "findOffsetRange key entries data_end_offset =
    (if entries = [] then (of_nat kSSTableHeaderSize, data_end_offset)
     else
      let it = upper_bound key entries 0 (length entries) in
      if it = 0 then (of_nat kSSTableHeaderSize, ie_offset (entries ! 0))
      else (ie_offset (entries ! (it - 1)),
            if it \<noteq> length entries then ie_offset (entries ! it) else data_end_offset))"

section \<open>The footer\<close>

record SSTableFooter =
  ft_data_offset :: u64
  ft_data_size :: u64
  ft_index_offset :: u64
  ft_index_size :: u64
  ft_bloom_offset :: u64
  ft_bloom_size :: u64
  ft_record_count :: u32
  ft_flags :: u32

definition default_footer :: SSTableFooter where
  "default_footer =
    \<lparr>ft_data_offset = 0, ft_data_size = 0, ft_index_offset = 0, ft_index_size = 0,
     ft_bloom_offset = 0, ft_bloom_size = 0, ft_record_count = 0, ft_flags = 0\<rparr>"

definition ft_serialize :: "SSTableFooter \<Rightarrow> bytes" where
  "ft_serialize f =
     encodeUint64LE (ft_data_offset f) @ encodeUint64LE (ft_data_size f) @
     encodeUint64LE (ft_index_offset f) @ encodeUint64LE (ft_index_size f) @
     encodeUint64LE (ft_bloom_offset f) @ encodeUint64LE (ft_bloom_size f) @
     encodeUint32LE (ft_record_count f) @ encodeUint32LE (ft_flags f) @
     encodeUint64LE kSSTableFooterMagic"

text \<open>The status, and the footer that was passed in, filled when the status is \<^verbatim>\<open>OK\<close>.\<close>

definition ft_deserialize :: "bytes \<Rightarrow> SSTableFooter \<Rightarrow> Status \<times> SSTableFooter" where
  "ft_deserialize data out_footer =
    (if length data \<noteq> kSSTableFooterSize then
       (Status_Corruption (lit ''Invalid footer size''), out_footer)
     else if decodeUint64LE (drop 56 data) \<noteq> kSSTableFooterMagic then
       (Status_Corruption (lit ''Invalid SSTable footer magic''), out_footer)
     else
       (Status_OK,
        \<lparr>ft_data_offset = decodeUint64LE (drop 0 data),
         ft_data_size = decodeUint64LE (drop 8 data),
         ft_index_offset = decodeUint64LE (drop 16 data),
         ft_index_size = decodeUint64LE (drop 24 data),
         ft_bloom_offset = decodeUint64LE (drop 32 data),
         ft_bloom_size = decodeUint64LE (drop 40 data),
         ft_record_count = decodeUint32LE (drop 48 data),
         ft_flags = decodeUint32LE (drop 52 data)\<rparr>))"

lemma length_ft_serialize [simp, len_simps]: "length (ft_serialize f) = 64"
  by (simp add: ft_serialize_def)

lemma ft_deserialize_serialize: "ft_deserialize (ft_serialize f) out = (Status_OK, f)"
  by (simp add: ft_deserialize_def) (simp add: ft_serialize_def)

section \<open>Reading an index back\<close>

lemma length_idx_entry_bytes [simp, len_simps]:
  "length (idx_entry_bytes e) = 12 + length (ie_key e)"
  by (simp add: idx_entry_bytes_def)

lemma length_idx_serialize:
  "length (idx_serialize es) = 8 + sum_list (map (\<lambda>e. 12 + length (ie_key e)) es)"
  by (simp add: idx_serialize_def Let_def length_concat o_def)

lemma append_inj_length: "xs @ ys = xs' @ ys' \<Longrightarrow> length ys = length ys' \<Longrightarrow> xs = xs' \<and> ys = ys'"
  by simp

lemma idx_read_entries_correct:
  assumes "data = pre @ concat (map idx_entry_bytes es) @ suf" "4 \<le> length suf"
    and "\<forall>e\<in>set es. length (ie_key e) < 2 ^ 32"
  shows "idx_read_entries (length es) data (length pre) acc = Ret (acc @ es)"
  using assms
proof (induction es arbitrary: pre acc)
  case (Cons e es)
  let ?rest = "concat (map idx_entry_bytes es) @ suf"
  have data: "data = pre @ encodeUint32LE (of_nat (length (ie_key e))) @ ie_key e @
      encodeUint64LE (ie_offset e) @ ?rest"
    using Cons.prems(1) by (simp add: idx_entry_bytes_def [of e])
  have klen: "unat (of_nat (length (ie_key e)) :: u32) = length (ie_key e)"
    using Cons.prems(3) by (simp add: unat_of_nat_u32)
  have len: "length data = length pre + 12 + length (ie_key e) + length ?rest"
    using data by simp
  have d: "decodeUint32LE (drop (length pre) data) = of_nat (length (ie_key e))"
    "take (length (ie_key e)) (drop (length pre + 4) data) = ie_key e"
    "decodeUint64LE (drop (length pre + 4 + length (ie_key e)) data) = ie_offset e"
    unfolding data by simp_all
  have "idx_read_entries (length es) data (length (pre @ idx_entry_bytes e)) (acc @ [e]) =
      Ret ((acc @ [e]) @ es)"
    using Cons.prems by (intro Cons.IH) simp_all
  moreover obtain k off where "e = \<lparr>ie_key = k, ie_offset = off\<rparr>" by (cases e)
  ultimately show ?case
    using len Cons.prems(2) d klen by (simp add: Let_def ac_simps)
qed simp

lemma idx_deserialize_serialize:
  assumes "length es < 2 ^ 32" "\<forall>e\<in>set es. length (ie_key e) < 2 ^ 32"
  shows "idx_deserialize (idx_serialize es) = Ret es"
proof -
  let ?body = "encodeUint32LE (of_nat (length es)) @ concat (map idx_entry_bytes es)"
  let ?crc = "encodeUint32LE (crc32 ?body 0)"
  have data: "idx_serialize es = ?body @ ?crc" by (simp add: idx_serialize_def Let_def)
  have n: "unat (decodeUint32LE (idx_serialize es)) = length es"
    using assms(1) by (simp add: data unat_of_nat_u32)
  have "length (idx_serialize es) - 4 = length ?body" "8 \<le> length (idx_serialize es)"
    by (simp_all add: data)
  moreover have "idx_read_entries (length es) (idx_serialize es) 4 [] = Ret es"
    using idx_read_entries_correct [of "idx_serialize es" "encodeUint32LE (of_nat (length es))" es
        ?crc "[]"] assms(2) by (simp add: data)
  ultimately show ?thesis
    unfolding idx_deserialize_def Let_def n by (simp add: data)
qed

section \<open>The binary search\<close>

lemma upper_bound_split:
  assumes "sorted_wrt (<) (map ie_key es)" "first + len \<le> length es"
    and "\<forall>i<first. ie_key (es ! i) \<le> key"
    and "\<forall>i. first + len \<le> i \<and> i < length es \<longrightarrow> key < ie_key (es ! i)"
  shows "upper_bound key es first len \<le> length es \<and>
    (\<forall>i<upper_bound key es first len. ie_key (es ! i) \<le> key) \<and>
    (\<forall>i. upper_bound key es first len \<le> i \<and> i < length es \<longrightarrow> key < ie_key (es ! i))"
  using assms
proof (induction key es first len rule: upper_bound.induct)
  case (1 key es first len)
  have mono: "ie_key (es ! i) < ie_key (es ! j)" if "i < j" "j < length es" for i j
    using "1.prems"(1) that by (simp add: sorted_wrt_iff_nth_less)
  show ?case
  proof (cases "0 < len")
    case True
    let ?m = "first + len div 2"
    have m: "?m < length es" using True "1.prems"(2) by linarith
    show ?thesis
    proof (cases "key < ie_key (es ! ?m)")
      case less: True
      have "key < ie_key (es ! i)" if "?m \<le> i" "i < length es" for i
        using that less mono [of ?m i] by (cases "i = ?m") (auto dest: less_trans)
      with "1.IH"(1) [OF True refl refl less "1.prems"(1)] "1.prems" show ?thesis
        by (subst (1 2 3) upper_bound.simps) (simp add: True less Let_def)
    next
      case False
      have "ie_key (es ! i) \<le> key" if "i < Suc ?m" for i
        using that False mono [of i ?m] m by (cases "i = ?m") auto
      moreover have "Suc ?m + (len - len div 2 - 1) = first + len" using True by linarith
      ultimately show ?thesis
        using "1.IH"(2) [OF True refl refl False "1.prems"(1)] "1.prems"
        by (subst (1 2 3) upper_bound.simps) (simp add: True False Let_def)
    qed
  next
    case False
    then show ?thesis
      using "1.prems" by (subst (1 2 3) upper_bound.simps) simp
  qed
qed

text \<open>
  The binary search is right. On entries with increasing keys it returns the length of
  the longest prefix whose keys do not exceed the key, the position of the first greater one.
\<close>

lemma upper_bound_correct:
  assumes "sorted_wrt (<) (map ie_key es)"
  shows "upper_bound key es 0 (length es) = length (takeWhile (\<lambda>e. ie_key e \<le> key) es)"
proof -
  let ?it = "upper_bound key es 0 (length es)"
  have "\<forall>i. 0 + length es \<le> i \<and> i < length es \<longrightarrow> key < ie_key (es ! i)" by auto
  note split = upper_bound_split [OF assms _ _ this]
  have "takeWhile (\<lambda>e. ie_key e \<le> key) es = take ?it es"
    using split by (intro takeWhile_eq_take_P_nth) (auto simp: not_le)
  then show ?thesis using split by simp
qed

text \<open>
  C25: a damaged index block is rejected: change up to four consecutive bytes before the
  checksum of a serialised index and reading it throws.
\<close>

theorem index_detects_damage:
  assumes "idx_serialize es = xs @ ys @ zs" "length ys = 4" "length ys' = 4" "ys \<noteq> ys'"
    and "4 \<le> length zs"
  shows "idx_deserialize (xs @ ys' @ zs) = Throw (lit ''Index block CRC mismatch'')"
proof -
  let ?body = "encodeUint32LE (of_nat (length es)) @ concat (map idx_entry_bytes es)"
  have z: "zs = take (length zs - 4) zs @ drop (length zs - 4) zs" by simp
  have "?body @ encodeUint32LE (crc32 ?body 0) =
      (xs @ ys @ take (length zs - 4) zs) @ drop (length zs - 4) zs"
    using assms(1) by (simp add: idx_serialize_def Let_def)
  note inj = append_inj_length [OF this]
  have "length (encodeUint32LE (crc32 ?body 0)) = length (drop (length zs - 4) zs)"
    using assms(5) by simp
  note body = inj [OF this, THEN conjunct1] inj [OF this, THEN conjunct2]
  obtain a b c d where y: "ys = [a, b, c, d]"
    using assms(2) by (auto simp: length_Suc_conv numeral_eq_Suc)
  obtain a' b' c' d' where y': "ys' = [a', b', c', d']"
    using assms(3) by (auto simp: length_Suc_conv numeral_eq_Suc)
  have "crc32 (xs @ ys' @ take (length zs - 4) zs) 0 \<noteq> crc32 ?body 0"
    using assms(4) unfolding body(1) y y' crc32_burst by auto
  moreover have "decodeUint32LE (drop (length zs - 4) zs) = crc32 ?body 0"
    by (simp flip: body(2))
  moreover have "8 \<le> length (xs @ ys' @ zs)" using assms(3,5) by simp
  ultimately show ?thesis
    using assms(5) by (simp add: idx_deserialize_def Let_def)
qed

theorem index_detects_damage_witness:
  "idx_deserialize ([1, 0, 0, 0] @ encodeUint32LE (crc32 [0, 0, 0, 0] 0)) =
     Throw (lit ''Index block CRC mismatch'')"
proof -
  have "idx_serialize [] = [] @ [0, 0, 0, 0] @ encodeUint32LE (crc32 [0, 0, 0, 0] 0)"
    by (simp add: idx_serialize_def Let_def) (simp add: encodeUint32LE_def)
  from index_detects_damage [OF this, of "[1, 0, 0, 0]"]
  show ?thesis by simp
qed

text \<open>A footer is accepted precisely when it has its 64 bytes and ends with the magic number.\<close>

lemma footer_accepted_iff:
  "fst (ft_deserialize data out) = Status_OK \<longleftrightarrow>
     length data = 64 \<and> decodeUint64LE (drop 56 data) = kSSTableFooterMagic"
  by (auto simp: ft_deserialize_def Status_OK_def Status_Corruption_def)

end
