(* ===== verification/SSTWriter.thy ===== *)
theory SSTWriter
  imports SSTIndex Bloom Framing MemTable
begin

text \<open>
  \<^verbatim>\<open>SSTableWriter\<close> of \<^verbatim>\<open>include/lsm/sstable.h\<close> and \<^verbatim>\<open>src/sstable.cpp\<close>: opening a table
  for writing, appending records, writing index, filter and footer. The bytes a run without
  faults leaves on disk are the pure function \<open>sst_image\<close> of the entries.
\<close>

section \<open>State and operations\<close>

record SSTableWriter =
  sw_options :: Options
  sw_filepath :: path
  sw_file :: ofstream
  sw_is_open :: bool
  sw_current_offset :: u64
  sw_record_count :: u32
  sw_last_key :: bytes
  sw_index :: SSTableIndex
  sw_bloom_filter :: BloomFilter

definition sw_new :: "Options \<Rightarrow> SSTableWriter" where
  "sw_new options =
    \<lparr>sw_options = options, sw_filepath = [], sw_file = closed_ofstream, sw_is_open = False,
     sw_current_offset = 0, sw_record_count = 0, sw_last_key = [], sw_index = [],
     sw_bloom_filter = bf_new 0 10 7\<rparr>"

text \<open>The destructor closes a file that is still open.\<close>

definition sw_destroy :: "SSTableWriter \<Rightarrow> world \<Rightarrow> world" where
  "sw_destroy sw w = (if sw_is_open sw then snd (ofs_close (sw_file sw) w) else w)"

definition sst_header :: bytes where
  "sst_header =
     encodeUint64LE kSSTableHeaderMagic @ encodeUint32LE kSSTableVersion @ encodeUint32LE 0"

definition sw_open ::
  "path \<Rightarrow> u64 \<Rightarrow> SSTableWriter \<Rightarrow> world \<Rightarrow> Status \<times> SSTableWriter \<times> world" where
  "sw_open filepath estimated_keys sw w =
    (case ofs_open_trunc filepath w of (f, w1) \<Rightarrow>
     let sw1 = sw\<lparr>sw_filepath := filepath, sw_file := f\<rparr> in
     if \<not> os_open f then
       (Status_IOError (lit ''Failed to open SSTable for writing: '' @ filepath), sw1, w1)
     else
      case ofs_write sst_header f w1 of (f2, w2) \<Rightarrow>
        (Status_OK,
         sw1\<lparr>sw_is_open := True, sw_record_count := 0, sw_last_key := [],
             sw_bloom_filter := bf_new (if 0 < estimated_keys then estimated_keys else 100)
               (bloom_bits_per_key (sw_options sw)) (bloom_num_hashes (sw_options sw)),
             sw_file := f2, sw_current_offset := of_nat kSSTableHeaderSize\<rparr>,
         w2))"

text \<open>The bytes of a record, before the checksum.\<close>

definition sw_record_buffer :: "bytes \<Rightarrow> bytes \<Rightarrow> RecordType \<Rightarrow> bytes" where
  "sw_record_buffer key val type =
    (let key_len = (of_nat (length key) :: u32);
         val_len = (if type = TOMBSTONE then 0 else (of_nat (length val) :: u32))
     in [type] @ encodeUint32LE key_len @ encodeUint32LE val_len
        @ take (unat key_len) key @ take (unat val_len) val)"

definition sw_append ::
  "bytes \<Rightarrow> bytes \<Rightarrow> RecordType \<Rightarrow> SSTableWriter \<Rightarrow> world \<Rightarrow>
    (Status \<times> SSTableWriter \<times> world) outcome" where
  "sw_append key val type sw w =
    (if \<not> sw_is_open sw then Ret (Status_IOError (lit ''SSTableWriter is not open''), sw, w)
     else if sw_last_key sw \<noteq> [] \<and> key \<le> sw_last_key sw then
       Ret (Status_Corruption (lit ''SSTable keys must be strictly increasing: '' @ [39] @ key @
              [39] @ lit '' after '' @ [39] @ sw_last_key sw @ [39]), sw, w)
     else if sparse_index_interval (sw_options sw) = 0 then Undef
     else
      let sw1 = sw\<lparr>sw_bloom_filter := bf_add key (sw_bloom_filter sw)\<rparr>;
          sw2 = (if ucast (sw_record_count sw1) mod sparse_index_interval (sw_options sw1) = 0
                 then sw1\<lparr>sw_index := idx_add key (sw_current_offset sw1) (sw_index sw1)\<rparr>
                 else sw1);
          buffer = sw_record_buffer key val type
      in
      case ofs_write buffer (sw_file sw2) w of (f1, w1) \<Rightarrow>
      case ofs_write (encodeUint32LE (crc32 buffer 0)) f1 w1 of (f2, w2) \<Rightarrow>
        Ret (Status_OK,
             sw2\<lparr>sw_file := f2,
                 sw_current_offset := sw_current_offset sw2 + (of_nat (length buffer) + 4),
                 sw_record_count := sw_record_count sw2 + 1, sw_last_key := key\<rparr>,
             w2))"

definition sw_finish ::
  "SSTableWriter \<Rightarrow> world \<Rightarrow> Status \<times> SSTableWriter \<times> world" where
  "sw_finish sw w =
    (if \<not> sw_is_open sw then (Status_IOError (lit ''SSTableWriter is not open''), sw, w)
     else
      let data_offset = of_nat kSSTableHeaderSize;
          data_size = sw_current_offset sw - data_offset;
          index_offset = sw_current_offset sw;
          index_buf = idx_serialize (sw_index sw);
          index_size = of_nat (length index_buf);
          bloom_offset = index_offset + index_size;
          bloom_raw = bf_serialize (sw_bloom_filter sw);
          bloom_size = of_nat (length bloom_raw) + 4;
          footer = \<lparr>ft_data_offset = data_offset, ft_data_size = data_size,
                    ft_index_offset = index_offset, ft_index_size = index_size,
                    ft_bloom_offset = bloom_offset, ft_bloom_size = bloom_size,
                    ft_record_count = sw_record_count sw, ft_flags = 0\<rparr>
      in
      case ofs_write index_buf (sw_file sw) w of (f1, w1) \<Rightarrow>
      case ofs_write bloom_raw f1 w1 of (f2, w2) \<Rightarrow>
      case ofs_write (encodeUint32LE (crc32 bloom_raw 0)) f2 w2 of (f3, w3) \<Rightarrow>
      case ofs_write (ft_serialize footer) f3 w3 of (f4, w4) \<Rightarrow>
      case ofs_flush f4 w4 of (f5, w5) \<Rightarrow>
      case ofs_close f5 w5 of (f6, w6) \<Rightarrow>
        (Status_OK,
         sw\<lparr>sw_file := f6, sw_current_offset := bloom_offset + bloom_size, sw_is_open := False\<rparr>,
         w6))"

fun sw_append_all ::
  "KeyValueEntry list \<Rightarrow> SSTableWriter \<Rightarrow> world \<Rightarrow> (Status \<times> SSTableWriter \<times> world) outcome" where
  "sw_append_all [] sw w = Ret (Status_OK, sw, w)"
| "sw_append_all (e # es) sw w =
     obind (sw_append (kve_key e) (kve_value e) (kve_type e) sw w) (\<lambda>(s, sw1, w1).
       if \<not> ok s then Ret (s, sw1, w1) else sw_append_all es sw1 w1)"

text \<open>The common body of \<^verbatim>\<open>writeFromMemTable\<close> and \<^verbatim>\<open>writeFromEntries\<close>.\<close>

definition sw_writeFromEntries ::
  "path \<Rightarrow> KeyValueEntry list \<Rightarrow> Options \<Rightarrow> world \<Rightarrow> (Status \<times> world) outcome" where
  "sw_writeFromEntries filepath entries options w =
    (case sw_open filepath (of_nat (length entries)) (sw_new options) w of (s, sw1, w1) \<Rightarrow>
     if \<not> ok s then Ret (s, sw_destroy sw1 w1)
     else obind (sw_append_all entries sw1 w1) (\<lambda>(s, sw2, w2).
       if \<not> ok s then Ret (s, sw_destroy sw2 w2)
       else case sw_finish sw2 w2 of (s, sw3, w3) \<Rightarrow> Ret (s, sw_destroy sw3 w3)))"

definition mt_entries :: "MemTable \<Rightarrow> KeyValueEntry list" where
  "mt_entries m =
     map (\<lambda>(k, e). \<lparr>kve_key = k, kve_value = me_value e, kve_type = me_type e\<rparr>) (table m)"

definition sw_writeFromMemTable ::
  "path \<Rightarrow> MemTable \<Rightarrow> Options \<Rightarrow> world \<Rightarrow> (Status \<times> world) outcome" where
  "sw_writeFromMemTable filepath memtable options w =
     sw_writeFromEntries filepath (mt_entries memtable) options w"

section \<open>The image of a table\<close>

text \<open>The value on disk: none for a tombstone.\<close>

definition sst_value :: "KeyValueEntry \<Rightarrow> bytes" where
  "sst_value e = (if kve_isTombstone e then [] else kve_value e)"

definition sst_frame :: "KeyValueEntry \<Rightarrow> bytes" where
  "sst_frame e = frame (kve_type e) (kve_key e) (sst_value e)"

definition sst_data :: "KeyValueEntry list \<Rightarrow> bytes" where
  "sst_data es = concat (map sst_frame es)"

text \<open>The index of the entries \<open>es\<close>, the first of which is number \<open>n\<close> and stands at \<open>off\<close>.\<close>

fun sst_index_from :: "nat \<Rightarrow> nat \<Rightarrow> nat \<Rightarrow> KeyValueEntry list \<Rightarrow> SSTableIndex" where
  "sst_index_from iv n off [] = []"
| "sst_index_from iv n off (e # es) =
     (if n mod iv = 0 then [\<lparr>ie_key = kve_key e, ie_offset = of_nat off\<rparr>] else []) @
     sst_index_from iv (Suc n) (off + length (sst_frame e)) es"

definition sst_index :: "Options \<Rightarrow> KeyValueEntry list \<Rightarrow> SSTableIndex" where
  "sst_index opt es = sst_index_from (unat (sparse_index_interval opt)) 0 16 es"

definition sst_bloom :: "Options \<Rightarrow> KeyValueEntry list \<Rightarrow> BloomFilter" where
  "sst_bloom opt es =
     fold bf_add (map kve_key es)
       (bf_new (if 0 < (of_nat (length es) :: u64) then of_nat (length es) else 100)
         (bloom_bits_per_key opt) (bloom_num_hashes opt))"

definition sst_bloom_block :: "Options \<Rightarrow> KeyValueEntry list \<Rightarrow> bytes" where
  "sst_bloom_block opt es =
     bf_serialize (sst_bloom opt es) @ encodeUint32LE (crc32 (bf_serialize (sst_bloom opt es)) 0)"

definition sst_footer :: "Options \<Rightarrow> KeyValueEntry list \<Rightarrow> SSTableFooter" where
  "sst_footer opt es =
    (let d = length (sst_data es); i = length (idx_serialize (sst_index opt es));
         b = length (sst_bloom_block opt es)
     in \<lparr>ft_data_offset = 16, ft_data_size = of_nat d, ft_index_offset = of_nat (16 + d),
         ft_index_size = of_nat i, ft_bloom_offset = of_nat (16 + d + i),
         ft_bloom_size = of_nat b, ft_record_count = of_nat (length es), ft_flags = 0\<rparr>)"

definition sst_image :: "Options \<Rightarrow> KeyValueEntry list \<Rightarrow> bytes" where
  "sst_image opt es =
     sst_header @ sst_data es @ idx_serialize (sst_index opt es) @ sst_bloom_block opt es @
     ft_serialize (sst_footer opt es)"

text \<open>
  What a table is written from: increasing keys, lengths within 32 bits, a number of records
  within 32 bits, an index interval that is not zero.
\<close>

definition sst_ok :: "Options \<Rightarrow> KeyValueEntry list \<Rightarrow> bool" where
  "sst_ok opt es \<longleftrightarrow> sorted_wrt (<) (map kve_key es) \<and> sparse_index_interval opt \<noteq> 0 \<and>
     length es < 2 ^ 32 \<and>
     (\<forall>e\<in>set es. length (kve_key e) < 2 ^ 32 \<and> length (sst_value e) < 2 ^ 32)"


lemma sst_ok_Cons [simp]:
  "sst_ok opt (e # es) \<longleftrightarrow> sst_ok opt es \<and> (\<forall>e'\<in>set es. kve_key e < kve_key e') \<and>
     length (kve_key e) < 2 ^ 32 \<and> length (sst_value e) < 2 ^ 32 \<and> length es + 1 < 2 ^ 32"
  by (auto simp: sst_ok_def)

section \<open>A run without faults\<close>

text \<open>The writer ready to append: open, with the given bytes still in the stream's buffer.\<close>

definition sw_ready :: "path \<Rightarrow> bytes \<Rightarrow> SSTableWriter \<Rightarrow> bool" where
  "sw_ready p buf sw \<longleftrightarrow> sw_is_open sw \<and>
     sw_file sw = \<lparr>os_path = p, os_open = True, os_bad = False, os_buf = buf\<rparr>"

lemma sw_record_buffer_frame:
  assumes "length (kve_key e) < 2 ^ 32" "length (sst_value e) < 2 ^ 32"
  shows "sw_record_buffer (kve_key e) (kve_value e) (kve_type e) =
    frame_body (kve_type e) (kve_key e) (sst_value e)"
  using assms
  by (auto simp: sw_record_buffer_def sst_value_def kve_isTombstone_def frame_body_def
      frame_header_def unat_of_nat_u32)

lemma sst_frame_eq:
  "sst_frame e = frame_body (kve_type e) (kve_key e) (sst_value e) @
     encodeUint32LE (crc32 (frame_body (kve_type e) (kve_key e) (sst_value e)) 0)"
  by (simp add: sst_frame_def frame_def)

lemma length_sst_frame: "length (sst_frame e) = 13 + length (kve_key e) + length (sst_value e)"
  by (simp add: sst_frame_def)

lemma sw_append_ready:
  assumes "sw_ready p buf sw" "faults w = []" "sparse_index_interval (sw_options sw) \<noteq> 0"
    and "sw_last_key sw = [] \<or> sw_last_key sw < kve_key e"
    and "length (kve_key e) < 2 ^ 32" "length (sst_value e) < 2 ^ 32"
  shows "sw_append (kve_key e) (kve_value e) (kve_type e) sw w =
    Ret (Status_OK,
      sw\<lparr>sw_bloom_filter := bf_add (kve_key e) (sw_bloom_filter sw),
         sw_index := sw_index sw @
           (if ucast (sw_record_count sw) mod sparse_index_interval (sw_options sw) = 0
            then [\<lparr>ie_key = kve_key e, ie_offset = sw_current_offset sw\<rparr>] else []),
         sw_file := (sw_file sw)\<lparr>os_buf := buf @ sst_frame e\<rparr>,
         sw_current_offset := sw_current_offset sw + of_nat (length (sst_frame e)),
         sw_record_count := sw_record_count sw + 1, sw_last_key := kve_key e\<rparr>, w)"
proof -
  have "of_nat (length (sst_frame e)) =
      (of_nat (length (frame_body (kve_type e) (kve_key e) (sst_value e))) + 4 :: u64)"
    by (simp add: sst_frame_eq)
  moreover have guard: "(sw_last_key sw \<noteq> [] \<and> kve_key e \<le> sw_last_key sw) = False"
    using assms(4) by auto
  ultimately show ?thesis
    using assms(1-3) unfolding sw_append_def sw_record_buffer_frame [OF assms(5,6)] guard
    by (cases sw) (simp add: sw_ready_def Let_def io_simps sst_frame_eq idx_add_def)
qed


lemma sw_append_step:
  assumes "sw_ready p buf sw" "faults w = []" "sparse_index_interval (sw_options sw) \<noteq> 0"
    and "sw_last_key sw = [] \<or> sw_last_key sw < kve_key e"
    and "length (kve_key e) < 2 ^ 32" "length (sst_value e) < 2 ^ 32"
  shows "\<exists>sw'. sw_append (kve_key e) (kve_value e) (kve_type e) sw w = Ret (Status_OK, sw', w) \<and>
    sw_ready p (buf @ sst_frame e) sw' \<and> sw_options sw' = sw_options sw \<and> sw_last_key sw' = kve_key e"
  unfolding sw_append_ready [OF assms] using assms(1) by (simp add: sw_ready_def)

lemma record_count_mod:
  assumes "n < 2 ^ 32"
  shows "ucast (of_nat n :: u32) mod (iv :: u64) = 0 \<longleftrightarrow> n mod unat iv = 0"
proof -
  have "unat (ucast (of_nat n :: u32) :: u64) = n"
    using assms unat_of_nat_u32 [OF assms] by (simp add: unsigned_ucast_eq take_bit_nat_eq_self)
  then show ?thesis by (simp add: unat_eq_0 [symmetric] unat_mod)
qed

lemma sw_append_all_ready:
  assumes "sw_ready p buf sw" "faults w = []" "sst_ok (sw_options sw) es"
    and "sw_record_count sw = of_nat n" "n + length es < 2 ^ 32"
    and "sw_current_offset sw = of_nat off"
    and "sw_last_key sw = [] \<or> (\<forall>e\<in>set es. sw_last_key sw < kve_key e)"
  shows "\<exists>sw'. sw_append_all es sw w = Ret (Status_OK, sw', w) \<and>
    sw_ready p (buf @ sst_data es) sw' \<and> sw_options sw' = sw_options sw \<and>
    sw_index sw' = sw_index sw @
      sst_index_from (unat (sparse_index_interval (sw_options sw))) n off es \<and>
    sw_bloom_filter sw' = fold bf_add (map kve_key es) (sw_bloom_filter sw) \<and>
    sw_current_offset sw' = of_nat (off + length (sst_data es)) \<and>
    sw_record_count sw' = of_nat (n + length es) \<and>
    sw_last_key sw' = (if es = [] then sw_last_key sw else kve_key (last es))"
  using assms
proof (induction es arbitrary: sw buf n off)
  case Nil
  then show ?case by (simp add: sst_data_def)
next
  case (Cons e es)
  let ?iv = "sparse_index_interval (sw_options sw)"
  let ?sw = "sw\<lparr>sw_bloom_filter := bf_add (kve_key e) (sw_bloom_filter sw),
     sw_index := sw_index sw @ (if ucast (sw_record_count sw) mod ?iv = 0
        then [\<lparr>ie_key = kve_key e, ie_offset = sw_current_offset sw\<rparr>] else []),
     sw_file := (sw_file sw)\<lparr>os_buf := buf @ sst_frame e\<rparr>,
     sw_current_offset := sw_current_offset sw + of_nat (length (sst_frame e)),
     sw_record_count := sw_record_count sw + 1, sw_last_key := kve_key e\<rparr>"
  have "sw_append (kve_key e) (kve_value e) (kve_type e) sw w = Ret (Status_OK, ?sw, w)"
    using Cons.prems by (intro sw_append_ready) (auto simp: sst_ok_def)
  moreover have "\<exists>sw'. sw_append_all es ?sw w = Ret (Status_OK, sw', w) \<and>
    sw_ready p ((buf @ sst_frame e) @ sst_data es) sw' \<and> sw_options sw' = sw_options ?sw \<and>
    sw_index sw' = sw_index ?sw @
      sst_index_from (unat (sparse_index_interval (sw_options ?sw))) (Suc n)
        (off + length (sst_frame e)) es \<and>
    sw_bloom_filter sw' = fold bf_add (map kve_key es) (sw_bloom_filter ?sw) \<and>
    sw_current_offset sw' = of_nat (off + length (sst_frame e) + length (sst_data es)) \<and>
    sw_record_count sw' = of_nat (Suc n + length es) \<and>
    sw_last_key sw' = (if es = [] then sw_last_key ?sw else kve_key (last es))"
    using Cons.prems by (intro Cons.IH) (auto simp: sw_ready_def)
  moreover have "sw_index ?sw = sw_index sw @ (if n mod unat ?iv = 0
      then [\<lparr>ie_key = kve_key e, ie_offset = of_nat off\<rparr>] else [])"
    using Cons.prems(4-6) record_count_mod [of n ?iv] by simp
  ultimately show ?case
    by (fastforce simp: sst_data_def add.assoc)
qed

lemma sw_append_all_append:
  "sw_append_all xs sw w = Ret (Status_OK, sw', w') \<Longrightarrow>
     sw_append_all (xs @ ys) sw w = sw_append_all ys sw' w'"
proof (induction xs arbitrary: sw w)
  case (Cons x xs)
  then show ?case
    by (cases "sw_append (kve_key x) (kve_value x) (kve_type x) sw w") (auto split: if_splits)
qed simp

lemma sw_open_ready:
  assumes "faults w = []"
  shows "\<exists>sw. sw_open p n (sw_new opt) w = (Status_OK, sw, emit [EvTrunc p] w) \<and>
    sw_ready p sst_header sw \<and> sw_options sw = opt \<and> sw_index sw = [] \<and>
    sw_bloom_filter sw =
      bf_new (if 0 < n then n else 100) (bloom_bits_per_key opt) (bloom_num_hashes opt) \<and>
    sw_current_offset sw = of_nat 16 \<and> sw_record_count sw = of_nat 0 \<and> sw_last_key sw = []"
  using assms
  by (simp add: sw_open_def Let_def io_simps sw_ready_def sw_new_def)

lemma length_sst_bloom_block [simp]:
  "length (sst_bloom_block opt es) = 12 + length (bf_bits (sst_bloom opt es))"
  by (simp add: sst_bloom_block_def)

lemma nonempty_blocks [simp]: "ft_serialize f \<noteq> []" "sst_header \<noteq> []"
  using length_ft_serialize [of f] by (force, simp add: sst_header_def flip: length_0_conv)

lemma length_sst_header [simp]: "length sst_header = 16"
  by (simp add: sst_header_def)

lemma sw_finish_ready:
  assumes "sw_ready p (sst_header @ sst_data es) sw" "faults w = []"
    and "sw_index sw = sst_index opt es" "sw_bloom_filter sw = sst_bloom opt es"
    and "sw_current_offset sw = of_nat (16 + length (sst_data es))"
    and "sw_record_count sw = of_nat (length es)"
  shows "\<exists>sw'. sw_finish sw w =
    (Status_OK, sw', emit [EvAppend p (sst_image opt es)] w) \<and> \<not> sw_is_open sw'"
  using assms
  by (simp add: sw_finish_def sw_ready_def Let_def io_simps append_events_def sst_image_def
      sst_footer_def sst_bloom_block_def)


text \<open>The three stages of writing a table: open, append, finish.\<close>

lemma sw_write_stages:
  assumes "faults w = []" "sst_ok opt es" "w1 = emit [EvTrunc p] w"
  obtains sw1 sw2 sw3 where
    "sw_open p (of_nat (length es)) (sw_new opt) w = (Status_OK, sw1, w1)" "sw_ready p sst_header sw1"
    "sw_append_all es sw1 w1 = Ret (Status_OK, sw2, w1)" "sw_ready p (sst_header @ sst_data es) sw2"
    "sw_finish sw2 w1 = (Status_OK, sw3, emit [EvAppend p (sst_image opt es)] w1)" "\<not> sw_is_open sw3"
proof -
  obtain sw1 where o: "sw_open p (of_nat (length es)) (sw_new opt) w = (Status_OK, sw1, w1)"
    "sw_ready p sst_header sw1" "sw_options sw1 = opt" "sw_index sw1 = []"
    "sw_bloom_filter sw1 = bf_new (if 0 < (of_nat (length es) :: u64) then of_nat (length es) else 100)
       (bloom_bits_per_key opt) (bloom_num_hashes opt)"
    "sw_current_offset sw1 = of_nat 16" "sw_record_count sw1 = of_nat 0" "sw_last_key sw1 = []"
    using sw_open_ready [OF assms(1), of p "of_nat (length es)" opt] assms(3) by blast
  have "length es < 2 ^ 32" using assms(2) by (simp add: sst_ok_def)
  then obtain sw2 where a: "sw_append_all es sw1 w1 = Ret (Status_OK, sw2, w1)"
    "sw_ready p (sst_header @ sst_data es) sw2" "sw_index sw2 = sst_index opt es"
    "sw_bloom_filter sw2 = sst_bloom opt es"
    "sw_current_offset sw2 = of_nat (16 + length (sst_data es))"
    "sw_record_count sw2 = of_nat (length es)"
    using sw_append_all_ready [OF o(2), of w1 es 0 16] assms o
    by (auto simp: sst_index_def sst_bloom_def)
  obtain sw3 where "sw_finish sw2 w1 = (Status_OK, sw3, emit [EvAppend p (sst_image opt es)] w1)"
    "\<not> sw_is_open sw3"
    using sw_finish_ready [OF a(2) _ a(3-6), of w1] assms(1,3) by auto
  with o(1,2) a(1,2) show ?thesis by (rule that)
qed

lemma sw_writeFromEntries_ok:
  assumes "faults w = []" "sst_ok opt es"
  shows "sw_writeFromEntries p es opt w =
    Ret (Status_OK, emit [EvTrunc p, EvAppend p (sst_image opt es)] w)"
  by (rule sw_write_stages [OF assms refl, of p]) (simp add: sw_writeFromEntries_def sw_destroy_def)

section \<open>Entries of a MemTable\<close>

lemma mt_entries_keys: "map kve_key (mt_entries m) = map fst (table m)"
  by (simp add: mt_entries_def o_def case_prod_unfold)

section \<open>A stream that has failed\<close>

lemma sw_append_bad:
  assumes "sw_is_open sw" "os_bad (sw_file sw)" "sparse_index_interval (sw_options sw) \<noteq> 0"
    and "sw_last_key sw = [] \<or> sw_last_key sw < key"
  shows "\<exists>sw'. sw_append key v t sw w = Ret (Status_OK, sw', w) \<and> sw_is_open sw' \<and>
    os_bad (sw_file sw') \<and> sw_options sw' = sw_options sw \<and> sw_last_key sw' = key"
proof -
  have guard: "(sw_last_key sw \<noteq> [] \<and> key \<le> sw_last_key sw) = False"
    using assms(4) by auto
  show ?thesis
    using assms(1-3) unfolding sw_append_def guard
    by (simp add: Let_def ofs_write_def)
qed

lemma sw_append_all_bad:
  assumes "sw_is_open sw" "os_bad (sw_file sw)" "sst_ok (sw_options sw) es"
    and "sw_last_key sw = [] \<or> (\<forall>e\<in>set es. sw_last_key sw < kve_key e)"
  shows "\<exists>sw'. sw_append_all es sw w = Ret (Status_OK, sw', w) \<and> sw_is_open sw' \<and>
    os_bad (sw_file sw')"
  using assms
proof (induction es arbitrary: sw)
  case (Cons e es)
  have "sparse_index_interval (sw_options sw) \<noteq> 0" "sw_last_key sw = [] \<or> sw_last_key sw < kve_key e"
    using Cons.prems by (auto simp: sst_ok_def)
  from sw_append_bad [OF Cons.prems(1,2) this] obtain sw1 where
    "sw_append (kve_key e) (kve_value e) (kve_type e) sw w = Ret (Status_OK, sw1, w)"
    "sw_is_open sw1" "os_bad (sw_file sw1)" "sw_options sw1 = sw_options sw"
    "sw_last_key sw1 = kve_key e"
    by blast
  then show ?case
    using Cons.IH [of sw1] Cons.prems(3) by auto
qed simp

section \<open>Keys out of order\<close>

lemma sw_finish_step:
  assumes "sw_ready p buf sw" "faults w = []"
  shows "\<exists>sw' blocks. \<not> sw_is_open sw' \<and>
    sw_finish sw w = (Status_OK, sw', emit [EvAppend p (buf @ blocks)] w)"
  using assms by (simp add: sw_finish_def sw_ready_def Let_def io_simps append_events_def) blast

lemma sw_write_unsorted:
  assumes "faults w = []" "sst_ok opt (pre @ [l])" "kve_key l \<noteq> []" "kve_key e \<le> kve_key l"
  shows "\<exists>msg. sw_writeFromEntries p ((pre @ [l]) @ e # post) opt w =
    Ret (Status_Corruption msg, emit [EvTrunc p, EvAppend p (sst_header @ sst_data (pre @ [l]))] w)"
proof -
  let ?w = "emit [EvTrunc p] w" and ?es = "pre @ [l]"
  obtain sw1 where o: "sw_open p (of_nat (length (?es @ e # post))) (sw_new opt) w = (Status_OK, sw1, ?w)"
    "sw_ready p sst_header sw1" "sw_options sw1 = opt"
    "sw_current_offset sw1 = of_nat 16" "sw_record_count sw1 = of_nat 0" "sw_last_key sw1 = []"
    using sw_open_ready [OF assms(1), of p "of_nat (length (?es @ e # post))" opt] by blast
  have "length ?es < 2 ^ 32" using assms(2) by (simp add: sst_ok_def)
  then obtain sw2 where a: "sw_append_all ?es sw1 ?w = Ret (Status_OK, sw2, ?w)"
    "sw_ready p (sst_header @ sst_data ?es) sw2" "sw_last_key sw2 = kve_key l"
    using sw_append_all_ready [OF o(2), of ?w ?es 0 16] assms o by auto
  have "\<exists>msg. sw_append_all (?es @ e # post) sw1 ?w = Ret (Status_Corruption msg, sw2, ?w)"
    using a(2,3) assms(3,4) unfolding sw_append_all_append [OF a(1)]
    by (simp add: sw_append_def sw_ready_def) blast
  with o(1) a(2) assms(1) show ?thesis
    by (auto simp: sw_writeFromEntries_def sw_destroy_def sw_ready_def io_simps append_events_def)
qed

text \<open>After an empty key the order is not tested.\<close>

lemma sw_write_empty_twice:
  assumes "faults w = []" "sst_ok opt [l]" "kve_key l = []" "kve_key e = []"
    and "length (sst_value e) < 2 ^ 32"
  shows "\<exists>w' blocks. sw_writeFromEntries p [l, e] opt w = Ret (Status_OK, w') \<and>
    files w' p = Some (sst_header @ sst_frame l @ sst_frame e @ blocks)"
proof -
  let ?w = "emit [EvTrunc p] w"
  have w: "faults ?w = []" using assms(1) by simp
  obtain sw1 where o: "sw_open p (of_nat (length [l, e])) (sw_new opt) w = (Status_OK, sw1, ?w)"
    "sw_ready p sst_header sw1" "sw_options sw1 = opt" "sw_last_key sw1 = []"
    using sw_open_ready [OF assms(1), of p "of_nat (length [l, e])" opt] by blast
  have l: "sparse_index_interval opt \<noteq> 0" "length (kve_key l) < 2 ^ 32" "length (sst_value l) < 2 ^ 32"
    using assms(2) by (simp_all add: sst_ok_def)
  obtain sw2 where a: "sw_append (kve_key l) (kve_value l) (kve_type l) sw1 ?w = Ret (Status_OK, sw2, ?w)"
    "sw_ready p (sst_header @ sst_frame l) sw2" "sw_options sw2 = opt" "sw_last_key sw2 = []"
    using sw_append_step [OF o(2) w, of l] o(3,4) l assms(3) by auto
  obtain sw3 where b: "sw_append (kve_key e) (kve_value e) (kve_type e) sw2 ?w = Ret (Status_OK, sw3, ?w)"
    "sw_ready p ((sst_header @ sst_frame l) @ sst_frame e) sw3"
    using sw_append_step [OF a(2) w, of e] a(3,4) l(1) assms(4,5) by auto
  obtain sw4 blocks where c: "\<not> sw_is_open sw4" "sw_finish sw3 ?w = (Status_OK, sw4,
      emit [EvAppend p (((sst_header @ sst_frame l) @ sst_frame e) @ blocks)] ?w)"
    using sw_finish_step [OF b(2) w] by auto
  have "sw_append_all [l, e] sw1 ?w = Ret (Status_OK, sw3, ?w)" using a(1) b(1) by simp
  with o(1) c show ?thesis by (simp add: sw_writeFromEntries_def sw_destroy_def)
qed

section \<open>Properties\<close>

text \<open>
  C15: the writer produces the table. From increasing keys within the limits, and when no call
  fails, it returns \<^verbatim>\<open>OK\<close>, having created the file and written exactly the image of the entries
  to it: header, records, sparse index, filter and footer, with the offsets the 64-bit
  counters of the code arrive at.
\<close>

theorem sst_write_image:
  assumes "faults w = []" "sst_ok opt es"
  shows "sw_writeFromEntries p es opt w =
    Ret (Status_OK, emit [EvTrunc p, EvAppend p (sst_image opt es)] w)"
  using assms by (rule sw_writeFromEntries_ok)

definition sample_entries :: "KeyValueEntry list" where
  "sample_entries =
    [\<lparr>kve_key = [1], kve_value = [7, 8], kve_type = PUT\<rparr>,
     \<lparr>kve_key = [2, 0], kve_value = [], kve_type = TOMBSTONE\<rparr>]"

lemma sample_entries_ok: "sst_ok default_options sample_entries"
  by (simp add: sst_ok_def sample_entries_def default_options_def sst_value_def
      kve_isTombstone_def word_less_nat_alt)

theorem sst_write_image_witness:
  "\<exists>w'. sw_writeFromEntries [9] sample_entries default_options empty_world = Ret (Status_OK, w') \<and>
     files w' [9] = Some (sst_image default_options sample_entries)"
  by (subst sst_write_image) (simp_all add: sample_entries_ok empty_world_def)

text \<open>
  C30: a key out of order is refused, unless the key before it is empty. When a record whose key
  is not greater than the last one follows, and the last key is not empty, writing stops with a
  corruption; the file stays behind, with the header and the records before it and no index,
  filter or footer. After an empty key the test is off: a second record with the empty key is
  written like any other, the result is \<^verbatim>\<open>OK\<close>, and the table has a duplicate key.
\<close>

theorem sst_write_rejects_unsorted:
  assumes "faults w = []" "sst_ok opt (pre @ [l])" "kve_key e \<le> kve_key l"
    and "length (sst_value e) < 2 ^ 32"
  shows "if kve_key l \<noteq> [] then
      \<exists>msg. sw_writeFromEntries p ((pre @ [l]) @ e # post) opt w =
        Ret (Status_Corruption msg, emit [EvTrunc p, EvAppend p (sst_header @ sst_data (pre @ [l]))] w)
    else kve_key e = [] \<and> pre = [] \<and>
      (\<exists>w' blocks. sw_writeFromEntries p [l, e] opt w = Ret (Status_OK, w') \<and>
        files w' p = Some (sst_header @ sst_frame l @ sst_frame e @ blocks))"
proof (cases "kve_key l = []")
  case True
  then have e: "kve_key e = []" using assms(3) by simp
  have "pre = []" using assms(2) True by (cases pre) (auto simp: sst_ok_def sorted_wrt_append)
  with True e sw_write_empty_twice [OF assms(1) _ True e assms(4), of opt p] assms(2) show ?thesis
    by simp
next
  case False
  then show ?thesis
    using sw_write_unsorted [OF assms(1,2) False assms(3)] by simp
qed

theorem sst_write_rejects_unsorted_witness:
  "(\<exists>msg w'. sw_writeFromEntries [9]
      [\<lparr>kve_key = [1], kve_value = [7], kve_type = PUT\<rparr>, \<lparr>kve_key = [1], kve_value = [8], kve_type = PUT\<rparr>]
      default_options empty_world = Ret (Status_Corruption msg, w')) \<and>
   (\<exists>w'. sw_writeFromEntries [9]
      [\<lparr>kve_key = [], kve_value = [7], kve_type = PUT\<rparr>, \<lparr>kve_key = [], kve_value = [8], kve_type = PUT\<rparr>]
      default_options empty_world = Ret (Status_OK, w'))"
proof -
  let ?r = "\<lambda>k v. \<lparr>kve_key = k, kve_value = [v], kve_type = PUT\<rparr> :: KeyValueEntry"
  have ok: "sst_ok default_options ([] @ [?r k 7])" if "length k \<le> 1" for k
    using that by (simp add: sst_ok_def default_options_def sst_value_def kve_isTombstone_def)
  have 1: "sst_ok default_options ([] @ [?r [1] 7])" and 0: "sst_ok default_options ([] @ [?r [] 7])"
    by (rule ok, simp)+
  have len: "length (sst_value (?r k 8)) < 2 ^ 32" for k by (simp add: sst_value_def kve_isTombstone_def)
  show ?thesis
    using sst_write_rejects_unsorted [OF _ 1 _ len, of empty_world "[1]" "[9]" "[]"]
      sst_write_rejects_unsorted [OF _ 0 _ len, of empty_world "[]" "[9]" "[]"]
    by (auto simp: empty_world_def)
qed

text \<open>
  C34: the writer never looks at its stream. When the disk is full from the first write on,
  writing a table still returns \<^verbatim>\<open>OK\<close>, and the file is empty.
\<close>

theorem sst_write_ignores_full_disk:
  assumes "faults w = [None, Some 0]" "sst_ok opt es"
  shows "\<exists>w'. sw_writeFromEntries p es opt w = Ret (Status_OK, w') \<and> files w' p = Some []"
proof -
  let ?w = "(emit [EvTrunc p] w)\<lparr>faults := []\<rparr>"
  obtain sw1 where o: "sw_open p (of_nat (length es)) (sw_new opt) w = (Status_OK, sw1, ?w)"
    "sw_is_open sw1" "os_bad (sw_file sw1)" "sw_options sw1 = opt" "sw_last_key sw1 = []"
    using assms(1)
    by (simp add: sw_open_def Let_def ofs_open_with_def next_fault_def ofs_write_def sw_new_def
        emit_def append_events_def)
  have "sst_ok (sw_options sw1) es" using assms(2) o(4) by simp
  from sw_append_all_bad [OF o(2,3) this] o(5) obtain sw2 where
    a: "sw_append_all es sw1 ?w = Ret (Status_OK, sw2, ?w)" "sw_is_open sw2" "os_bad (sw_file sw2)"
    by auto
  have "\<exists>sw3. sw_finish sw2 ?w = (Status_OK, sw3, ?w) \<and> \<not> sw_is_open sw3"
    using a(2,3) by (simp add: sw_finish_def Let_def ofs_write_def ofs_flush_def ofs_close_def)
  with o(1) a(1) show ?thesis
    by (auto simp: sw_writeFromEntries_def sw_destroy_def)
qed

theorem sst_write_ignores_full_disk_witness:
  "\<exists>w'. sw_writeFromEntries [9] sample_entries default_options
      (empty_world\<lparr>faults := [None, Some 0]\<rparr>) = Ret (Status_OK, w') \<and> files w' [9] = Some []"
  by (rule sst_write_ignores_full_disk) (simp_all add: sample_entries_ok)

end
