(* ===== verification/SSTReader.thy ===== *)
theory SSTReader
  imports SSTWriter
begin

text \<open>
  \<^verbatim>\<open>SSTableReader\<close> of \<^verbatim>\<open>include/lsm/sstable.h\<close> and \<^verbatim>\<open>src/sstable.cpp\<close>: opening a
  table, the lookup through filter, index and scan, and the full scan. Its record reader
  interprets \<^theory_text>\<open>framed\<close>, and a reader opened on a written table interprets \<^theory_text>\<open>level\<close>.
\<close>

section \<open>State and opening\<close>

record SSTableReader =
  sr_filepath :: path
  sr_is_open :: bool
  sr_enable_bloom_filter :: bool
  sr_footer :: SSTableFooter
  sr_index :: SSTableIndex
  sr_bloom_filter :: BloomFilter

definition sr_new :: SSTableReader where
  "sr_new =
    \<lparr>sr_filepath = [], sr_is_open = False, sr_enable_bloom_filter = True,
     sr_footer = default_footer, sr_index = [], sr_bloom_filter = bf_new 0 10 7\<rparr>"

definition sr_close :: "SSTableReader \<Rightarrow> Status \<times> SSTableReader" where
  "sr_close sr = (Status_OK, sr\<lparr>sr_is_open := False\<rparr>)"

text \<open>A vector of more than \<^verbatim>\<open>PTRDIFF_MAX\<close> bytes cannot be constructed.\<close>

definition make_vector :: "u64 \<Rightarrow> nat outcome" where
  "make_vector n =
    (if 2 ^ 63 - 1 < unat n then Throw (lit ''cannot create std::vector larger than max_size()'')
     else Ret (unat n))"

definition sr_load_index :: "bytes \<Rightarrow> SSTableReader \<Rightarrow> (Status \<times> SSTableReader) outcome" where
  "sr_load_index content sr =
     obind (make_vector (ft_index_size (sr_footer sr))) (\<lambda>size.
     case ifs_read size (ifs_at content (unat (ft_index_offset (sr_footer sr)))) of
       (index_data, _) \<Rightarrow>
         if length index_data < size then
           Ret (Status_Corruption (lit ''Truncated index block''), sr)
         else case idx_deserialize index_data of
           Ret index \<Rightarrow> Ret (Status_OK, sr\<lparr>sr_index := index\<rparr>)
         | Throw what \<Rightarrow>
             Ret (Status_Corruption (lit ''Index deserialization error: '' @ what), sr)
         | Undef \<Rightarrow> Undef)"

definition sr_load_bloom :: "bytes \<Rightarrow> SSTableReader \<Rightarrow> (Status \<times> SSTableReader) outcome" where
  "sr_load_bloom content sr =
     obind (make_vector (ft_bloom_size (sr_footer sr))) (\<lambda>size.
     case ifs_read size (ifs_at content (unat (ft_bloom_offset (sr_footer sr)))) of
       (bloom_data, _) \<Rightarrow>
         if length bloom_data < size then
           Ret (Status_Corruption (lit ''Truncated Bloom filter block''), sr)
         else if size < 4 then Ret (Status_Corruption (lit ''Corrupt Bloom filter block''), sr)
         else if decodeUint32LE (drop (size - 4) bloom_data) \<noteq> crc32 (take (size - 4) bloom_data) 0
         then Ret (Status_Corruption (lit ''Bloom filter CRC mismatch''), sr)
         else case bf_deserialize bloom_data (size - 4) of
           Ret bloom \<Rightarrow> Ret (Status_OK, sr\<lparr>sr_bloom_filter := bloom\<rparr>)
         | Throw what \<Rightarrow>
             Ret (Status_Corruption (lit ''Bloom filter deserialization error: '' @ what), sr)
         | Undef \<Rightarrow> Undef)"

text \<open>The checks and loads of \<^verbatim>\<open>open\<close> on the bytes of the file.\<close>

definition sr_load :: "bytes \<Rightarrow> SSTableReader \<Rightarrow> (Status \<times> SSTableReader) outcome" where
  "sr_load content sr =
    (let file_size = length content in
     if file_size < kSSTableHeaderSize + kSSTableFooterSize then
       Ret (Status_Corruption (lit ''SSTable file too small: '' @ sr_filepath sr), sr)
     else case ifs_read kSSTableHeaderSize (ifs_at content 0) of (header, _) \<Rightarrow>
     if length header < kSSTableHeaderSize then
       Ret (Status_Corruption (lit ''Failed reading SSTable header''), sr)
     else if decodeUint64LE header \<noteq> kSSTableHeaderMagic then
       Ret (Status_Corruption (lit ''Invalid SSTable header magic number''), sr)
     else if decodeUint32LE (drop 8 header) \<noteq> kSSTableVersion then
       Ret (Status_Corruption (lit ''Unsupported SSTable version: '' @
              decimal (unat (decodeUint32LE (drop 8 header)))), sr)
     else case ifs_read kSSTableFooterSize (ifs_at content (file_size - kSSTableFooterSize)) of
       (footer_buf, _) \<Rightarrow>
     if length footer_buf < kSSTableFooterSize then
       Ret (Status_Corruption (lit ''Failed reading SSTable footer''), sr)
     else case ft_deserialize footer_buf (sr_footer sr) of (s, footer) \<Rightarrow>
       let sr = sr\<lparr>sr_footer := footer\<rparr> in
       if \<not> ok s then Ret (s, sr)
       else if ft_data_offset footer \<noteq> of_nat kSSTableHeaderSize \<or>
          ft_data_offset footer + ft_data_size footer \<noteq> ft_index_offset footer \<or>
          ft_index_offset footer + ft_index_size footer \<noteq> ft_bloom_offset footer \<or>
          ft_bloom_offset footer + ft_bloom_size footer \<noteq> of_nat (file_size - kSSTableFooterSize)
       then Ret (Status_Corruption (lit ''Corrupt SSTable offsets or sizes''), sr)
       else obind (sr_load_index content sr) (\<lambda>(s, sr).
         if \<not> ok s then Ret (s, sr)
         else obind (sr_load_bloom content sr) (\<lambda>(s, sr).
           if \<not> ok s then Ret (s, sr)
           else Ret (Status_OK, sr\<lparr>sr_is_open := True\<rparr>))))"

definition sr_open ::
  "path \<Rightarrow> bool \<Rightarrow> SSTableReader \<Rightarrow> world \<Rightarrow> (Status \<times> SSTableReader \<times> world) outcome" where
  "sr_open filepath enable_bloom sr w =
    (let sr = (snd (sr_close sr))\<lparr>sr_filepath := filepath,
                sr_enable_bloom_filter := enable_bloom\<rparr> in
     case ifs_open filepath w of
       (None, w1) \<Rightarrow> Ret (Status_IOError (lit ''Failed to open SSTable: '' @ filepath), sr, w1)
     | (Some content, w1) \<Rightarrow> obind (sr_load content sr) (\<lambda>(s, sr). Ret (s, sr, w1)))"

section \<open>Lookup\<close>

text \<open>One record of a scan; the status of a short read is that of a truncated record.\<close>

definition sst_read_record :: "ifstream \<Rightarrow> KeyValueEntry read_step" where
  "sst_read_record in0 =
    (case ifs_read 9 in0 of (header, in1) \<Rightarrow>
     if length header < 9 then
       Stop (Status_Corruption (lit ''Truncated record header in SSTable'')) True
     else
      let type_val = header ! 0;
          key_len = decodeUint32LE (drop 1 header); val_len = decodeUint32LE (drop 5 header) in
      case ifs_read_len key_len in1 of (rec_key, in2) \<Rightarrow>
      if length rec_key < unat key_len then
        Stop (Status_Corruption (lit ''Truncated record key in SSTable'')) True
      else
       case ifs_read_len val_len in2 of (rec_val, in3) \<Rightarrow>
       if length rec_val < unat val_len then
         Stop (Status_Corruption (lit ''Truncated record value in SSTable'')) True
       else
        case ifs_read 4 in3 of (crc_buf, in4) \<Rightarrow>
        if length crc_buf < 4 then
          Stop (Status_Corruption (lit ''Truncated record CRC in SSTable'')) True
        else if crc32 (header @ rec_key @ rec_val) 0 \<noteq> decodeUint32LE crc_buf then
          Stop (Status_Corruption (lit ''Record CRC mismatch in SSTable'')) False
        else Got \<lparr>kve_key = rec_key, kve_value = rec_val, kve_type = type_val\<rparr> in4)"

definition sst_record_size :: "KeyValueEntry \<Rightarrow> u64" where
  "sst_record_size e = 9 + of_nat (length (kve_key e)) + of_nat (length (kve_value e)) + 4"

definition sst_rec_frame :: "KeyValueEntry \<Rightarrow> bytes" where
  "sst_rec_frame e = frame (kve_type e) (kve_key e) (kve_value e)"

definition sst_rec_valid :: "KeyValueEntry \<Rightarrow> bool" where
  "sst_rec_valid e \<longleftrightarrow> length (kve_key e) < 2 ^ 32 \<and> length (kve_value e) < 2 ^ 32"

lemma sst_read_record_sound:
  assumes "sst_read_record s = Got r s'" "\<not> ifs_fail s"
  shows "sst_rec_valid r \<and> \<not> ifs_fail s' \<and> ifs_rest s = sst_rec_frame r @ ifs_rest s'"
proof -
  obtain h s1 where 1: "ifs_read 9 s = (h, s1)" by (meson surj_pair)
  define kl vl where "kl = decodeUint32LE (drop 1 h)" and "vl = decodeUint32LE (drop 5 h)"
  obtain k s2 where 2: "ifs_read_len kl s1 = (k, s2)" by (meson surj_pair)
  obtain v s3 where 3: "ifs_read_len vl s2 = (v, s3)" by (meson surj_pair)
  obtain c s4 where 4: "ifs_read 4 s3 = (c, s4)" by (meson surj_pair)
  have facts: "9 \<le> length h" "unat kl \<le> length k" "unat vl \<le> length v" "4 \<le> length c"
    "crc32 (h @ k @ v) 0 = decodeUint32LE c" "s' = s4"
    "r = \<lparr>kve_key = k, kve_value = v, kve_type = h ! 0\<rparr>"
    using assms(1) unfolding sst_read_record_def 1 prod.case Let_def kl_def [symmetric]
      vl_def [symmetric] 2 3 4
    by (auto split: if_splits)
  have r1: "ifs_rest s = h @ ifs_rest s1" "\<not> ifs_fail s1" "length h = 9"
    using ifs_read_complete [OF 1 facts(1) assms(2)] by blast+
  have r2: "ifs_rest s1 = k @ ifs_rest s2" "\<not> ifs_fail s2" "length k = unat kl"
    using ifs_read_len_complete [OF 2 facts(2) r1(2)] by blast+
  have r3: "ifs_rest s2 = v @ ifs_rest s3" "\<not> ifs_fail s3" "length v = unat vl"
    using ifs_read_len_complete [OF 3 facts(3) r2(2)] by blast+
  have r4: "ifs_rest s3 = c @ ifs_rest s4" "\<not> ifs_fail s4" "length c = 4"
    using ifs_read_complete [OF 4 facts(4) r3(2)] by blast+
  show ?thesis
    using framed_bytes [of h k v c] facts(5-7) r1 r2 r3 r4 unat_u32_lt [of kl] unat_u32_lt [of vl]
    by (simp add: sst_rec_valid_def sst_rec_frame_def kl_def vl_def)
qed


lemma sst_read_header:
  assumes "sst_rec_valid r"
  shows "sst_read_record (in_stream (frame_header (kve_type r) (kve_key r) (kve_value r) @ bs)) =
    (case ifs_read_len (of_nat (length (kve_key r))) (in_stream bs) of (key, in2) \<Rightarrow>
     if length key < length (kve_key r) then
       Stop (Status_Corruption (lit ''Truncated record key in SSTable'')) True
     else case ifs_read_len (of_nat (length (kve_value r))) in2 of (val, in3) \<Rightarrow>
     if length val < length (kve_value r) then
       Stop (Status_Corruption (lit ''Truncated record value in SSTable'')) True
     else case ifs_read 4 in3 of (crc_buf, in4) \<Rightarrow>
     if length crc_buf < 4 then
       Stop (Status_Corruption (lit ''Truncated record CRC in SSTable'')) True
     else if crc32 (frame_header (kve_type r) (kve_key r) (kve_value r) @ key @ val) 0
         \<noteq> decodeUint32LE crc_buf then
       Stop (Status_Corruption (lit ''Record CRC mismatch in SSTable'')) False
     else Got \<lparr>kve_key = key, kve_value = val, kve_type = kve_type r\<rparr> in4)"
  using assms
  by (simp add: sst_read_record_def Let_def ifs_read_whole sst_rec_valid_def unat_of_nat_u32
      cong: prod.case_cong if_cong)

lemma sst_read_frame:
  assumes "sst_rec_valid r"
  shows "sst_read_record (in_stream (sst_rec_frame r @ rest)) = Got r (in_stream rest)"
  using assms
  by (simp add: sst_rec_frame_def frame_def frame_body_def sst_read_header [OF assms]
      ifs_read_len_whole ifs_read_whole sst_rec_valid_def)

lemma sst_read_truncated:
  assumes v: "sst_rec_valid r" and p: "strict_prefix p (sst_rec_frame r)"
  shows "\<exists>msg. sst_read_record (in_stream p) = Stop (Status_Corruption msg) True"
proof -
  let ?h = "frame_header (kve_type r) (kve_key r) (kve_value r)"
  let ?c = "encodeUint32LE (crc32 (?h @ kve_key r @ kve_value r) 0)"
  have len: "length (kve_key r) < 2 ^ 32" "length (kve_value r) < 2 ^ 32"
    using v by (simp_all add: sst_rec_valid_def)
  from p have "strict_prefix p (?h @ kve_key r @ kve_value r @ ?c)"
    by (simp add: sst_rec_frame_def frame_def frame_body_def)
  then show ?thesis
  proof (cases rule: strict_prefix_append_cases)
    case left
    then show ?thesis
      using ifs_read_short [of p 9] by (auto simp: sst_read_record_def split: prod.splits)
  next
    case (right q)
    note q = right
    from q(2) show ?thesis
    proof (cases rule: strict_prefix_append_cases)
      case left
      with q len show ?thesis
        using ifs_read_len_short [of q "of_nat (length (kve_key r))"]
        by (auto simp: sst_read_header [OF v] unat_of_nat_u32 split: prod.splits)
    next
      case (right q')
      note q' = right
      from q'(2) show ?thesis
      proof (cases rule: strict_prefix_append_cases)
        case left
        with q q' len show ?thesis
          using ifs_read_len_short [of q' "of_nat (length (kve_value r))"]
          by (auto simp: sst_read_header [OF v] ifs_read_len_whole unat_of_nat_u32
              split: prod.splits)
      next
        case (right q'')
        with q q' len show ?thesis
          using ifs_read_short [of q'' 4] prefix_length_less [OF right(2)]
          by (auto simp: sst_read_header [OF v] ifs_read_len_whole split: prod.splits)
      qed
    qed
  qed
qed

interpretation sstf: framed sst_read_record sst_rec_frame sst_rec_valid
proof
  fix r rest assume "sst_rec_valid r"
  then show "sst_read_record (in_stream (sst_rec_frame r @ rest)) = Got r (in_stream rest)"
    by (rule sst_read_frame)
next
  fix bs r s assume "sst_read_record (in_stream bs) = Got r s"
  then show "sst_rec_valid r \<and> \<not> ifs_fail s \<and> bs = sst_rec_frame r @ ifs_rest s"
    using sst_read_record_sound by fastforce
next
  fix r p assume "sst_rec_valid r" "strict_prefix p (sst_rec_frame r)" "p \<noteq> []"
  then show "\<exists>msg. sst_read_record (in_stream p) = Stop (Status_Corruption msg) True"
    by (intro sst_read_truncated)
next
  fix r show "sst_rec_frame r \<noteq> []"
    using length_frame [of "kve_type r" "kve_key r" "kve_value r"]
    by (auto simp: sst_rec_frame_def simp del: length_frame)
qed

lemma sst_read_consumes:
  "sst_read_record s = Got r s' \<Longrightarrow> size s' < size s"
proof (cases "ifs_fail s")
  case True
  then show "sst_read_record s = Got r s' \<Longrightarrow> ?thesis"
    by (simp add: sst_read_record_def ifs_read_def)
next
  case False
  then show "sst_read_record s = Got r s' \<Longrightarrow> ?thesis"
    using sst_read_record_sound [of s r s'] by (auto simp: sst_rec_frame_def)
qed

text \<open>The loop of \<^verbatim>\<open>scanRange\<close>: the result and the out-parameter \<^verbatim>\<open>is_tombstone\<close>.\<close>

function sst_scan_loop :: "bytes \<Rightarrow> u64 \<Rightarrow> u64 \<Rightarrow> ifstream \<Rightarrow> Result \<times> bool" where
  "sst_scan_loop key cur end_offset inp =
    (if \<not> (cur < end_offset \<and> \<not> ifs_eof inp) then
       (Result_NotFound (lit ''Key not found in SSTable range''), False)
     else case sst_read_record inp of
       Stop s _ \<Rightarrow> (Result_Error s, False)
     | Got r inp' \<Rightarrow>
         if kve_key r = key then
           (if kve_type r = TOMBSTONE then
              (Result_NotFound (lit ''Key deleted (tombstone in SSTable)''), True)
            else (Result_OK (kve_value r), False))
         else if key < kve_key r then
           (Result_NotFound (lit ''Key not found in SSTable''), False)
         else sst_scan_loop key (cur + sst_record_size r) end_offset inp')"
  by pat_completeness auto
termination
  by (relation "measure (\<lambda>(key, cur, end_offset, inp). size inp)")
    (auto dest: sst_read_consumes)

declare sst_scan_loop.simps [simp del]

definition sr_scanRange ::
  "u64 \<Rightarrow> u64 \<Rightarrow> bytes \<Rightarrow> SSTableReader \<Rightarrow> world \<Rightarrow> (Result \<times> bool) \<times> world" where
  "sr_scanRange start_offset end_offset key sr w =
    (case ifs_open (sr_filepath sr) w of
      (None, w1) \<Rightarrow>
        ((Result_Error (Status_IOError (lit ''Failed to open SSTable: '' @ sr_filepath sr)), False), w1)
    | (Some content, w1) \<Rightarrow>
        (sst_scan_loop key start_offset end_offset (ifs_at content (unat start_offset)), w1))"

definition sr_get :: "bytes \<Rightarrow> SSTableReader \<Rightarrow> world \<Rightarrow> (Result \<times> bool) \<times> world" where
  "sr_get key sr w =
    (if \<not> sr_is_open sr then
       ((Result_Error (Status_IOError (lit ''SSTableReader is not open'')), False), w)
     else if sr_enable_bloom_filter sr \<and> \<not> bf_possiblyContains (sr_bloom_filter sr) key then
       ((Result_NotFound (lit ''Key absent according to Bloom filter''), False), w)
     else case findOffsetRange key (sr_index sr)
         (ft_data_offset (sr_footer sr) + ft_data_size (sr_footer sr)) of
       (start_offset, end_offset) \<Rightarrow> sr_scanRange start_offset end_offset key sr w)"

section \<open>Reading all records\<close>

text \<open>
  The full scan does not test how much it read: what is missing of a key or a value stays
  zero, and what is missing of the checksum is the uninitialised content of a local array.
\<close>

definition pad_to :: "nat \<Rightarrow> bytes \<Rightarrow> bytes" where
  "pad_to n bs = bs @ replicate (n - length bs) 0"

definition sst_read_unchecked :: "(nat \<Rightarrow> byte) \<Rightarrow> ifstream \<Rightarrow> KeyValueEntry read_step" where
  "sst_read_unchecked garbage in0 =
    (case ifs_read 9 in0 of (header, in1) \<Rightarrow>
     if length header < 9 then
       Stop (Status_Corruption (lit ''Truncated record header in SSTable'')) True
     else
      let type_val = header ! 0;
          key_len = decodeUint32LE (drop 1 header); val_len = decodeUint32LE (drop 5 header) in
      case ifs_read_len key_len in1 of (k, in2) \<Rightarrow>
      case ifs_read_len val_len in2 of (v, in3) \<Rightarrow>
      case ifs_read 4 in3 of (c, in4) \<Rightarrow>
        let rec_key = pad_to (unat key_len) k; rec_val = pad_to (unat val_len) v;
            crc_buf = c @ map garbage [length c..<4]
        in if crc32 (header @ rec_key @ rec_val) 0 \<noteq> decodeUint32LE crc_buf then
             Stop (Status_Corruption (lit ''Record CRC mismatch in SSTable readAllRecords'')) False
           else Got \<lparr>kve_key = rec_key, kve_value = rec_val, kve_type = type_val\<rparr> in4)"

lemma sst_read_unchecked_consumes:
  assumes "sst_read_unchecked g s = Got r s'"
  shows "size s' < size s"
proof -
  obtain h s1 where 1: "ifs_read 9 s = (h, s1)" by (meson surj_pair)
  obtain k s2 where 2: "ifs_read_len (decodeUint32LE (drop 1 h)) s1 = (k, s2)" by (meson surj_pair)
  obtain v s3 where 3: "ifs_read_len (decodeUint32LE (drop 5 h)) s2 = (v, s3)" by (meson surj_pair)
  obtain c s4 where 4: "ifs_read 4 s3 = (c, s4)" by (meson surj_pair)
  have "9 \<le> length h" "s' = s4"
    using assms unfolding sst_read_unchecked_def 1 prod.case Let_def 2 3 4
    by (auto split: if_splits)
  with ifs_read_consumes [OF 1] ifs_read_len_rest_le [OF 2] ifs_read_len_rest_le [OF 3]
    ifs_read_rest_le [OF 4] show ?thesis by simp
qed

function sst_read_all_loop ::
  "(nat \<Rightarrow> byte) \<Rightarrow> u64 \<Rightarrow> u64 \<Rightarrow> ifstream \<Rightarrow> KeyValueEntry list \<Rightarrow> Status \<times> KeyValueEntry list" where
  "sst_read_all_loop garbage cur end_offset inp out_records =
    (if \<not> (cur < end_offset \<and> \<not> ifs_eof inp) then (Status_OK, out_records)
     else case sst_read_unchecked garbage inp of
       Stop s _ \<Rightarrow> (s, out_records)
     | Got r inp' \<Rightarrow>
         sst_read_all_loop garbage (cur + sst_record_size r) end_offset inp' (out_records @ [r]))"
  by pat_completeness auto
termination
  by (relation "measure (\<lambda>(g, cur, end_offset, inp, out). size inp)")
    (auto dest: sst_read_unchecked_consumes)

declare sst_read_all_loop.simps [simp del]

definition sr_readAllRecords ::
  "KeyValueEntry list \<Rightarrow> SSTableReader \<Rightarrow> world \<Rightarrow> (Status \<times> KeyValueEntry list) \<times> world" where
  "sr_readAllRecords out_records sr w =
    (if \<not> sr_is_open sr then
       ((Status_IOError (lit ''SSTableReader is not open''), out_records), w)
     else case ifs_open (sr_filepath sr) w of
       (None, w1) \<Rightarrow>
         ((Status_IOError (lit ''Failed to open SSTable: '' @ sr_filepath sr), out_records), w1)
     | (Some content, w1) \<Rightarrow>
         let cur = ft_data_offset (sr_footer sr);
             end_offset = ft_data_offset (sr_footer sr) + ft_data_size (sr_footer sr)
         in (sst_read_all_loop (uninit w1) cur end_offset (ifs_at content (unat cur)) out_records,
             w1))"

end
