(* ===== verification/SSTable.thy ===== *)
theory SSTable
  imports SSTReader
begin

text \<open>
  Tables as a whole: what the writer leaves on disk is what the reader opens, scans and looks
  up. A reader opened on a written table interprets the contract \<^theory_text>\<open>level\<close>.
\<close>

section \<open>Opening a written table\<close>

text \<open>
  The sizes at which every counter of the format is exact: the filter's length fits its 32-bit
  field and the file a signed 64-bit offset.
\<close>

definition sst_fits :: "Options \<Rightarrow> KeyValueEntry list \<Rightarrow> bool" where
  "sst_fits opt es \<longleftrightarrow> sst_ok opt es \<and> length (bf_bits (sst_bloom opt es)) + 8 < 2 ^ 32 \<and>
     length (sst_image opt es) < 2 ^ 63"

text \<open>The reader that has opened the table of \<open>es\<close>.\<close>

definition sst_reader :: "path \<Rightarrow> bool \<Rightarrow> Options \<Rightarrow> KeyValueEntry list \<Rightarrow> SSTableReader" where
  "sst_reader p enable opt es =
    \<lparr>sr_filepath = p, sr_is_open = True, sr_enable_bloom_filter = enable,
     sr_footer = sst_footer opt es, sr_index = sst_index opt es, sr_bloom_filter = sst_bloom opt es\<rparr>"

lemma length_sst_image:
  "length (sst_image opt es) = 16 + length (sst_data es) +
     length (idx_serialize (sst_index opt es)) + length (sst_bloom_block opt es) + 64"
  by (simp add: sst_image_def del: length_sst_bloom_block)

lemma sst_index_from_keys:
  "set (map ie_key (sst_index_from iv n off es)) \<subseteq> set (map kve_key es)"
  by (induction es arbitrary: n off) auto

lemma length_sst_index_from: "length (sst_index_from iv n off es) \<le> length es"
  by (induction es arbitrary: n off) (auto intro: le_SucI)

lemma sst_index_read:
  assumes "sst_ok opt es"
  shows "idx_deserialize (idx_serialize (sst_index opt es)) = Ret (sst_index opt es)"
proof (rule idx_deserialize_serialize)
  show "length (sst_index opt es) < 2 ^ 32"
    using assms length_sst_index_from [of "unat (sparse_index_interval opt)" 0 16 es]
    by (simp add: sst_index_def sst_ok_def)
  show "\<forall>e\<in>set (sst_index opt es). length (ie_key e) < 2 ^ 32"
    using assms sst_index_from_keys [of "unat (sparse_index_interval opt)" 0 16 es]
    by (fastforce simp: sst_index_def sst_ok_def)
qed

lemma make_vector_of_nat: "n < 2 ^ 63 \<Longrightarrow> make_vector (of_nat n) = Ret n"
  by (simp add: make_vector_def unat_of_nat_u64)

lemma ifs_read_slice:
  "n = length xs \<Longrightarrow> m = length ys \<Longrightarrow> ifs_read m (ifs_at (xs @ ys @ zs) n) = (ys, in_stream zs)"
  by (simp add: ifs_at_in_stream ifs_read_whole)

lemma sr_load_index_image:
  assumes "sst_fits opt es" "sr_footer sr = sst_footer opt es"
  shows "sr_load_index (sst_image opt es) sr = Ret (Status_OK, sr\<lparr>sr_index := sst_index opt es\<rparr>)"
proof -
  let ?d = "length (sst_data es)" and ?I = "idx_serialize (sst_index opt es)"
  have lt: "16 + ?d < 2 ^ 64" "length ?I < 2 ^ 63" and ok: "sst_ok opt es"
    using assms(1) by (auto simp: sst_fits_def length_sst_image)
  have "ifs_read (length ?I) (ifs_at (sst_image opt es) (16 + ?d)) =
      (?I, in_stream (sst_bloom_block opt es @ ft_serialize (sst_footer opt es)))"
    using ifs_read_slice [of "16 + ?d" "sst_header @ sst_data es" "length ?I" ?I
        "sst_bloom_block opt es @ ft_serialize (sst_footer opt es)"]
    by (simp add: sst_image_def)
  moreover have "unat (ft_index_offset (sr_footer sr)) = 16 + ?d"
    "make_vector (ft_index_size (sr_footer sr)) = Ret (length ?I)"
    using lt assms(2) make_vector_of_nat [of "length ?I"] unat_of_nat_u64 [OF lt(1)]
    by (simp_all add: sst_footer_def Let_def)
  ultimately show ?thesis
    by (simp add: sr_load_index_def sst_index_read [OF ok])
qed

lemma sr_load_bloom_image:
  assumes "sst_fits opt es" "sr_footer sr = sst_footer opt es"
  shows "sr_load_bloom (sst_image opt es) sr =
    Ret (Status_OK, sr\<lparr>sr_bloom_filter := sst_bloom opt es\<rparr>)"
proof -
  let ?d = "length (sst_data es)" and ?i = "length (idx_serialize (sst_index opt es))"
  let ?raw = "bf_serialize (sst_bloom opt es)" and ?B = "sst_bloom_block opt es"
  have B: "?B = ?raw @ encodeUint32LE (crc32 ?raw 0)" by (simp add: sst_bloom_block_def)
  have lt: "16 + ?d + ?i < 2 ^ 64" "length ?B < 2 ^ 63"
    using assms(1) by (auto simp: sst_fits_def length_sst_image)
  have "ifs_read (length ?B) (ifs_at (sst_image opt es) (16 + ?d + ?i)) =
      (?B, in_stream (ft_serialize (sst_footer opt es)))"
    using ifs_read_slice [of "16 + ?d + ?i" "sst_header @ sst_data es @ idx_serialize (sst_index opt es)"
        "length ?B" ?B "ft_serialize (sst_footer opt es)"]
    by (simp add: sst_image_def)
  moreover have "unat (ft_bloom_offset (sr_footer sr)) = 16 + ?d + ?i"
    "make_vector (ft_bloom_size (sr_footer sr)) = Ret (length ?B)"
    using lt assms(2) make_vector_of_nat [of "length ?B"] unat_of_nat_u64 [OF lt(1)]
    by (simp_all add: sst_footer_def Let_def del: length_sst_bloom_block)
  moreover have "bf_deserialize ?B (length ?raw) = Ret (sst_bloom opt es)"
    unfolding B using assms(1) by (intro bf_deserialize_serialize) (simp add: sst_fits_def)
  moreover have "length ?B - 4 = length ?raw" "4 \<le> length ?B" by (simp_all add: B)
  ultimately show ?thesis
    by (simp add: sr_load_bloom_def del: length_sst_bloom_block length_bf_serialize) (simp add: B)
qed


lemma sst_footer_offsets:
  "ft_data_offset (sst_footer opt es) = 16"
  "16 + ft_data_size (sst_footer opt es) = ft_index_offset (sst_footer opt es)"
  "ft_index_offset (sst_footer opt es) + ft_index_size (sst_footer opt es) =
     ft_bloom_offset (sst_footer opt es)"
  "ft_bloom_offset (sst_footer opt es) + ft_bloom_size (sst_footer opt es) =
     of_nat (length (sst_image opt es) - 64)"
  by (simp_all add: sst_footer_def Let_def length_sst_image)

lemma sr_load_image:
  assumes "sst_fits opt es"
  shows "sr_load (sst_image opt es) sr =
    Ret (Status_OK, sst_reader (sr_filepath sr) (sr_enable_bloom_filter sr) opt es)"
proof -
  let ?img = "sst_image opt es" and ?F = "ft_serialize (sst_footer opt es)"
  have size: "80 \<le> length ?img" by (simp add: length_sst_image)
  have header: "ifs_read 16 (ifs_at ?img 0) = (sst_header, in_stream (drop 16 ?img))"
    using ifs_read_slice [of 0 "[]" 16 sst_header] by (simp add: sst_image_def)
  have "ifs_read 64 (ifs_at (pre @ ?F) (length pre)) = (?F, in_stream [])" for pre
    using ifs_read_slice [of "length pre" pre 64 ?F "[]"] by simp
  from this [of "sst_header @ sst_data es @ idx_serialize (sst_index opt es) @ sst_bloom_block opt es"]
  have footer: "ifs_read 64 (ifs_at ?img (length ?img - 64)) = (?F, in_stream [])"
    by (simp add: sst_image_def)
  have magic: "decodeUint64LE sst_header = kSSTableHeaderMagic"
    "decodeUint32LE (drop 8 sst_header) = kSSTableVersion"
    by (simp_all add: sst_header_def)
  show ?thesis
    using size
    by (simp add: sr_load_def Let_def header footer magic ft_deserialize_serialize
        sst_footer_offsets sr_load_index_image [OF assms] sr_load_bloom_image [OF assms]
        sst_reader_def)
qed

lemma sr_open_image:
  assumes "faults w = []" "files w p = Some (sst_image opt es)" "sst_fits opt es"
  shows "sr_open p en sr w = Ret (Status_OK, sst_reader p en opt es, w)"
  using assms by (simp add: sr_open_def sr_close_def ifs_open_none sr_load_image)

section \<open>The full scan\<close>

text \<open>The entries as a reader delivers them: a tombstone without value.\<close>

definition sst_norm :: "KeyValueEntry \<Rightarrow> KeyValueEntry" where
  "sst_norm e = e\<lparr>kve_value := sst_value e\<rparr>"

lemma sst_norm_simps [simp]:
  "kve_key (sst_norm e) = kve_key e" "kve_type (sst_norm e) = kve_type e"
  "kve_value (sst_norm e) = sst_value e" "sst_rec_frame (sst_norm e) = sst_frame e"
  by (simp_all add: sst_norm_def sst_rec_frame_def sst_frame_def)

lemma sst_rec_valid_norm: "sst_ok opt es \<Longrightarrow> e \<in> set es \<Longrightarrow> sst_rec_valid (sst_norm e)"
  by (simp add: sst_ok_def sst_rec_valid_def)

lemma sst_record_size_norm: "sst_record_size (sst_norm e) = of_nat (length (sst_frame e))"
  by (simp add: sst_record_size_def length_sst_frame)

lemma sst_read_norm:
  "sst_rec_valid (sst_norm e) \<Longrightarrow>
     sst_read_record (in_stream (sst_frame e @ rest)) = Got (sst_norm e) (in_stream rest)"
  using sstf.read_enc [of "sst_norm e" rest] by simp

lemma pad_to_whole [simp]: "n = length bs \<Longrightarrow> pad_to n bs = bs"
  by (simp add: pad_to_def)

lemma sst_read_unchecked_whole:
  assumes "sst_rec_valid r"
  shows "sst_read_unchecked g (in_stream (sst_rec_frame r @ rest)) = Got r (in_stream rest)"
  using assms
  by (simp add: sst_read_unchecked_def sst_rec_frame_def frame_def frame_body_def Let_def
      ifs_read_whole ifs_read_len_whole sst_rec_valid_def unat_of_nat_u32)

lemma of_nat_less_u64: "m < n \<Longrightarrow> n < 2 ^ 64 \<Longrightarrow> (of_nat m :: u64) < of_nat n"
  by (simp add: word_less_nat_alt unat_of_nat_u64)

lemma sst_read_all_frames:
  assumes "\<forall>e\<in>set es. sst_rec_valid (sst_norm e)" "off + length (sst_data es) < 2 ^ 64"
  shows "sst_read_all_loop g (of_nat off) (of_nat (off + length (sst_data es)))
      (in_stream (sst_data es @ rest)) out = (Status_OK, out @ map sst_norm es)"
  using assms
proof (induction es arbitrary: off out)
  case Nil
  then show ?case by (simp add: sst_read_all_loop.simps sst_data_def)
next
  case (Cons e es)
  have data: "sst_data (e # es) = sst_frame e @ sst_data es" by (simp add: sst_data_def)
  have "(of_nat off :: u64) < of_nat (off + length (sst_data (e # es)))"
    using Cons.prems by (intro of_nat_less_u64) (simp_all add: data length_sst_frame)
  moreover have "sst_read_unchecked g (in_stream (sst_frame e @ sst_data es @ rest)) =
      Got (sst_norm e) (in_stream (sst_data es @ rest))"
    using Cons.prems(1) sst_read_unchecked_whole [of "sst_norm e"] by simp
  moreover have "sst_frame e \<noteq> []"
    using length_sst_frame [of e] by (auto simp del: length_0_conv)
  moreover have "sst_read_all_loop g (of_nat (off + length (sst_frame e)))
      (of_nat (off + length (sst_frame e) + length (sst_data es)))
      (in_stream (sst_data es @ rest)) (out @ [sst_norm e]) =
      (Status_OK, (out @ [sst_norm e]) @ map sst_norm es)"
    using Cons.prems by (intro Cons.IH) (simp_all add: data)
  ultimately show ?case
    by (subst sst_read_all_loop.simps) (simp add: data sst_record_size_norm add.assoc)
qed

lemma sr_readAll_image:
  assumes "faults w = []" "files w p = Some (sst_image opt es)" "sst_fits opt es"
  shows "sr_readAllRecords out (sst_reader p en opt es) w =
    ((Status_OK, out @ map sst_norm es), w)"
proof -
  have "\<forall>e\<in>set es. sst_rec_valid (sst_norm e)"
    using assms(3) sst_rec_valid_norm by (auto simp: sst_fits_def)
  moreover have "16 + length (sst_data es) < 2 ^ 64"
    using assms(3) by (simp add: sst_fits_def length_sst_image)
  ultimately have "sst_read_all_loop (uninit w) (of_nat 16) (of_nat (16 + length (sst_data es)))
      (in_stream (sst_data es @ drop (16 + length (sst_data es)) (sst_image opt es))) out =
      (Status_OK, out @ map sst_norm es)"
    by (rule sst_read_all_frames)
  moreover have "drop 16 (sst_image opt es) =
      sst_data es @ drop (16 + length (sst_data es)) (sst_image opt es)"
    by (simp add: sst_image_def)
  ultimately show ?thesis
    using assms(1,2)
    by (simp add: sr_readAllRecords_def ifs_open_none sst_reader_def Let_def ifs_at_in_stream
        sst_footer_offsets(1)) (simp add: sst_footer_def Let_def)
qed


section \<open>Lookup\<close>

text \<open>The map a sequence of entries stands for, and a lookup's answer according to a map.\<close>

definition kve_map :: "KeyValueEntry list \<Rightarrow> level_map" where
  "kve_map es =
     map_of (map (\<lambda>e. (kve_key e, if kve_isTombstone e then None else Some (kve_value e))) es)"

definition answers :: "level_map \<Rightarrow> bytes \<Rightarrow> Result \<times> bool \<Rightarrow> bool" where
  "answers m key r \<longleftrightarrow>
    (case m key of
       Some (Some v) \<Rightarrow> r = (Result_OK v, False)
     | Some None \<Rightarrow> (\<exists>msg. r = (Result_NotFound msg, True))
     | None \<Rightarrow> (\<exists>msg. r = (Result_NotFound msg, False)))"

lemma answers_cong: "m k = m' k \<Longrightarrow> answers m k r = answers m' k r"
  by (simp add: answers_def)

lemma kve_map_simps [simp]:
  "kve_map [] = Map.empty"
  "kve_map (e # es) =
     (kve_map es)(kve_key e \<mapsto> (if kve_isTombstone e then None else Some (kve_value e)))"
  by (simp_all add: kve_map_def)

lemma kve_map_append: "kve_map (xs @ ys) = kve_map ys ++ kve_map xs"
  by (simp add: kve_map_def)

lemma kve_map_None: "kve_map es k = None \<longleftrightarrow> k \<notin> kve_key ` set es"
  by (induction es) auto

lemma kve_map_norm [simp]: "kve_map (map sst_norm es) = kve_map es"
  by (induction es) (auto simp: kve_isTombstone_def sst_value_def)

lemma sst_scan_frames:
  assumes "\<forall>e\<in>set es. sst_rec_valid (sst_norm e)" "sorted_wrt (<) (map kve_key es)"
    and "off + length (sst_data es) < 2 ^ 64"
  shows "answers (kve_map es) key (sst_scan_loop key (of_nat off)
      (of_nat (off + length (sst_data es))) (in_stream (sst_data es @ rest)))"
  using assms
proof (induction es arbitrary: off)
  case Nil
  then show ?case by (auto simp: sst_scan_loop.simps sst_data_def answers_def)
next
  case (Cons e es)
  have data: "sst_data (e # es) = sst_frame e @ sst_data es" by (simp add: sst_data_def)
  have lt: "(of_nat off :: u64) < of_nat (off + length (sst_data (e # es)))"
    using Cons.prems by (intro of_nat_less_u64) (simp_all add: data length_sst_frame)
  have read: "sst_read_record (in_stream (sst_frame e @ sst_data es @ rest)) =
      Got (sst_norm e) (in_stream (sst_data es @ rest))"
    using Cons.prems(1) by (intro sst_read_norm) simp
  have ne: "sst_frame e \<noteq> []"
    using length_sst_frame [of e] by (auto simp del: length_0_conv)
  have step: "sst_scan_loop key (of_nat off) (of_nat (off + length (sst_data (e # es))))
      (in_stream (sst_data (e # es) @ rest)) =
    (if kve_key e = key then
       (if kve_type e = TOMBSTONE then
          (Result_NotFound (lit ''Key deleted (tombstone in SSTable)''), True)
        else (Result_OK (sst_value e), False))
     else if key < kve_key e then (Result_NotFound (lit ''Key not found in SSTable''), False)
     else sst_scan_loop key (of_nat (off + length (sst_frame e)))
       (of_nat (off + length (sst_frame e) + length (sst_data es))) (in_stream (sst_data es @ rest)))"
    using lt ne by (subst sst_scan_loop.simps) (simp add: data read sst_record_size_norm add.assoc)
  have IH: "answers (kve_map es) key (sst_scan_loop key (of_nat (off + length (sst_frame e)))
      (of_nat (off + length (sst_frame e) + length (sst_data es))) (in_stream (sst_data es @ rest)))"
    using Cons.prems by (intro Cons.IH) (simp_all add: data)
  consider "kve_key e = key" | "key < kve_key e" | "kve_key e < key" by fastforce
  then show ?case
  proof cases
    case 2
    then have "kve_map es key = None"
      using Cons.prems(2) by (auto simp: kve_map_None dest: less_trans)
    with 2 show ?thesis unfolding step by (auto simp: answers_def)
  next
    case 3
    then have "kve_map (e # es) key = kve_map es key" by auto
    moreover have "\<not> key < kve_key e" "kve_key e \<noteq> key" using 3 by auto
    ultimately show ?thesis
      using IH answers_cong [of "kve_map (e # es)" key "kve_map es"]
      unfolding step by (simp only: if_False)
  next
    case 1
    then show ?thesis
      unfolding step by (auto simp: answers_def kve_isTombstone_def sst_value_def)
  qed
qed

lemma sst_index_from_nth:
  "j < length (sst_index_from iv n off es) \<Longrightarrow>
     \<exists>m<length es. sst_index_from iv n off es ! j =
       \<lparr>ie_key = kve_key (es ! m), ie_offset = of_nat (off + length (sst_data (take m es)))\<rparr>"
proof (induction es arbitrary: n off j)
  case (Cons e es)
  have later: "\<exists>m<length (e # es). sst_index_from iv (Suc n) (off + length (sst_frame e)) es ! i =
      \<lparr>ie_key = kve_key ((e # es) ! m),
       ie_offset = of_nat (off + length (sst_data (take m (e # es))))\<rparr>"
    if "i < length (sst_index_from iv (Suc n) (off + length (sst_frame e)) es)" for i
  proof -
    from Cons.IH [OF that] obtain m where "m < length es"
      "sst_index_from iv (Suc n) (off + length (sst_frame e)) es ! i = \<lparr>ie_key = kve_key (es ! m),
        ie_offset = of_nat (off + length (sst_frame e) + length (sst_data (take m es)))\<rparr>"
      by blast
    then show ?thesis
      by (intro exI [of _ "Suc m"]) (simp add: sst_data_def add.assoc)
  qed
  show ?case
  proof (cases "n mod iv = 0")
    case True
    then show ?thesis
      using Cons.prems later [of "j - 1"] by (cases j) (auto simp: sst_data_def intro!: exI [of _ 0])
  next
    case False
    with Cons.prems later [of j] show ?thesis by simp
  qed
qed simp

lemma sst_index_from_sorted:
  "sorted_wrt (<) (map kve_key es) \<Longrightarrow> sorted_wrt (<) (map ie_key (sst_index_from iv n off es))"
proof (induction es arbitrary: n off)
  case (Cons e es)
  then show ?case
    using sst_index_from_keys [of iv "Suc n" "off + length (sst_frame e)" es] by auto
qed simp


text \<open>The range the index gives for a key: every record outside it has another key.\<close>

lemma sst_range:
  assumes "sorted_wrt (<) (map kve_key es)"
    and "data_end = of_nat (16 + length (sst_data es))"
  obtains m1 m2 where "m1 \<le> m2" "m2 \<le> length es"
    "findOffsetRange key (sst_index opt es) data_end =
      (of_nat (16 + length (sst_data (take m1 es))), of_nat (16 + length (sst_data (take m2 es))))"
    "\<forall>i<m1. kve_key (es ! i) < key" "\<forall>i. m2 \<le> i \<and> i < length es \<longrightarrow> key < kve_key (es ! i)"
proof (cases es)
  case Nil
  then show ?thesis
    using assms(2)
    by (intro that [of 0 0]) (simp_all add: findOffsetRange_def sst_index_def sst_data_def)
next
  case (Cons e es')
  let ?idx = "sst_index opt es"
  define it where "it = upper_bound key ?idx 0 (length ?idx)"
  have mono: "kve_key (es ! i) < kve_key (es ! j)" if "i < j" "j < length es" for i j
    using assms(1) that by (simp add: sorted_wrt_iff_nth_less)
  have first: "?idx \<noteq> []" "?idx ! 0 = \<lparr>ie_key = kve_key (es ! 0), ie_offset = of_nat 16\<rparr>"
    using Cons by (simp_all add: sst_index_def)
  have "\<forall>i. 0 + length ?idx \<le> i \<and> i < length ?idx \<longrightarrow> key < ie_key (?idx ! i)" by auto
  then have ub: "it \<le> length ?idx" "\<And>i. i < it \<Longrightarrow> ie_key (?idx ! i) \<le> key"
    "\<And>i. it \<le> i \<Longrightarrow> i < length ?idx \<Longrightarrow> key < ie_key (?idx ! i)"
    using upper_bound_split [of ?idx 0 "length ?idx" key]
      sst_index_from_sorted [OF assms(1), of "unat (sparse_index_interval opt)" 0 16]
    by (auto simp: it_def sst_index_def)
  have nth: "\<exists>m<length es. ?idx ! j =
      \<lparr>ie_key = kve_key (es ! m), ie_offset = of_nat (16 + length (sst_data (take m es)))\<rparr>"
    if "j < length ?idx" for j
    using that unfolding sst_index_def by (rule sst_index_from_nth)
  have range: "findOffsetRange key ?idx data_end =
      (if it = 0 then (of_nat 16, ie_offset (?idx ! 0))
       else (ie_offset (?idx ! (it - 1)), if it \<noteq> length ?idx then ie_offset (?idx ! it) else data_end))"
    using first(1) by (simp add: findOffsetRange_def it_def Let_def)
  have above: "\<forall>i. m \<le> i \<and> i < length es \<longrightarrow> key < kve_key (es ! i)" if "key < kve_key (es ! m)" for m
    using that mono [of m] by (metis le_neq_implies_less less_trans)
  show ?thesis
  proof (cases "it = 0")
    case True
    have "key < kve_key (es ! 0)" using ub(3) [of 0] True first by simp
    with True show ?thesis
      by (intro that [of 0 0]) (simp_all add: range first(2) above sst_data_def)
  next
    case False
    then obtain m1 where m1: "m1 < length es" "?idx ! (it - 1) =
        \<lparr>ie_key = kve_key (es ! m1), ie_offset = of_nat (16 + length (sst_data (take m1 es)))\<rparr>"
      using nth [of "it - 1"] ub(1) first(1) by (metis One_nat_def Suc_le_lessD Suc_pred not_gr_zero)
    then have le: "kve_key (es ! m1) \<le> key" using ub(2) [of "it - 1"] False by simp
    have below: "\<forall>i<m1. kve_key (es ! i) < key"
      using mono [OF _ m1(1)] le by (meson less_le_trans)
    show ?thesis
    proof (cases "it = length ?idx")
      case True
      have "findOffsetRange key ?idx data_end = (of_nat (16 + length (sst_data (take m1 es))),
          of_nat (16 + length (sst_data (take (length es) es))))"
        unfolding range using True False m1(2) assms(2) by simp
      with m1(1) below show ?thesis by (intro that [of m1 "length es"]) auto
    next
      case it: False
      then obtain m2 where m2: "m2 < length es" "?idx ! it =
          \<lparr>ie_key = kve_key (es ! m2), ie_offset = of_nat (16 + length (sst_data (take m2 es)))\<rparr>"
        using nth [of it] ub(1) by auto
      then have "key < kve_key (es ! m2)" using ub(1) ub(3) [of it] it by simp
      moreover have "m1 \<le> m2"
        using le \<open>key < kve_key (es ! m2)\<close> mono [of m2 m1] m1(1) by (meson leI less_le_trans less_asym)
      ultimately show ?thesis
        using m1 m2 below False it above [of m2] by (intro that [of m1 m2]) (simp_all add: range)
    qed
  qed
qed


lemma sst_data_append: "sst_data (xs @ ys) = sst_data xs @ sst_data ys"
  by (simp add: sst_data_def)

lemma answers_absent: "m k = None \<Longrightarrow> answers m k (Result_NotFound msg, False)"
  by (auto simp: answers_def)

lemma sr_get_image:
  assumes "faults w = []" "files w p = Some (sst_image opt es)" "sst_fits opt es"
  shows "answers (kve_map es) key (fst (sr_get key (sst_reader p en opt es) w)) \<and>
    snd (sr_get key (sst_reader p en opt es) w) = w"
proof (cases "en \<and> \<not> bf_possiblyContains (sst_bloom opt es) key")
  case True
  then have "key \<notin> set (map kve_key es)"
    unfolding sst_bloom_def by (meson bf.negative_sound bf_wf_new)
  then have "kve_map es key = None" by (simp add: kve_map_None)
  with True show ?thesis
    by (simp add: sr_get_def sst_reader_def answers_absent)
next
  case False
  have ok: "sorted_wrt (<) (map kve_key es)" and valid: "\<forall>e\<in>set es. sst_rec_valid (sst_norm e)"
    using assms(3) sst_rec_valid_norm by (auto simp: sst_fits_def sst_ok_def)
  have lt: "16 + length (sst_data es) < 2 ^ 64"
    using assms(3) by (simp add: sst_fits_def length_sst_image)
  have "ft_data_offset (sst_footer opt es) + ft_data_size (sst_footer opt es) =
      of_nat (16 + length (sst_data es))"
    by (simp add: sst_footer_def Let_def)
  from sst_range [OF ok this, of key opt] obtain m1 m2 where m: "m1 \<le> m2" "m2 \<le> length es"
    "findOffsetRange key (sst_index opt es)
      (ft_data_offset (sst_footer opt es) + ft_data_size (sst_footer opt es)) =
      (of_nat (16 + length (sst_data (take m1 es))), of_nat (16 + length (sst_data (take m2 es))))"
    "\<forall>i<m1. kve_key (es ! i) < key" "\<forall>i. m2 \<le> i \<and> i < length es \<longrightarrow> key < kve_key (es ! i)"
    by metis
  define pre mid post where "pre = take m1 es" and "mid = take (m2 - m1) (drop m1 es)"
    and "post = drop m2 es"
  have pm: "take m2 es = pre @ mid"
    using take_add [of m1 "m2 - m1" es] m(1) by (simp add: pre_def mid_def)
  have es: "es = pre @ mid @ post"
    using append_take_drop_id [of m2 es] by (simp only: pm post_def append_assoc)
  have len: "16 + length (sst_data pre) + length (sst_data mid) < 2 ^ 64"
    using lt by (simp add: es sst_data_append)
  let ?rest = "drop (16 + length (sst_data (pre @ mid))) (sst_image opt es)"
  have "answers (kve_map mid) key (sst_scan_loop key (of_nat (16 + length (sst_data pre)))
      (of_nat (16 + length (sst_data pre) + length (sst_data mid))) (in_stream (sst_data mid @ ?rest)))"
    using ok valid len by (intro sst_scan_frames) (simp_all add: es sorted_wrt_append)
  moreover have "kve_map es key = kve_map mid key"
  proof -
    have "key \<noteq> kve_key e" if e: "e \<in> set pre \<union> set post" for e
    proof -
      have "\<exists>i. (i < m1 \<or> m2 \<le> i \<and> i < length es) \<and> e = es ! i"
        using e m(1,2) unfolding pre_def post_def
        by (auto simp: in_set_conv_nth) (metis le_add1 less_diff_conv add.commute)
      then obtain i where "i < m1 \<or> m2 \<le> i \<and> i < length es" "e = es ! i"
        by blast
      with m(4,5) show ?thesis by auto
    qed
    then have "key \<notin> kve_key ` set pre" "key \<notin> kve_key ` set post" by blast+
    then have "kve_map pre key = None" "kve_map post key = None"
      by (simp_all add: kve_map_None)
    then show ?thesis
      by (simp add: es kve_map_append map_add_def split: option.splits)
  qed
  moreover have "drop (16 + length (sst_data pre)) (sst_image opt es) = sst_data mid @ ?rest"
    unfolding sst_image_def by (subst (1 3) es) (simp add: sst_data_append)
  moreover have "unat (of_nat (16 + length (sst_data pre)) :: u64) = 16 + length (sst_data pre)"
    using len by (intro unat_of_nat_u64) simp
  moreover have "sr_get key (sst_reader p en opt es) w =
    (sst_scan_loop key (of_nat (16 + length (sst_data pre)))
      (of_nat (16 + length (sst_data pre) + length (sst_data mid)))
      (ifs_at (sst_image opt es) (unat (of_nat (16 + length (sst_data pre)) :: u64))), w)"
    using assms(1,2) False m(3) unfolding pm pre_def [symmetric]
    by (auto simp: sr_get_def sr_scanRange_def ifs_open_none sst_reader_def sst_data_append add.assoc
        simp del: of_nat_add of_nat_numeral)
  ultimately show ?thesis
    using answers_cong [of "kve_map es" key "kve_map mid"] by (simp only: ifs_at_in_stream) simp
qed


section \<open>A table is a level\<close>

text \<open>
  A reader in its world; the map of the table is what a full scan of it delivers, and the
  reader is well formed when it was opened on a written table.
\<close>

type_synonym table_state = "SSTableReader \<times> world"

definition table_get :: "table_state \<Rightarrow> bytes \<Rightarrow> Result \<times> bool" where
  "table_get t key = fst (sr_get key (fst t) (snd t))"

definition table_abs :: "table_state \<Rightarrow> level_map" where
  "table_abs t = kve_map (snd (fst (sr_readAllRecords [] (fst t) (snd t))))"

definition table_wf :: "table_state \<Rightarrow> bool" where
  "table_wf t \<longleftrightarrow> faults (snd t) = [] \<and>
     (\<exists>p en opt es. fst t = sst_reader p en opt es \<and>
        files (snd t) p = Some (sst_image opt es) \<and> sst_fits opt es)"

lemma table_abs_image:
  assumes "faults w = []" "files w p = Some (sst_image opt es)" "sst_fits opt es"
  shows "table_abs (sst_reader p en opt es, w) = kve_map es"
  by (simp add: table_abs_def sr_readAll_image [OF assms])

lemma table_answers:
  assumes "table_wf t"
  shows "answers (table_abs t) key (table_get t key)"
proof -
  obtain p en opt es where "fst t = sst_reader p en opt es" and
    img: "faults (snd t) = []" "files (snd t) p = Some (sst_image opt es)" "sst_fits opt es"
    using assms by (auto simp: table_wf_def)
  then have t: "t = (sst_reader p en opt es, snd t)" by (metis prod.collapse)
  then have "table_abs t = kve_map es" using table_abs_image [OF img] by metis
  moreover have "table_get t key = fst (sr_get key (sst_reader p en opt es) (snd t))"
    using t by (metis fst_conv table_get_def)
  ultimately show ?thesis
    using sr_get_image [OF img] by simp
qed

interpretation table: level table_get table_abs table_wf
proof
  fix t k v assume "table_wf t" "table_abs t k = Some (Some v)"
  with table_answers [of t k] show "table_get t k = (Result_OK v, False)" by (simp add: answers_def)
next
  fix t k assume "table_wf t" "table_abs t k = Some None"
  with table_answers [of t k] show "\<exists>msg. table_get t k = (Result_NotFound msg, True)"
    by (simp add: answers_def)
next
  fix t k assume "table_wf t" "table_abs t k = None"
  with table_answers [of t k] show "\<exists>msg. table_get t k = (Result_NotFound msg, False)"
    by (simp add: answers_def)
qed

section \<open>Lookups in arbitrary files\<close>

text \<open>
  Whatever a file holds and wherever a lookup starts in it, a value it returns stands in the
  file, in a record with the key and a matching checksum.
\<close>

lemma sst_scan_loop_sound:
  "\<not> ifs_fail inp \<Longrightarrow> sst_scan_loop key cur end_offset inp = (res, tomb) \<Longrightarrow> r_ok res \<or> tomb \<Longrightarrow>
     \<exists>pre t v post. ifs_rest inp = pre @ frame t key v @ post \<and>
       (if tomb then t = TOMBSTONE else t \<noteq> TOMBSTONE \<and> r_value res = v)"
proof (induction key cur end_offset inp rule: sst_scan_loop.induct)
  case (1 key cur end_offset inp)
  show ?case
  proof (cases "cur < end_offset \<and> \<not> ifs_eof inp")
    case False
    then show ?thesis using "1.prems"(2,3) by (subst (asm) sst_scan_loop.simps) auto
  next
    case True
    show ?thesis
    proof (cases "sst_read_record inp")
      case (Stop s b)
      then have "\<not> ok s" by (auto simp: sst_read_record_def Let_def split: prod.splits if_splits)
      then show ?thesis
        using True Stop "1.prems"(2,3) by (subst (asm) sst_scan_loop.simps) auto
    next
      case (Got r inp')
      note rec = sst_read_record_sound [OF Got "1.prems"(1)]
      show ?thesis
      proof (cases "kve_key r = key")
        case True
        with \<open>cur < end_offset \<and> \<not> ifs_eof inp\<close> Got "1.prems"(2)
        have "(res, tomb) = (if kve_type r = TOMBSTONE
            then (Result_NotFound (lit ''Key deleted (tombstone in SSTable)''), True)
            else (Result_OK (kve_value r), False))"
          by (subst (asm) sst_scan_loop.simps) simp
        with rec True show ?thesis
          by (intro exI [of _ "[]"] exI [of _ "kve_type r"] exI [of _ "kve_value r"]
              exI [of _ "ifs_rest inp'"]) (auto simp: sst_rec_frame_def split: if_splits)
      next
        case False
        note ne = False
        show ?thesis
        proof (cases "key < kve_key r")
          case True
          with ne \<open>cur < end_offset \<and> \<not> ifs_eof inp\<close> Got "1.prems"(2,3) show ?thesis
            by (subst (asm) sst_scan_loop.simps) auto
        next
          case False
          with ne \<open>cur < end_offset \<and> \<not> ifs_eof inp\<close> Got "1.prems"(2)
          have "sst_scan_loop key (cur + sst_record_size r) end_offset inp' = (res, tomb)"
            by (subst (asm) sst_scan_loop.simps) simp
          moreover have "\<not> \<not> (cur < end_offset \<and> \<not> ifs_eof inp)"
            using \<open>cur < end_offset \<and> \<not> ifs_eof inp\<close> by simp
          ultimately obtain pre t v post where
            "ifs_rest inp' = pre @ frame t key v @ post"
            "if tomb then t = TOMBSTONE else t \<noteq> TOMBSTONE \<and> r_value res = v"
            using "1.IH" [OF _ Got ne False] rec "1.prems"(3) by blast
          with rec show ?thesis
            by (intro exI [of _ "sst_rec_frame r @ pre"] exI [of _ t] exI [of _ v] exI [of _ post]) simp
        qed
      qed
    qed
  qed
qed

section \<open>Properties\<close>

text \<open>
  C14: what is written is read back. A table written from fitting entries is opened by any
  reader, and the full scan of the opened table delivers the entries in order, tombstones
  without a value.
\<close>

theorem sst_write_then_scan:
  assumes "faults w = []" "sst_fits opt es"
  shows "\<exists>w'. sw_writeFromEntries p es opt w = Ret (Status_OK, w') \<and>
    sr_open p en sr w' = Ret (Status_OK, sst_reader p en opt es, w') \<and>
    sr_readAllRecords [] (sst_reader p en opt es) w' = ((Status_OK, map sst_norm es), w')"
proof -
  let ?w = "emit [EvTrunc p, EvAppend p (sst_image opt es)] w"
  have "sst_ok opt es" using assms(2) by (simp add: sst_fits_def)
  with assms(1) have "sw_writeFromEntries p es opt w = Ret (Status_OK, ?w)"
    by (rule sw_writeFromEntries_ok)
  moreover have w: "faults ?w = []" "files ?w p = Some (sst_image opt es)"
    using assms(1) by simp_all
  ultimately show ?thesis
    using sr_open_image [OF w assms(2)] sr_readAll_image [OF w assms(2), of "[]"]
    by (intro exI [of _ ?w]) simp
qed

lemma length_bf_bits_sst_bloom:
  "length (bf_bits (sst_bloom opt es)) = length (bf_bits
     (bf_new (if 0 < (of_nat (length es) :: u64) then of_nat (length es) else 100)
       (bloom_bits_per_key opt) (bloom_num_hashes opt)))"
  by (simp add: sst_bloom_def bf_fold_simps(1) [OF bf_wf_new])

lemma sample_entries_fit: "sst_fits default_options sample_entries"
proof -
  have b: "length (bf_bits (sst_bloom default_options sample_entries)) = 8"
    by (simp add: length_bf_bits_sst_bloom sample_entries_def default_options_def bf_new_def)
  then show ?thesis
    by (simp add: sst_fits_def sample_entries_ok length_sst_image length_idx_serialize)
      (simp add: sst_data_def sst_index_def sample_entries_def default_options_def
        length_sst_frame sst_value_def)
qed

theorem sst_write_then_scan_witness:
  "\<exists>w' sr'. sw_writeFromEntries [9] sample_entries default_options empty_world = Ret (Status_OK, w') \<and>
     sr_readAllRecords [] sr' w' = ((Status_OK, map sst_norm sample_entries), w')"
  using sst_write_then_scan [of empty_world default_options sample_entries "[9]" True sr_new]
    sample_entries_fit by (auto simp: empty_world_def)

text \<open>
  C12: lookups in a table are right. For a reader opened on a written table, with or without
  its filter, a lookup returns the value of the key's entry, or that the key is deleted when
  the entry is a tombstone, or that it is not found when there is none; so neither the filter,
  nor the binary search of the sparse index, nor the early end of the scan loses a key.
\<close>

theorem sst_get_correct:
  assumes "faults w = []" "files w p = Some (sst_image opt es)" "sst_fits opt es"
  shows "answers (kve_map es) key (fst (sr_get key (sst_reader p en opt es) w)) \<and>
    table_abs (sst_reader p en opt es, w) = kve_map es"
  using table_answers [of "(sst_reader p en opt es, w)" key] table_abs_image [OF assms] assms
  by (auto simp: table_wf_def table_get_def)

theorem sst_get_correct_witness:
  "fst (sr_get [1] (sst_reader [9] True default_options sample_entries)
     (empty_world\<lparr>files := [[9] \<mapsto> sst_image default_options sample_entries]\<rparr>)) =
   (Result_OK [7, 8], False)"
  using sst_get_correct [of "empty_world\<lparr>files := [[9] \<mapsto> sst_image default_options sample_entries]\<rparr>"
      "[9]" default_options sample_entries "[1]" True] sample_entries_fit
  by (simp add: empty_world_def answers_def sample_entries_def kve_isTombstone_def)


text \<open>
  C13: lookups invent nothing. Whatever the table's file holds, whatever footer, index and filter
  the reader has loaded and whatever calls fail: when a lookup returns a value, or that the key
  is deleted, the file contains a record of the key with that value, or a tombstone of the key,
  framed with a matching checksum.
\<close>

theorem sst_get_sound:
  assumes "sr_get key sr w = ((res, tomb), w')" "r_ok res \<or> tomb"
  shows "\<exists>content pre t v post. files w' (sr_filepath sr) = Some content \<and>
    content = pre @ frame t key v @ post \<and>
    (if tomb then t = TOMBSTONE else t \<noteq> TOMBSTONE \<and> r_value res = v)"
proof -
  obtain start_offset end_offset where scan:
    "sr_scanRange start_offset end_offset key sr w = ((res, tomb), w')"
    using assms by (auto simp: sr_get_def split: if_splits prod.splits)
  then obtain content where content: "ifs_open (sr_filepath sr) w = (Some content, w')"
    and loop: "sst_scan_loop key start_offset end_offset (ifs_at content (unat start_offset)) = (res, tomb)"
    using assms(2) by (auto simp: sr_scanRange_def split: prod.splits option.splits)
  have "files w' (sr_filepath sr) = Some content"
    using content by (auto simp: ifs_open_def split: prod.splits option.splits)
  moreover obtain pre t v post where "drop (unat start_offset) content = pre @ frame t key v @ post"
    and v: "if tomb then t = TOMBSTONE else t \<noteq> TOMBSTONE \<and> r_value res = v"
    using sst_scan_loop_sound [OF _ loop assms(2)] by auto
  then have "content = (take (unat start_offset) content @ pre) @ frame t key v @ post"
    by (metis append.assoc append_take_drop_id)
  ultimately show ?thesis using v by blast
qed

theorem sst_get_sound_witness:
  "\<exists>pre t post. sst_image default_options sample_entries = pre @ frame t [1] [7, 8] @ post"
proof -
  let ?w = "empty_world\<lparr>files := [[9] \<mapsto> sst_image default_options sample_entries]\<rparr>"
  have "answers (kve_map sample_entries) [1]
      (fst (sr_get [1] (sst_reader [9] True default_options sample_entries) ?w))"
    using sr_get_image [of ?w "[9]" default_options sample_entries "[1]" True] sample_entries_fit
    by (simp add: empty_world_def)
  then obtain w' where get: "sr_get [1] (sst_reader [9] True default_options sample_entries) ?w =
      ((Result_OK [7, 8], False), w')"
    by (cases "sr_get [1] (sst_reader [9] True default_options sample_entries) ?w")
      (auto simp: answers_def sample_entries_def kve_isTombstone_def)
  have "w' = ?w"
    using sr_get_image [of ?w "[9]" default_options sample_entries "[1]" True] sample_entries_fit get
    by (simp add: empty_world_def)
  with sst_get_sound [OF get] show ?thesis by (auto simp: sst_reader_def)
qed

text \<open>
  C26: the blocks of a table survive their serialised forms. An index of fewer than \<open>2^32\<close>
  entries with keys shorter than that, a filter of less than 4 GiB, whatever follows it, and a
  footer are read back as they were; a footer is accepted precisely when it has its 64 bytes and
  ends with the magic number.
\<close>

theorem sst_blocks_roundtrip:
  assumes "length es < 2 ^ 32" "\<forall>e\<in>set es. length (ie_key e) < 2 ^ 32"
    and "length (bf_bits f) + 8 < 2 ^ 32"
  shows "idx_deserialize (idx_serialize es) = Ret es \<and>
    bf_deserialize (bf_serialize f @ rest) (length (bf_serialize f)) = Ret f \<and>
    ft_deserialize (ft_serialize ft) out = (Status_OK, ft) \<and>
    (fst (ft_deserialize data out) = Status_OK \<longleftrightarrow>
      length data = 64 \<and> decodeUint64LE (drop 56 data) = kSSTableFooterMagic)"
  using idx_deserialize_serialize [OF assms(1,2)] bf_deserialize_serialize [OF assms(3)]
    ft_deserialize_serialize footer_accepted_iff by blast

theorem sst_blocks_roundtrip_witness:
  "idx_deserialize (idx_serialize [\<lparr>ie_key = [1], ie_offset = 16\<rparr>, \<lparr>ie_key = [3], ie_offset = 50\<rparr>]) =
     Ret [\<lparr>ie_key = [1], ie_offset = 16\<rparr>, \<lparr>ie_key = [3], ie_offset = 50\<rparr>] \<and>
   bf_deserialize (bf_serialize \<lparr>bf_bits = [3, 200], bf_num_hashes = 7\<rparr> @ [1, 2, 3, 4]) 10 =
     Ret \<lparr>bf_bits = [3, 200], bf_num_hashes = 7\<rparr> \<and>
   ft_deserialize (ft_serialize default_footer) default_footer = (Status_OK, default_footer)"
  using sst_blocks_roundtrip [of "[\<lparr>ie_key = [1], ie_offset = 16\<rparr>, \<lparr>ie_key = [3], ie_offset = 50\<rparr>]"
      "\<lparr>bf_bits = [3, 200], bf_num_hashes = 7\<rparr>" "[1, 2, 3, 4]" default_footer default_footer]
  by simp

lemma sst_unchecked_damaged:
  assumes "sst_rec_valid r" "kve_key r @ kve_value r = xs @ b # ys" "b \<noteq> b'"
  shows "sst_read_unchecked g
      (in_stream (frame_header (kve_type r) (kve_key r) (kve_value r) @ xs @ b' # ys @
        encodeUint32LE (crc32 (frame_body (kve_type r) (kve_key r) (kve_value r)) 0) @ rest)) =
    Stop (Status_Corruption (lit ''Record CRC mismatch in SSTable readAllRecords'')) False"
proof -
  let ?h = "frame_header (kve_type r) (kve_key r) (kve_value r)"
  let ?crc = "crc32 (frame_body (kve_type r) (kve_key r) (kve_value r)) 0"
  have "length (xs @ b' # ys) = length (kve_key r) + length (kve_value r)"
    using arg_cong [OF assms(2), of length] by simp
  then obtain k v where kv: "xs @ b' # ys = k @ v" "length k = length (kve_key r)"
    "length v = length (kve_value r)"
    by (metis (no_types) append_take_drop_id length_append length_drop length_take
        add_diff_cancel_left' min_absorb2 le_add1)
  have lim: "length (kve_key r) < 2 ^ 32" "length (kve_value r) < 2 ^ 32"
    using assms(1) by (simp_all add: sst_rec_valid_def)
  have rd: "ifs_read_len (of_nat (length (kve_key r))) (in_stream (k @ bs)) = (k, in_stream bs)"
    "ifs_read_len (of_nat (length (kve_value r))) (in_stream (v @ bs)) = (v, in_stream bs)" for bs
    using ifs_read_len_whole [of k bs] ifs_read_len_whole [of v bs] lim kv(2,3) by simp_all
  have "crc32 (?h @ xs @ b' # ys) 0 \<noteq> crc32 (?h @ kve_key r @ kve_value r) 0"
    using crc32_byte_change [of "?h @ xs" b' ys 0 b] assms(2,3) by simp
  then have crc: "crc32 (?h @ k @ v) 0 \<noteq> ?crc" by (simp add: frame_body_def kv(1))
  have eq: "?h @ xs @ b' # ys @ encodeUint32LE ?crc @ rest = ?h @ k @ v @ encodeUint32LE ?crc @ rest"
    using kv(1) by (metis append.assoc append_Cons)
  show ?thesis
    unfolding eq using crc kv(2,3) lim
    by (simp add: sst_read_unchecked_def Let_def ifs_read_whole rd unat_of_nat_u32)
qed

text \<open>
  C16: a damaged record is never delivered. If a byte of the key or value of a record has
  changed on disk, the full scan stops at it with a corruption, after the records before it.
\<close>

theorem sst_scan_detects_damage:
  assumes "faults w = []" "sst_fits opt (pre @ r # post)"
    and "kve_key r @ sst_value r = xs @ b # ys" "b \<noteq> b'"
    and "files w p = Some (sst_header @ sst_data pre @
      frame_header (kve_type r) (kve_key r) (sst_value r) @ xs @ b' # ys @
      encodeUint32LE (crc32 (frame_body (kve_type r) (kve_key r) (sst_value r)) 0) @ rest)"
  shows "sr_readAllRecords [] (sst_reader p en opt (pre @ r # post)) w =
    ((Status_Corruption (lit ''Record CRC mismatch in SSTable readAllRecords''), map sst_norm pre), w)"
proof -
  let ?es = "pre @ r # post"
  let ?d = "16 + length (sst_data ?es)"
  have valid: "sst_rec_valid (sst_norm e)" if "e \<in> set ?es" for e
    using assms(2) sst_rec_valid_norm that by (auto simp: sst_fits_def)
  have lt: "?d < 2 ^ 64" using assms(2) by (simp add: sst_fits_def length_sst_image)
  let ?bad = "frame_header (kve_type r) (kve_key r) (sst_value r) @ xs @ b' # ys @
    encodeUint32LE (crc32 (frame_body (kve_type r) (kve_key r) (sst_value r)) 0) @ rest"
  let ?msg = "Status_Corruption (lit ''Record CRC mismatch in SSTable readAllRecords'')"
  have bad: "sst_read_unchecked (uninit w) (in_stream ?bad) = Stop ?msg False"
    using sst_unchecked_damaged [OF valid [of r], of xs b ys b' "uninit w" rest] assms(3,4) by auto
  have loop: "sst_read_all_loop (uninit w) (of_nat off) (of_nat ?d) (in_stream (sst_data us @ ?bad)) out =
      (?msg, out @ map sst_norm us)"
    if "set us \<subseteq> set ?es" "off + length (sst_data us) < ?d" for us off out
    using that
  proof (induction us arbitrary: off out)
    case Nil
    then have "(of_nat off :: u64) < of_nat ?d" using lt by (intro of_nat_less_u64) simp_all
    then show ?case
      by (subst sst_read_all_loop.simps) (simp add: sst_data_def bad del: of_nat_add)
  next
    case (Cons u us)
    have data: "sst_data (u # us) = sst_frame u @ sst_data us" by (simp add: sst_data_def)
    have "(of_nat off :: u64) < of_nat ?d" using Cons.prems lt by (intro of_nat_less_u64) simp_all
    moreover have "sst_read_unchecked (uninit w) (in_stream (sst_frame u @ sst_data us @ ?bad)) =
        Got (sst_norm u) (in_stream (sst_data us @ ?bad))"
      using sst_read_unchecked_whole [OF valid [of u]] Cons.prems(1) by simp
    moreover have "sst_read_all_loop (uninit w) (of_nat (off + length (sst_frame u))) (of_nat ?d)
        (in_stream (sst_data us @ ?bad)) (out @ [sst_norm u]) =
        (?msg, (out @ [sst_norm u]) @ map sst_norm us)"
      using Cons.prems by (intro Cons.IH) (simp_all add: data)
    ultimately show ?case
      by (subst sst_read_all_loop.simps)
        (simp add: data sst_record_size_norm length_sst_frame del: of_nat_add, simp)
  qed
  have "sst_read_all_loop (uninit w) (of_nat 16) (of_nat ?d) (in_stream (sst_data pre @ ?bad)) [] =
      (?msg, [] @ map sst_norm pre)"
    by (rule loop) (auto simp: sst_data_append sst_data_def [of "_ # _"] length_sst_frame)
  then show ?thesis
    using assms(1,5)
    by (simp add: sr_readAllRecords_def ifs_open_none sst_reader_def Let_def ifs_at_in_stream
        sst_footer_offsets(1)) (simp add: sst_footer_def Let_def)
qed


theorem sst_scan_detects_damage_witness:
  "\<exists>content. fst (sr_readAllRecords [] (sst_reader [9] True default_options sample_entries)
       (empty_world\<lparr>files := [[9] \<mapsto> content]\<rparr>)) =
     (Status_Corruption (lit ''Record CRC mismatch in SSTable readAllRecords''), [])"
proof -
  let ?r = "hd sample_entries" and ?crc = "encodeUint32LE (crc32 (frame_body PUT [1] [7, 8]) 0)"
  let ?content = "sst_header @ frame_header PUT [1] [7, 8] @ [1, 7, 9] @ ?crc"
  let ?w = "empty_world\<lparr>files := [[9] \<mapsto> ?content]\<rparr>"
  have "sr_readAllRecords [] (sst_reader [9] True default_options ([] @ ?r # tl sample_entries)) ?w =
    ((Status_Corruption (lit ''Record CRC mismatch in SSTable readAllRecords''), map sst_norm []), ?w)"
  proof (rule sst_scan_detects_damage [where xs = "[1, 7]" and ys = "[]" and b = 8 and b' = 9
        and rest = "[]"])
    show "sst_fits default_options ([] @ ?r # tl sample_entries)"
      using sample_entries_fit by (simp add: sample_entries_def)
  qed (simp_all add: empty_world_def sample_entries_def sst_value_def kve_isTombstone_def sst_data_def)
  then show ?thesis by (intro exI [of _ ?content]) (simp add: sample_entries_def)
qed

text \<open>
  C40: the full scan trusts bytes it has not read. When a file ends after a record's value, the
  missing checksum is taken from an uninitialised array: the record is delivered exactly when
  those four bytes happen to be its checksum.
\<close>

theorem sst_scan_uses_uninitialised:
  assumes "length k < 2 ^ 32" "length v < 2 ^ 32"
  shows "(\<exists>r s. sst_read_unchecked garbage (in_stream (frame_body t k v)) = Got r s) \<longleftrightarrow>
    decodeUint32LE (map garbage [0..<4]) = crc32 (frame_body t k v) 0"
proof -
  have "ifs_read_len (of_nat (length v)) (in_stream v) = (v, in_stream [])"
    using ifs_read_len_whole [of v "[]"] assms(2) by simp
  moreover have "ifs_read 4 (in_stream []) = ([], \<lparr>ifs_rest = [], ifs_fail = True\<rparr>)"
    by (simp add: ifs_read_in_stream)
  ultimately show ?thesis
    using assms
    by (auto simp: sst_read_unchecked_def frame_body_def Let_def ifs_read_whole ifs_read_len_whole
        unat_of_nat_u32)
qed

theorem sst_scan_uses_uninitialised_witness:
  "\<exists>garbage r s. sst_read_unchecked garbage (in_stream (frame_body PUT [1] [])) = Got r s"
proof -
  let ?c = "encodeUint32LE (crc32 (frame_body PUT [1] []) 0)"
  have "map ((!) ?c) [0..<4] = ?c" using map_nth [of ?c] by simp
  then have "\<exists>r s. sst_read_unchecked ((!) ?c) (in_stream (frame_body PUT [1] [])) = Got r s"
    by (subst sst_scan_uses_uninitialised) simp_all
  then show ?thesis by blast
qed

definition crafted_footer :: SSTableFooter where
  "crafted_footer =
    \<lparr>ft_data_offset = 16, ft_data_size = 0, ft_index_offset = 16, ft_index_size = 2 ^ 63,
     ft_bloom_offset = 16 + 2 ^ 63, ft_bloom_size = 2 ^ 63, ft_record_count = 0, ft_flags = 0\<rparr>"

text \<open>
  C39: opening a table can throw. The offsets of the footer are only compared with each other,
  in arithmetic modulo \<open>2^64\<close>: an 80-byte file whose footer declares an index of \<open>2^63\<close> bytes
  passes, and the construction of the buffer for it raises an exception that nothing catches.
\<close>

theorem sst_open_throws:
  assumes "faults w = []" "files w p = Some (sst_header @ ft_serialize crafted_footer)"
  shows "sr_open p en sr w = Throw (lit ''cannot create std::vector larger than max_size()'')"
proof -
  let ?content = "sst_header @ ft_serialize crafted_footer"
  have "ifs_read 16 (ifs_at ?content 0) = (sst_header, in_stream (ft_serialize crafted_footer))"
    "ifs_read 64 (ifs_at ?content 16) = (ft_serialize crafted_footer, in_stream [])"
    using ifs_read_slice [of 0 "[]" 16 sst_header] ifs_read_slice [of 16 sst_header 64 _ "[]"]
    by simp_all
  moreover have "decodeUint64LE sst_header = kSSTableHeaderMagic"
    "decodeUint32LE (drop 8 sst_header) = kSSTableVersion"
    by (simp_all add: sst_header_def)
  ultimately show ?thesis
    using assms
    by (simp add: sr_open_def sr_load_def Let_def ifs_open_none sr_close_def
        ft_deserialize_serialize sr_load_index_def make_vector_def)
      (simp add: crafted_footer_def)
qed

theorem sst_open_throws_witness:
  "sr_open [9] True sr_new
     (empty_world\<lparr>files := [[9] \<mapsto> sst_header @ ft_serialize crafted_footer]\<rparr>) =
   Throw (lit ''cannot create std::vector larger than max_size()'')"
  by (rule sst_open_throws) (simp_all add: empty_world_def)

end
