(* ===== verification/Compaction.thy ===== *)
theory Compaction
  imports SSTable
begin

text \<open>
  \<^verbatim>\<open>src/compaction.cpp\<close>: the merge of several tables, from the oldest to the newest, into
  one. The merge itself is a pure function of the entries, proved against the merge of the
  levels they stand for; the protocol around it works through a temporary file.
\<close>

section \<open>The operation\<close>

text \<open>The loop over the inputs, with the merged map.\<close>

type_synonym merged = "(bytes \<times> KeyValueEntry) list"

definition merge_records :: "KeyValueEntry list \<Rightarrow> merged \<Rightarrow> merged" where
  "merge_records records merged = fold (\<lambda>r. smap_assign (kve_key r) r) records merged"

fun compact_read_inputs :: "path list \<Rightarrow> merged \<Rightarrow> world \<Rightarrow> (Status \<times> merged \<times> world) outcome" where
  "compact_read_inputs [] merged w = Ret (Status_OK, merged, w)"
| "compact_read_inputs (sst_path # paths) merged w =
     obind (sr_open sst_path False sr_new w) (\<lambda>(s, reader, w1).
       if \<not> ok s then Ret (s, merged, w1)
       else case sr_readAllRecords [] reader w1 of ((s, records), w2) \<Rightarrow>
         if \<not> ok s then Ret (s, merged, w2)
         else compact_read_inputs paths (merge_records records merged) w2)"

definition surviving_entries :: "merged \<Rightarrow> KeyValueEntry list" where
  "surviving_entries merged = filter (\<lambda>e. \<not> kve_isTombstone e) (map snd merged)"

definition compact_temp_path :: "path \<Rightarrow> path" where
  "compact_temp_path out = out @ lit ''.compact_tmp''"

fun compact_remove_old :: "path list \<Rightarrow> path \<Rightarrow> world \<Rightarrow> world" where
  "compact_remove_old [] out w = w"
| "compact_remove_old (old_path # paths) out w =
     compact_remove_old paths out (if old_path \<noteq> out then snd (fs_remove old_path w) else w)"

definition compact ::
  "path list \<Rightarrow> path \<Rightarrow> Options \<Rightarrow> bool \<Rightarrow> world \<Rightarrow> (Status \<times> world) outcome" where
  "compact input_paths out options remove_old w =
    (if input_paths = [] then
       Ret (Status_InvalidArgument (lit ''No SSTables provided for compaction''), w)
     else obind (compact_read_inputs input_paths [] w) (\<lambda>(s, merged, w1).
      if \<not> ok s then Ret (s, w1)
      else
       let temp_path = compact_temp_path out; w2 = snd (fs_remove temp_path w1) in
       obind (sw_writeFromEntries temp_path (surviving_entries merged) options w2) (\<lambda>(s, w3).
       if \<not> ok s then Ret (s, snd (fs_remove temp_path w3))
       else
        obind (sr_open temp_path True sr_new w3) (\<lambda>(s, verifier, w4).
        if \<not> ok s then
          Ret (Status_Corruption (lit ''Failed to verify compacted SSTable: '' @ st_message s),
               snd (fs_remove temp_path w4))
        else
         case fs_rename temp_path out w4 of (ec, w5) \<Rightarrow>
         if ec then
           (case fs_remove temp_path w5 of (ec, w6) \<Rightarrow>
             Ret (Status_IOError (lit ''Failed to rename temporary compacted SSTable: '' @
                    ec_message ec w6), w6))
         else Ret (Status_OK, if remove_old then compact_remove_old input_paths out w5 else w5)))))"

section \<open>The merge\<close>

definition compact_entries :: "KeyValueEntry list list \<Rightarrow> KeyValueEntry list" where
  "compact_entries ess = surviving_entries (merge_records (concat ess) [])"

text \<open>Every entry of the merged map stands under its own key.\<close>

definition keyed :: "merged \<Rightarrow> bool" where
  "keyed m \<longleftrightarrow> sorted_keys m \<and> (\<forall>(k, r)\<in>set m. kve_key r = k)"

lemma keyed_assign: "keyed m \<Longrightarrow> keyed (smap_assign (kve_key r) r m)"
  using set_smap_assign [of "kve_key r" r m] by (fastforce simp: keyed_def sorted_keys_assign)

lemma keyed_merge: "keyed m \<Longrightarrow> keyed (merge_records rs m)"
  unfolding merge_records_def by (induction rs arbitrary: m) (simp_all add: keyed_assign)

lemma keyed_Nil [simp]: "keyed []"
  by (simp add: keyed_def)

lemma merge_records_append: "merge_records (xs @ ys) m = merge_records ys (merge_records xs m)"
  by (simp add: merge_records_def)

definition kve_level :: "KeyValueEntry \<Rightarrow> bytes option" where
  "kve_level e = (if kve_isTombstone e then None else Some (kve_value e))"

text \<open>The level a merged map stands for.\<close>

definition merged_abs :: "merged \<Rightarrow> level_map" where
  "merged_abs m k = map_option kve_level (map_of m k)"

lemma merged_abs_assign:
  "keyed m \<Longrightarrow> merged_abs (smap_assign (kve_key r) r m) = (merged_abs m)(kve_key r \<mapsto> kve_level r)"
  by (auto simp: merged_abs_def fun_eq_iff keyed_def map_of_smap_assign)

lemma merged_abs_records:
  "keyed m \<Longrightarrow> sorted_wrt (<) (map kve_key rs) \<Longrightarrow>
     merged_abs (merge_records rs m) = merged_abs m ++ kve_map rs"
proof (induction rs arbitrary: m)
  case (Cons r rs)
  have r: "kve_key r \<notin> dom (kve_map rs)" and rs: "sorted_wrt (<) (map kve_key rs)"
    using Cons.prems(2) kve_map_None [of rs "kve_key r"] by auto
  have "merged_abs (merge_records (r # rs) m) =
      merged_abs (merge_records rs (smap_assign (kve_key r) r m))"
    by (simp add: merge_records_def)
  also have "\<dots> = merged_abs (smap_assign (kve_key r) r m) ++ kve_map rs"
    by (rule Cons.IH [OF keyed_assign [OF Cons.prems(1)] rs])
  also have "\<dots> = merged_abs m ++ (kve_map rs)(kve_key r \<mapsto> kve_level r)"
    unfolding merged_abs_assign [OF Cons.prems(1)] map_add_upd_left [OF r] by (rule map_add_upd [symmetric])
  finally show ?case by (simp only: kve_map_simps kve_level_def)
qed (simp add: merge_records_def)

lemma merged_levels:
  "keyed m \<Longrightarrow> \<forall>es\<in>set ess. sorted_wrt (<) (map kve_key es) \<Longrightarrow>
     merged_abs (merge_records (concat ess) m) = merged_abs m ++ merge_levels (map kve_map ess)"
proof (induction ess arbitrary: m)
  case (Cons es ess)
  then show ?case
    by (simp add: merge_records_append merge_levels_Cons merged_abs_records keyed_merge)
qed (simp add: merge_records_def)

lemma surviving_Cons:
  "surviving_entries ((k, r) # m) =
     (if kve_isTombstone r then surviving_entries m else r # surviving_entries m)"
  by (simp add: surviving_entries_def)

lemma keyed_Cons: "keyed ((k, r) # m) \<longleftrightarrow> kve_key r = k \<and> keyed m \<and> (\<forall>k'\<in>fst ` set m. k < k')"
  by (auto simp: keyed_def)

lemma surviving_keys: "keyed m \<Longrightarrow> kve_key ` set (surviving_entries m) \<subseteq> fst ` set m"
  by (force simp: surviving_entries_def keyed_def)

lemma surviving_sorted: "keyed m \<Longrightarrow> sorted_wrt (<) (map kve_key (surviving_entries m))"
proof (induction m)
  case (Cons kr m)
  obtain k r where "kr = (k, r)" by (cases kr)
  with Cons surviving_keys [of m] show ?case
    by (fastforce simp: surviving_Cons keyed_Cons)
qed (simp add: surviving_entries_def)

lemma kve_map_surviving: "keyed m \<Longrightarrow> kve_map (surviving_entries m) = purge (merged_abs m)"
proof (induction m)
  case Nil
  then show ?case by (simp add: surviving_entries_def purge_def merged_abs_def fun_eq_iff)
next
  case (Cons kr m)
  obtain k r where kr: "kr = (k, r)" by (cases kr)
  have m: "keyed m" "kve_key r = k" and above: "map_of m k = None"
    using Cons.prems by (auto simp: kr keyed_Cons map_of_eq_None_iff)
  have abs: "merged_abs (kr # m) = (merged_abs m)(k \<mapsto> kve_level r)"
    by (simp add: merged_abs_def fun_eq_iff kr)
  have none: "merged_abs m k = None" by (simp add: merged_abs_def above)
  show ?case
  proof (cases "kve_isTombstone r")
    case True
    with none show ?thesis
      by (auto simp: kr surviving_Cons Cons.IH [OF m(1)] abs [unfolded kr] purge_def kve_level_def fun_eq_iff)
  next
    case False
    then show ?thesis
      by (auto simp: kr surviving_Cons Cons.IH [OF m(1)] abs [unfolded kr] purge_def kve_level_def m(2)
          fun_eq_iff)
  qed
qed

lemma compact_entries_sorted: "sorted_wrt (<) (map kve_key (compact_entries ess))"
  unfolding compact_entries_def by (intro surviving_sorted keyed_merge keyed_Nil)

lemma kve_map_compact_entries:
  assumes "\<forall>es\<in>set ess. sorted_wrt (<) (map kve_key es)"
  shows "kve_map (compact_entries ess) = purge (merge_levels (map kve_map ess))"
proof -
  have "merged_abs [] = Map.empty" by (simp add: merged_abs_def fun_eq_iff)
  with merged_levels [OF keyed_Nil assms] kve_map_surviving [OF keyed_merge [OF keyed_Nil]]
  show ?thesis by (simp add: compact_entries_def)
qed


section \<open>A run without faults\<close>

text \<open>The tables on disk: path, the options they were written with, entries.\<close>

type_synonym disk_table = "path \<times> Options \<times> KeyValueEntry list"

definition on_disk :: "world \<Rightarrow> disk_table \<Rightarrow> bool" where
  "on_disk w t \<longleftrightarrow> (case t of (p, opt, es) \<Rightarrow>
     files w p = Some (sst_image opt es) \<and> sst_fits opt es)"

definition table_entries :: "disk_table \<Rightarrow> KeyValueEntry list" where
  "table_entries t = map sst_norm (snd (snd t))"

definition table_level :: "disk_table \<Rightarrow> level_map" where
  "table_level t = kve_map (snd (snd t))"

text \<open>The entries of the compacted table.\<close>

definition compacted :: "disk_table list \<Rightarrow> KeyValueEntry list" where
  "compacted ts = compact_entries (map table_entries ts)"

lemma compact_read_inputs_ok:
  "faults w = [] \<Longrightarrow> \<forall>t\<in>set ts. on_disk w t \<Longrightarrow>
     compact_read_inputs (map fst ts) m w =
       Ret (Status_OK, merge_records (concat (map table_entries ts)) m, w)"
proof (induction ts arbitrary: m)
  case (Cons t ts)
  obtain p opt es where t: "t = (p, opt, es)" by (cases t)
  with Cons.prems have tab: "files w p = Some (sst_image opt es)" "sst_fits opt es"
    by (simp_all add: on_disk_def)
  show ?case
    using Cons.IH Cons.prems sr_open_image [OF Cons.prems(1) tab]
      sr_readAll_image [OF Cons.prems(1) tab, of "[]"]
    by (simp add: t table_entries_def merge_records_append)
qed (simp add: merge_records_def)

lemma compact_read_inputs_append:
  "compact_read_inputs xs m w = Ret (Status_OK, m', w') \<Longrightarrow>
     compact_read_inputs (xs @ ys) m w = compact_read_inputs ys m' w'"
proof (induction xs arbitrary: m w)
  case (Cons x xs)
  then show ?case
    by (cases "sr_open x False sr_new w") (auto split: if_splits prod.splits)
qed simp

lemma compact_remove_old_ok:
  "faults w = [] \<Longrightarrow> distinct paths \<Longrightarrow> out \<notin> set paths \<Longrightarrow> \<forall>p\<in>set paths. files w p \<noteq> None \<Longrightarrow>
     compact_remove_old paths out w = emit (map EvRemove paths) w"
proof (induction paths arbitrary: w)
  case (Cons p paths)
  have "\<forall>q\<in>set paths. files (emit [EvRemove p] w) q \<noteq> None"
    using Cons.prems by auto
  with Cons.IH [of "emit [EvRemove p] w"] Cons.prems show ?case
    by (auto simp: io_simps)
qed simp

lemma compact_temp_neq: "compact_temp_path out \<noteq> out"
  by (simp add: compact_temp_path_def flip: length_0_conv)

definition remove_events :: "path \<Rightarrow> world \<Rightarrow> io_event list" where
  "remove_events p w = (if files w p = None then [] else [EvRemove p])"

text \<open>The changes of the disk a successful run makes, in order.\<close>

definition compact_events ::
  "disk_table list \<Rightarrow> path \<Rightarrow> Options \<Rightarrow> bool \<Rightarrow> world \<Rightarrow> io_event list" where
  "compact_events ts out opt remove_old w =
     remove_events (compact_temp_path out) w @
     [EvTrunc (compact_temp_path out),
      EvAppend (compact_temp_path out) (sst_image opt (compacted ts)),
      EvRename (compact_temp_path out) out] @
     (if remove_old then map EvRemove (map fst ts) else [])"

definition compact_ready :: "disk_table list \<Rightarrow> path \<Rightarrow> Options \<Rightarrow> world \<Rightarrow> bool" where
  "compact_ready ts out opt w \<longleftrightarrow> faults w = [] \<and> ts \<noteq> [] \<and> distinct (map fst ts) \<and>
     out \<notin> fst ` set ts \<and> compact_temp_path out \<notin> fst ` set ts \<and> (\<forall>t\<in>set ts. on_disk w t) \<and>
     sst_fits opt (compacted ts)"

lemma compact_ok:
  assumes "compact_ready ts out opt w"
  shows "compact (map fst ts) out opt remove_old w =
    Ret (Status_OK, emit (compact_events ts out opt remove_old w) w)"
proof -
  let ?tmp = "compact_temp_path out" and ?img = "sst_image opt (compacted ts)"
  note ready = assms [unfolded compact_ready_def]
  let ?w2 = "emit (remove_events ?tmp w) w"
  let ?w3 = "emit [EvTrunc ?tmp, EvAppend ?tmp ?img] ?w2"
  let ?w5 = "emit [EvRename ?tmp out] ?w3"
  have f: "faults w = []" using ready by simp
  have rd: "compact_read_inputs (map fst ts) [] w =
      Ret (Status_OK, merge_records (concat (map table_entries ts)) [], w)"
    using ready by (intro compact_read_inputs_ok) simp_all
  have rm: "snd (fs_remove ?tmp w) = ?w2"
    using f by (simp add: io_simps remove_events_def)
  have "sst_ok opt (compacted ts)" using ready by (simp add: sst_fits_def)
  then have wr: "sw_writeFromEntries ?tmp (compacted ts) opt ?w2 = Ret (Status_OK, ?w3)"
    using f by (subst sw_writeFromEntries_ok) simp_all
  have tmp: "files ?w3 ?tmp = Some ?img" by simp
  have op: "sr_open ?tmp True sr_new ?w3 = Ret (Status_OK, sst_reader ?tmp True opt (compacted ts), ?w3)"
    using f ready by (intro sr_open_image tmp) simp_all
  have rn: "fs_rename ?tmp out ?w3 = (False, ?w5)"
    using f by (intro fs_rename_none [OF _ tmp]) simp
  have "files ?w5 p \<noteq> None" if "p \<in> set (map fst ts)" for p
  proof -
    from that have "p \<in> fst ` set ts" by simp
    then have "p \<noteq> ?tmp" "p \<noteq> out" "files w p \<noteq> None"
      using ready by (blast, blast, auto simp: on_disk_def)
    then show ?thesis by (simp add: remove_events_def)
  qed
  then have old: "compact_remove_old (map fst ts) out ?w5 = emit (map EvRemove (map fst ts)) ?w5"
    using f ready by (intro compact_remove_old_ok) simp_all
  have srv: "surviving_entries (merge_records (concat (map table_entries ts)) []) = compacted ts"
    by (simp add: compacted_def compact_entries_def)
  show ?thesis
    using ready
    by (simp add: compact_def rd Let_def rm srv wr op rn old compact_events_def del: emit_simps(2))
qed


section \<open>What a failing run leaves alone\<close>

lemma sw_append_touches:
  assumes "sw_append key v t sw w = Ret (s, sw', w')"
  shows "touches (os_path (sw_file sw)) w w' \<and> os_path (sw_file sw') = os_path (sw_file sw)"
proof -
  obtain f1 w1 where 1: "ofs_write (sw_record_buffer key v t) (sw_file sw) w = (f1, w1)"
    by (meson surj_pair)
  obtain f2 w2 where 2: "ofs_write (encodeUint32LE (crc32 (sw_record_buffer key v t) 0)) f1 w1 = (f2, w2)"
    by (meson surj_pair)
  have "touches (os_path (sw_file sw)) w w2 \<and> os_path f2 = os_path (sw_file sw)"
    using ofs_write_touches [OF 1] ofs_write_touches [OF 2] touches_trans by metis
  with assms 1 2 show ?thesis
    by (auto simp: sw_append_def Let_def split: if_splits)
qed

lemma sw_append_all_touches:
  "sw_append_all es sw w = Ret (s, sw', w') \<Longrightarrow>
     touches (os_path (sw_file sw)) w w' \<and> os_path (sw_file sw') = os_path (sw_file sw)"
proof (induction es arbitrary: sw w)
  case (Cons e es)
  then obtain s1 sw1 w1 where
    1: "sw_append (kve_key e) (kve_value e) (kve_type e) sw w = Ret (s1, sw1, w1)"
    and rest: "(if \<not> ok s1 then Ret (s1, sw1, w1) else sw_append_all es sw1 w1) = Ret (s, sw', w')"
    by (auto simp: obind_eq_Ret)
  from rest have "touches (os_path (sw_file sw1)) w1 w' \<and> os_path (sw_file sw') = os_path (sw_file sw1)"
    using Cons.IH [of sw1 w1] by (auto split: if_splits)
  with sw_append_touches [OF 1] show ?case by (metis touches_trans)
qed simp

text \<open>Writing to a stream any number of times, then flushing and closing it.\<close>

fun ofs_writes :: "bytes list \<Rightarrow> ofstream \<Rightarrow> world \<Rightarrow> ofstream \<times> world" where
  "ofs_writes [] s w = (s, w)"
| "ofs_writes (bs # bss) s w = (case ofs_write bs s w of (s1, w1) \<Rightarrow> ofs_writes bss s1 w1)"

lemma ofs_writes_touches:
  "ofs_writes bss s w = (s', w') \<Longrightarrow> touches (os_path s) w w' \<and> os_path s' = os_path s"
proof (induction bss arbitrary: s w)
  case (Cons bs bss)
  obtain s1 w1 where 1: "ofs_write bs s w = (s1, w1)" by (meson surj_pair)
  with Cons.prems have "ofs_writes bss s1 w1 = (s', w')" by simp
  from Cons.IH [OF this] ofs_write_touches [OF 1] show ?case by (metis touches_trans)
qed simp

lemma sw_finish_touches:
  assumes "sw_finish sw w = (s, sw', w')"
  shows "touches (os_path (sw_file sw)) w w'"
proof (cases "sw_is_open sw")
  case True
  then obtain bss f1 w1 f2 w2 f3 where "ofs_writes bss (sw_file sw) w = (f1, w1)"
    "ofs_flush f1 w1 = (f2, w2)" "ofs_close f2 w2 = (f3, w')"
    using assms that [of "[idx_serialize (sw_index sw), bf_serialize (sw_bloom_filter sw),
        encodeUint32LE (crc32 (bf_serialize (sw_bloom_filter sw)) 0), _]"]
    by (fastforce simp: sw_finish_def Let_def split: prod.splits)
  with ofs_writes_touches ofs_flush_touches ofs_close_touches show ?thesis
    by (metis touches_trans)
next
  case False
  with assms show ?thesis by (simp add: sw_finish_def)
qed

lemma sw_destroy_touches: "touches (os_path (sw_file sw)) w (sw_destroy sw w)"
  using ofs_close_touches [of "sw_file sw" w]
  by (cases "ofs_close (sw_file sw) w") (simp add: sw_destroy_def)


lemma sw_open_touches:
  assumes "sw_open p n sw w = (s, sw', w')"
  shows "touches p w w' \<and> os_path (sw_file sw') = p"
proof -
  obtain f1 w1 where 1: "ofs_open_trunc p w = (f1, w1)" by (meson surj_pair)
  obtain f2 w2 where 2: "ofs_write sst_header f1 w1 = (f2, w2)" by (meson surj_pair)
  have "touches p w w1" "os_path f1 = p" using ofs_open_trunc_touches [OF 1] by simp_all
  moreover from this have "touches p w w2" "os_path f2 = p"
    using ofs_write_touches [OF 2] touches_trans by auto
  ultimately show ?thesis
    using assms 1 2 by (auto simp: sw_open_def Let_def split: if_splits)
qed

lemma sw_writeFromEntries_touches:
  assumes "sw_writeFromEntries p es opt w = Ret (s, w')"
  shows "touches p w w'"
proof -
  obtain s1 sw1 w1 where 1: "sw_open p (of_nat (length es)) (sw_new opt) w = (s1, sw1, w1)"
    by (metis prod_cases3)
  have p1: "touches p w w1" "os_path (sw_file sw1) = p"
    using sw_open_touches [OF 1] by simp_all
  show ?thesis
  proof (cases "ok s1")
    case False
    with assms 1 p1 sw_destroy_touches [of sw1 w1] show ?thesis
      by (auto simp: sw_writeFromEntries_def dest: touches_trans)
  next
    case True
    with assms 1 obtain s2 sw2 w2 where 2: "sw_append_all es sw1 w1 = Ret (s2, sw2, w2)"
      and rest: "(if \<not> ok s2 then Ret (s2, sw_destroy sw2 w2)
        else case sw_finish sw2 w2 of (s, sw3, w3) \<Rightarrow> Ret (s, sw_destroy sw3 w3)) = Ret (s, w')"
      by (auto simp: sw_writeFromEntries_def obind_eq_Ret)
    have p2: "touches p w w2" "os_path (sw_file sw2) = p"
      using sw_append_all_touches [OF 2] p1 touches_trans by auto
    show ?thesis
    proof (cases "ok s2")
      case False
      with rest p2 sw_destroy_touches [of sw2 w2] show ?thesis by (auto dest: touches_trans)
    next
      case True
      obtain s3 sw3 w3 where 3: "sw_finish sw2 w2 = (s3, sw3, w3)" by (metis prod_cases3)
      then have "sw_destroy sw3 w3 = w3"
        by (auto simp: sw_finish_def sw_destroy_def Let_def split: if_splits prod.splits)
      with True rest 3 p2 sw_finish_touches [OF 3] show ?thesis by (auto dest: touches_trans)
    qed
  qed
qed

lemma sr_open_files: "sr_open p en sr w = Ret (s, sr', w') \<Longrightarrow> files w' = files w"
  by (auto simp: sr_open_def obind_eq_Ret Let_def dest: ifs_open_files
      split: prod.splits option.splits)

lemma sr_readAll_files: "sr_readAllRecords out sr w = (r, w') \<Longrightarrow> files w' = files w"
  by (auto simp: sr_readAllRecords_def Let_def dest: ifs_open_files
      split: if_splits prod.splits option.splits)

lemma compact_read_inputs_files:
  "compact_read_inputs paths m w = Ret (s, m', w') \<Longrightarrow> files w' = files w"
proof (induction paths arbitrary: m w)
  case (Cons p paths)
  then obtain s1 sr w1 where 1: "sr_open p False sr_new w = Ret (s1, sr, w1)"
    by (auto simp: obind_eq_Ret)
  obtain s2 rs w2 where 2: "sr_readAllRecords [] sr w1 = ((s2, rs), w2)"
    by (metis surj_pair)
  from Cons.prems 1 2 have "(\<not> ok s1 \<and> w' = w1) \<or> (\<not> ok s2 \<and> w' = w2) \<or>
      compact_read_inputs paths (merge_records rs m) w2 = Ret (s, m', w')"
    by (auto split: if_splits)
  with Cons.IH [of "merge_records rs m" w2] sr_open_files [OF 1] sr_readAll_files [OF 2]
  show ?case by auto
qed simp

lemma fs_remove_touches': "touches p w (snd (fs_remove p w))"
  using fs_remove_touches [of p w] by (metis prod.collapse)

lemma compact_failed_touches:
  assumes "compact paths out opt remove_old w = Ret (s, w')" "\<not> ok s"
  shows "touches (compact_temp_path out) w w'"
proof (cases "paths = []")
  case True
  with assms(1) show ?thesis by (simp add: compact_def)
next
  case False
  let ?tmp = "compact_temp_path out"
  from assms(1) False obtain s1 m w1 where 1: "compact_read_inputs paths [] w = Ret (s1, m, w1)"
    by (auto simp: compact_def obind_eq_Ret)
  have t1: "touches ?tmp w w1" using compact_read_inputs_files [OF 1] by (rule touches_files)
  show ?thesis
  proof (cases "ok s1")
    case False
    with assms(1) \<open>paths \<noteq> []\<close> 1 t1 show ?thesis by (simp add: compact_def)
  next
    case True
    let ?w2 = "snd (fs_remove ?tmp w1)"
    from assms(1) \<open>paths \<noteq> []\<close> 1 True obtain s3 w3 where
      3: "sw_writeFromEntries ?tmp (surviving_entries m) opt ?w2 = Ret (s3, w3)"
      by (auto simp: compact_def Let_def obind_eq_Ret)
    have t3: "touches ?tmp w w3"
      using t1 fs_remove_touches' sw_writeFromEntries_touches [OF 3] by (blast intro: touches_trans)
    show ?thesis
    proof (cases "ok s3")
      case False
      with assms(1) \<open>paths \<noteq> []\<close> 1 True 3 touches_trans [OF t3 fs_remove_touches'] show ?thesis
        by (simp add: compact_def Let_def)
    next
      case ok3: True
      with assms(1) \<open>paths \<noteq> []\<close> 1 True 3 obtain s4 sr w4 where
        4: "sr_open ?tmp True sr_new w3 = Ret (s4, sr, w4)"
        by (auto simp: compact_def Let_def obind_eq_Ret)
      have t4: "touches ?tmp w w4"
        using touches_trans [OF t3 touches_files [OF sr_open_files [OF 4]]] .
      obtain ec w5 where 5: "fs_rename ?tmp out w4 = (ec, w5)" by (meson surj_pair)
      obtain ec' w6 where 6: "fs_remove ?tmp w5 = (ec', w6)" by (meson surj_pair)
      have "\<not> ok s4 \<and> w' = snd (fs_remove ?tmp w4) \<or> ok s4 \<and> ec \<and> w' = w6"
        using assms \<open>paths \<noteq> []\<close> 1 True 3 ok3 4 5 6
        by (auto simp: compact_def Let_def split: if_splits)
      moreover have "touches ?tmp w w6" if "ec"
        using that 5 t4 fs_rename_failed [of ?tmp out w4 w5] fs_remove_touches [OF 6]
        by (auto simp: touches_def)
      ultimately show ?thesis
        using touches_trans [OF t4 fs_remove_touches'] by auto
    qed
  qed
qed


section \<open>Properties\<close>

text \<open>
  C9: a compaction merges. Merging the entries of increasing tables, from the oldest to the
  newest, and dropping the tombstones gives increasing entries that stand for the merge of the
  tables' levels without tombstones; so nothing a client can see changes.
\<close>

theorem compaction_merges:
  assumes "\<forall>es\<in>set ess. sorted_wrt (<) (map kve_key es)"
  shows "kve_map (compact_entries ess) = purge (merge_levels (map kve_map ess)) \<and>
    visible (kve_map (compact_entries ess)) = visible (merge_levels (map kve_map ess)) \<and>
    sorted_wrt (<) (map kve_key (compact_entries ess))"
  using assms by (simp add: kve_map_compact_entries visible_purge compact_entries_sorted)

theorem compaction_merges_witness:
  "visible (kve_map (compact_entries
     [[\<lparr>kve_key = [1], kve_value = [5], kve_type = PUT\<rparr>, \<lparr>kve_key = [2], kve_value = [6], kve_type = PUT\<rparr>],
      [\<lparr>kve_key = [1], kve_value = [], kve_type = TOMBSTONE\<rparr>]])) =
   [[2] \<mapsto> [6]]"
  by (subst compaction_merges [THEN conjunct2, THEN conjunct1])
    (auto simp: word_less_nat_alt merge_levels_Cons visible_def kve_isTombstone_def fun_eq_iff
      map_add_def split: option.splits)

lemma apply_removes: "apply_events (map EvRemove ps) d q = (if q \<in> set ps then None else d q)"
  by (induction ps arbitrary: d) auto

lemma compact_files:
  assumes "compact_ready ts out opt w"
  shows "apply_events (compact_events ts out opt remove_old w) (files w) q =
    (if q = out then Some (sst_image opt (compacted ts))
     else if q = compact_temp_path out \<or> remove_old \<and> q \<in> fst ` set ts then None
     else files w q)"
  using assms compact_temp_neq [of out]
  by (auto simp: compact_events_def apply_removes remove_events_def compact_ready_def
      simp del: map_map)

text \<open>
  C10: a compaction run does what it says. Without faults, and with its input tables on disk,
  it returns \<^verbatim>\<open>OK\<close>; the disk then holds the table of the merged entries at the output path,
  none of the inputs when the old ones are to be removed, no temporary file, and otherwise
  what it held.
\<close>

theorem compaction_run:
  assumes "compact_ready ts out opt w"
  shows "\<exists>w'. compact (map fst ts) out opt remove_old w = Ret (Status_OK, w') \<and>
    (\<forall>q. files w' q = (if q = out then Some (sst_image opt (compacted ts))
       else if q = compact_temp_path out \<or> remove_old \<and> q \<in> fst ` set ts then None
       else files w q))"
  using compact_ok [OF assms] compact_files [OF assms] by simp

definition sample_tables :: "disk_table list" where
  "sample_tables =
    [([8], default_options, sample_entries),
     ([9], default_options, [\<lparr>kve_key = [1], kve_value = [5], kve_type = PUT\<rparr>])]"

definition sample_disk :: world where
  "sample_disk =
     empty_world\<lparr>files := map_of (map (\<lambda>(p, opt, es). (p, sst_image opt es)) sample_tables)\<rparr>"

lemma sst_fits_single:
  assumes "length k + length v < 1000"
  shows "sst_fits default_options [\<lparr>kve_key = k, kve_value = v, kve_type = PUT\<rparr>]"
proof -
  let ?e = "\<lparr>kve_key = k, kve_value = v, kve_type = PUT\<rparr>"
  have b: "length (bf_bits (sst_bloom default_options [?e])) = 8"
    by (simp add: length_bf_bits_sst_bloom default_options_def bf_new_def)
  have "sst_ok default_options [?e]"
    using assms by (simp add: sst_ok_def default_options_def sst_value_def kve_isTombstone_def)
  then show ?thesis
    using assms
    by (simp add: sst_fits_def b length_sst_image length_idx_serialize)
      (simp add: sst_data_def sst_index_def default_options_def length_sst_frame sst_value_def
        kve_isTombstone_def)
qed

lemma compacted_sample: "compacted sample_tables = [\<lparr>kve_key = [1], kve_value = [5], kve_type = PUT\<rparr>]"
  by (simp add: compacted_def compact_entries_def sample_tables_def table_entries_def
      sample_entries_def sst_norm_def sst_value_def kve_isTombstone_def merge_records_def
      surviving_entries_def word_less_nat_alt)

lemma sample_disk_ready: "compact_ready sample_tables [10] default_options sample_disk"
proof -
  have "\<forall>t\<in>set sample_tables. on_disk sample_disk t"
    using sample_entries_fit
    by (simp add: sample_tables_def sample_disk_def on_disk_def sst_fits_single)
  moreover have "[8] \<noteq> compact_temp_path [10]" "[9] \<noteq> compact_temp_path [10]"
    by (simp_all add: compact_temp_path_def)
  ultimately show ?thesis
    unfolding compact_ready_def compacted_sample
    by (simp add: sst_fits_single) (simp add: sample_tables_def sample_disk_def empty_world_def)
qed

theorem compaction_run_witness:
  "\<exists>w'. compact [[8], [9]] [10] default_options True sample_disk = Ret (Status_OK, w') \<and>
     files w' [8] = None \<and> files w' [9] = None \<and>
     files w' [10] = Some (sst_image default_options [\<lparr>kve_key = [1], kve_value = [5], kve_type = PUT\<rparr>])"
  using compaction_run [OF sample_disk_ready, of True] compact_temp_neq [of "[10]"]
  unfolding compacted_sample by (auto simp: sample_tables_def)

text \<open>
  C11: a compaction that fails loses nothing. Whatever faults occur and whatever the files
  hold, when it returns a status other than \<^verbatim>\<open>OK\<close> every file but its own temporary one is as
  it was: the input tables are all there.
\<close>

theorem compaction_failure_safe:
  assumes "compact paths out opt remove_old w = Ret (s, w')" "\<not> ok s" "q \<noteq> compact_temp_path out"
  shows "files w' q = files w q"
  using compact_failed_touches [OF assms(1,2)] assms(3) by (simp add: touches_def)


theorem compaction_failure_safe_witness:
  "\<exists>s w'. compact [[8], [9], [7]] [10] default_options True sample_disk = Ret (s, w') \<and>
     files w' [8] = Some (sst_image default_options sample_entries)"
proof -
  have on: "\<forall>t\<in>set sample_tables. on_disk sample_disk t" "faults sample_disk = []"
    using sample_disk_ready by (simp_all add: compact_ready_def)
  have "compact_read_inputs [[7]] m sample_disk =
      Ret (Status_IOError (lit ''Failed to open SSTable: '' @ [7]), m, sample_disk)" for m
    using on(2) by (simp add: sr_open_def Let_def sr_close_def ifs_open_none)
      (simp add: sample_disk_def sample_tables_def)
  then have "compact_read_inputs ([[8], [9]] @ [[7]]) [] sample_disk =
      Ret (Status_IOError (lit ''Failed to open SSTable: '' @ [7]),
        merge_records (concat (map table_entries sample_tables)) [], sample_disk)"
    using compact_read_inputs_append [OF compact_read_inputs_ok [OF on(2,1)], of "[[7]]" "[]"]
    by (simp add: sample_tables_def)
  then obtain s w' where run: "compact [[8], [9], [7]] [10] default_options True sample_disk = Ret (s, w')"
    "\<not> ok s"
    by (simp add: compact_def)
  have "[8] \<noteq> compact_temp_path [10]" by (simp add: compact_temp_path_def)
  from compaction_failure_safe [OF run this]
  have "files w' [8] = Some (sst_image default_options sample_entries)"
    by (simp add: sample_disk_def sample_tables_def)
  with run show ?thesis by blast
qed

end
