(* ===== verification/KVStore.thy ===== *)
theory KVStore
  imports Compaction Wal
begin

text \<open>
  \<^verbatim>\<open>src/kv_store.cpp\<close>: the store. It owns a MemTable, the log, and the readers of the active
  tables; writes go through the log into the MemTable, which is flushed into a new table when
  it is full; reads go through the levels from the newest to the oldest.
\<close>

section \<open>State\<close>

record KVStore =
  kv_options :: Options
  kv_memtable :: MemTable
  kv_wal :: WAL
  kv_sstables :: "SSTableReader list"
  kv_is_open :: bool
  kv_db_path :: path
  kv_manifest_path :: path
  kv_wal_path :: path
  kv_next_sst_seq :: u64

definition kv_new :: "Options \<Rightarrow> KVStore" where
  "kv_new options =
    \<lparr>kv_options = options, kv_memtable = mt_new (memtable_size_threshold options),
     kv_wal = wal_new, kv_sstables = [], kv_is_open = False, kv_db_path = [],
     kv_manifest_path = [], kv_wal_path = [], kv_next_sst_seq = 1\<rparr>"

definition kv_close :: "KVStore \<Rightarrow> world \<Rightarrow> Status \<times> KVStore \<times> world" where
  "kv_close kv w =
    (if \<not> kv_is_open kv then (Status_OK, kv, w)
     else case wal_close (kv_wal kv) w of (_, l, w1) \<Rightarrow>
       (Status_OK,
        kv\<lparr>kv_wal := l, kv_sstables := [], kv_memtable := mt_clear (kv_memtable kv),
           kv_is_open := False\<rparr>, w1))"

section \<open>Opening\<close>

definition starts_with :: "bytes \<Rightarrow> bytes \<Rightarrow> bool" where
  "starts_with pre s \<longleftrightarrow> take (length pre) s = pre"

text \<open>The sequence number in a table's file name, when it has one; exceptions are swallowed.\<close>

definition kv_file_seq :: "bytes \<Rightarrow> u64 option" where
  "kv_file_seq fname =
    (if starts_with (lit ''sst_'') fname then
       (case stoull (takeWhile (\<lambda>c. c \<noteq> 46) (drop 4 fname)) of Ret n \<Rightarrow> Some n | _ \<Rightarrow> None)
     else None)"

definition kv_max_seq :: "bytes \<Rightarrow> u64 \<Rightarrow> u64" where
  "kv_max_seq fname max_seq =
    (case kv_file_seq fname of Some n \<Rightarrow> if max_seq < n then n else max_seq | None \<Rightarrow> max_seq)"

definition kv_read_manifest :: "path \<Rightarrow> world \<Rightarrow> bytes list \<times> world" where
  "kv_read_manifest manifest_path w =
    (if fs_exists manifest_path w then
       (case ifs_open manifest_path w of
         (None, w1) \<Rightarrow> ([], w1)
       | (Some content, w1) \<Rightarrow> (filter (\<lambda>line. line \<noteq> []) (getlines content), w1))
     else ([], w))"

text \<open>
  Loading the tables of the manifest: the status, the readers, the greatest sequence number.
  A name whose file does not exist is skipped.
\<close>

fun kv_load_sstables ::
  "bytes list \<Rightarrow> path \<Rightarrow> bool \<Rightarrow> SSTableReader list \<Rightarrow> u64 \<Rightarrow> world \<Rightarrow>
    (Status \<times> SSTableReader list \<times> u64 \<times> world) outcome" where
  "kv_load_sstables [] db enable readers max_seq w = Ret (Status_OK, readers, max_seq, w)"
| "kv_load_sstables (fname # fnames) db enable readers max_seq w =
    (let full_path = db @ lit ''/'' @ fname in
     if fs_exists full_path w then
       obind (sr_open full_path enable sr_new w) (\<lambda>(s, reader, w1).
         if \<not> ok s then
           Ret (Status_Corruption
                  (lit ''Failed opening SSTable listed in manifest: '' @ st_message s),
                readers, max_seq, w1)
         else kv_load_sstables fnames db enable (readers @ [reader]) (kv_max_seq fname max_seq) w1)
     else kv_load_sstables fnames db enable readers max_seq w)"

definition kv_replay_record :: "WALRecord \<Rightarrow> MemTable \<Rightarrow> MemTable" where
  "kv_replay_record r m =
    (if wr_type r = PUT then mt_put (wr_key r) (wr_value r) m
     else if wr_type r = TOMBSTONE then mt_remove (wr_key r) m
     else m)"

text \<open>The second half of \<^verbatim>\<open>open\<close>: replaying the log and opening it for appending.\<close>

definition kv_open_wal :: "KVStore \<Rightarrow> world \<Rightarrow> Status \<times> KVStore \<times> world" where
  "kv_open_wal kv w =
    (let wal_path = kv_db_path kv @ lit ''/wal.log'';
         kv = kv\<lparr>kv_wal_path := wal_path, kv_memtable := mt_clear (kv_memtable kv)\<rparr> in
     case (if fs_exists wal_path w then wal_replay wal_path kv_replay_record (kv_memtable kv) w
           else ((Status_OK, False, kv_memtable kv), w)) of
       ((s, had_truncation, m), w1) \<Rightarrow>
       let kv = kv\<lparr>kv_memtable := m\<rparr> in
       if \<not> ok s \<and> \<not> had_truncation then
         (Status_Corruption (lit ''WAL replay error: '' @ st_message s), kv, w1)
       else case wal_open wal_path (kv_wal kv) w1 of (s, l, w2) \<Rightarrow>
         if \<not> ok s then (s, kv\<lparr>kv_wal := l\<rparr>, w2)
         else (Status_OK, kv\<lparr>kv_wal := l, kv_is_open := True\<rparr>, w2))"

text \<open>\<^verbatim>\<open>open\<close> once a store that was open has been closed.\<close>

definition kv_open_closed ::
  "path \<Rightarrow> KVStore \<Rightarrow> world \<Rightarrow> (Status \<times> KVStore \<times> world) outcome" where
  "kv_open_closed path kv w =
    (if path = [] then
       Ret (Status_InvalidArgument (lit ''Database path cannot be empty''), kv, w)
     else
      let kv = kv\<lparr>kv_db_path := path\<rparr> in
      case (if fs_exists path w then (True, w) else fs_create_directories path w) of
        (created, w1) \<Rightarrow>
      if \<not> created then
        Ret (Status_IOError (lit ''Failed to create database directory: '' @ ec_message True w1), kv, w1)
      else
       let manifest_path = path @ lit ''/manifest.txt'';
           kv = kv\<lparr>kv_manifest_path := manifest_path\<rparr> in
       case kv_read_manifest manifest_path w1 of (fnames, w2) \<Rightarrow>
       obind (kv_load_sstables fnames path (enable_bloom_filter (kv_options kv)) [] 0 w2)
        (\<lambda>(s, readers, max_seq, w3).
          if \<not> ok s then Ret (s, kv\<lparr>kv_sstables := readers\<rparr>, w3)
          else Ret (kv_open_wal (kv\<lparr>kv_sstables := readers, kv_next_sst_seq := max_seq + 1\<rparr>) w3)))"

definition kv_open :: "path \<Rightarrow> KVStore \<Rightarrow> world \<Rightarrow> (Status \<times> KVStore \<times> world) outcome" where
  "kv_open path kv w =
    (case (if kv_is_open kv then snd (kv_close kv w) else (kv, w)) of
      (kv1, w1) \<Rightarrow> kv_open_closed path kv1 w1)"

section \<open>Flushing and compacting\<close>

definition sst_filename :: "u64 \<Rightarrow> bytes" where
  "sst_filename n =
    (let digits = decimal (unat n) in
     lit ''sst_'' @ replicate (6 - length digits) 48 @ digits @ lit ''.sst'')"

definition kv_generateSSTableFilename :: "KVStore \<Rightarrow> bytes \<times> KVStore" where
  "kv_generateSSTableFilename kv =
     (sst_filename (kv_next_sst_seq kv), kv\<lparr>kv_next_sst_seq := kv_next_sst_seq kv + 1\<rparr>)"

fun kv_write_names :: "SSTableReader list \<Rightarrow> ofstream \<Rightarrow> world \<Rightarrow> ofstream \<times> world" where
  "kv_write_names [] mf w = (mf, w)"
| "kv_write_names (r # rs) mf w =
    (case ofs_write (path_filename (sr_filepath r)) mf w of (mf1, w1) \<Rightarrow>
     case ofs_write [10] mf1 w1 of (mf2, w2) \<Rightarrow> kv_write_names rs mf2 w2)"

definition kv_updateManifest :: "KVStore \<Rightarrow> world \<Rightarrow> Status \<times> world" where
  "kv_updateManifest kv w =
    (let temp_manifest = kv_manifest_path kv @ lit ''.tmp'' in
     case ofs_open_trunc temp_manifest w of (mf, w1) \<Rightarrow>
     if \<not> os_open mf then
       (Status_IOError (lit ''Failed to open temporary manifest for writing''), w1)
     else
      case kv_write_names (kv_sstables kv) mf w1 of (mf2, w2) \<Rightarrow>
      case ofs_flush mf2 w2 of (mf3, w3) \<Rightarrow>
      case ofs_close mf3 w3 of (mf4, w4) \<Rightarrow>
      case fs_rename temp_manifest (kv_manifest_path kv) w4 of (ec, w5) \<Rightarrow>
      if ec then
        (case fs_remove temp_manifest w5 of (ec, w6) \<Rightarrow>
          (Status_IOError (lit ''Failed to update manifest: '' @ ec_message ec w6), w6))
      else (Status_OK, w5))"

fun kv_reopen :: "path list \<Rightarrow> bool \<Rightarrow> SSTableReader list \<Rightarrow> world \<Rightarrow>
    (SSTableReader list \<times> world) outcome" where
  "kv_reopen [] enable readers w = Ret (readers, w)"
| "kv_reopen (p # ps) enable readers w =
    (if fs_exists p w then
       obind (sr_open p enable sr_new w) (\<lambda>(s, r, w1).
         kv_reopen ps enable (if ok s then readers @ [r] else readers) w1)
     else kv_reopen ps enable readers w)"

definition kv_compactInternal ::
  "KVStore \<Rightarrow> world \<Rightarrow> (Status \<times> KVStore \<times> world) outcome" where
  "kv_compactInternal kv w =
    (if length (kv_sstables kv) < 2 then Ret (Status_OK, kv, w)
     else
      let input_paths = map sr_filepath (kv_sstables kv);
          enable = enable_bloom_filter (kv_options kv) in
      case kv_generateSSTableFilename kv of (compacted_filename, kv) \<Rightarrow>
      let compacted_path = kv_db_path kv @ lit ''/'' @ compacted_filename;
          kv = kv\<lparr>kv_sstables := []\<rparr> in
      obind (compact input_paths compacted_path (kv_options kv) True w) (\<lambda>(s, w1).
      if \<not> ok s then
        obind (kv_reopen input_paths enable [] w1) (\<lambda>(readers, w2).
          Ret (s, kv\<lparr>kv_sstables := readers\<rparr>, w2))
      else
        obind (sr_open compacted_path enable sr_new w1) (\<lambda>(s, new_reader, w2).
        if \<not> ok s then Ret (s, kv, w2)
        else
          let kv = kv\<lparr>kv_sstables := kv_sstables kv @ [new_reader]\<rparr> in
          case kv_updateManifest kv w2 of (s, w3) \<Rightarrow> Ret (s, kv, w3))))"

definition kv_flushInternal ::
  "KVStore \<Rightarrow> world \<Rightarrow> (Status \<times> KVStore \<times> world) outcome" where
  "kv_flushInternal kv w =
    (if mt_empty (kv_memtable kv) then Ret (Status_OK, kv, w)
     else
      case kv_generateSSTableFilename kv of (name, kv) \<Rightarrow>
      let sst_path = kv_db_path kv @ lit ''/'' @ name in
      obind (sw_writeFromMemTable sst_path (kv_memtable kv) (kv_options kv) w) (\<lambda>(s, w1).
      if \<not> ok s then Ret (s, kv, w1)
      else
      obind (sr_open sst_path (enable_bloom_filter (kv_options kv)) sr_new w1) (\<lambda>(s, reader, w2).
      if \<not> ok s then Ret (s, kv, w2)
      else
       let kv = kv\<lparr>kv_sstables := kv_sstables kv @ [reader]\<rparr> in
       case kv_updateManifest kv w2 of (s, w3) \<Rightarrow>
       if \<not> ok s then Ret (s, kv, w3)
       else
        let kv = kv\<lparr>kv_memtable := mt_clear (kv_memtable kv)\<rparr> in
        case wal_clear (kv_wal kv) w3 of (s, l, w4) \<Rightarrow>
        let kv = kv\<lparr>kv_wal := l\<rparr> in
        if \<not> ok s then Ret (s, kv, w4)
        else if compaction_threshold (kv_options kv) \<le> of_nat (length (kv_sstables kv)) then
          kv_compactInternal kv w4
        else Ret (Status_OK, kv, w4))))"

section \<open>The operations of a client\<close>

definition kv_flush_if_full :: "KVStore \<Rightarrow> world \<Rightarrow> (Status \<times> KVStore \<times> world) outcome" where
  "kv_flush_if_full kv w =
    (if mt_isFull (kv_memtable kv) then kv_flushInternal kv w else Ret (Status_OK, kv, w))"

definition kv_put ::
  "bytes \<Rightarrow> bytes \<Rightarrow> KVStore \<Rightarrow> world \<Rightarrow> (Status \<times> KVStore \<times> world) outcome" where
  "kv_put key val kv w =
    (if \<not> kv_is_open kv then Ret (Status_IOError (lit ''Database is not open''), kv, w)
     else if key = [] then Ret (Status_InvalidArgument (lit ''Key cannot be empty''), kv, w)
     else obind (kv_flush_if_full kv w) (\<lambda>(s, kv, w).
      if \<not> ok s then Ret (s, kv, w)
      else obind (wal_appendPut key val (kv_wal kv) w) (\<lambda>(s, l, w).
        let kv = kv\<lparr>kv_wal := l\<rparr> in
        if \<not> ok s then Ret (s, kv, w)
        else Ret (Status_OK, kv\<lparr>kv_memtable := mt_put key val (kv_memtable kv)\<rparr>, w))))"

definition kv_remove :: "bytes \<Rightarrow> KVStore \<Rightarrow> world \<Rightarrow> (Status \<times> KVStore \<times> world) outcome" where
  "kv_remove key kv w =
    (if \<not> kv_is_open kv then Ret (Status_IOError (lit ''Database is not open''), kv, w)
     else if key = [] then Ret (Status_InvalidArgument (lit ''Key cannot be empty''), kv, w)
     else obind (kv_flush_if_full kv w) (\<lambda>(s, kv, w).
      if \<not> ok s then Ret (s, kv, w)
      else obind (wal_appendDelete key (kv_wal kv) w) (\<lambda>(s, l, w).
        let kv = kv\<lparr>kv_wal := l\<rparr> in
        if \<not> ok s then Ret (s, kv, w)
        else Ret (Status_OK, kv\<lparr>kv_memtable := mt_remove key (kv_memtable kv)\<rparr>, w))))"

text \<open>The loop of \<^verbatim>\<open>get\<close> over the tables, the newest first.\<close>

fun kv_get_sstables :: "bytes \<Rightarrow> SSTableReader list \<Rightarrow> world \<Rightarrow> Result \<times> world" where
  "kv_get_sstables key [] w = (Result_NotFound (lit ''Key not found in KVStore''), w)"
| "kv_get_sstables key (r # rs) w =
    (case sr_get key r w of ((res, is_tombstone), w1) \<Rightarrow>
     if r_ok res then (res, w1)
     else if is_tombstone then (Result_NotFound (lit ''Key was deleted in SSTable''), w1)
     else kv_get_sstables key rs w1)"

definition kv_get :: "bytes \<Rightarrow> KVStore \<Rightarrow> world \<Rightarrow> Result \<times> world" where
  "kv_get key kv w =
    (if \<not> kv_is_open kv then (Result_Error (Status_IOError (lit ''Database is not open'')), w)
     else if key = [] then
       (Result_Error (Status_InvalidArgument (lit ''Key cannot be empty'')), w)
     else case mt_get key (kv_memtable kv) of (r, is_tombstone) \<Rightarrow>
       if r_ok r then (r, w)
       else if is_tombstone then (Result_NotFound (lit ''Key was deleted''), w)
       else kv_get_sstables key (rev (kv_sstables kv)) w)"

definition kv_flush :: "KVStore \<Rightarrow> world \<Rightarrow> (Status \<times> KVStore \<times> world) outcome" where
  "kv_flush kv w =
    (if \<not> kv_is_open kv then Ret (Status_IOError (lit ''Database is not open''), kv, w)
     else kv_flushInternal kv w)"

definition kv_compact :: "KVStore \<Rightarrow> world \<Rightarrow> (Status \<times> KVStore \<times> world) outcome" where
  "kv_compact kv w =
    (if \<not> kv_is_open kv then Ret (Status_IOError (lit ''Database is not open''), kv, w)
     else kv_compactInternal kv w)"

definition kv_sstableCount :: "KVStore \<Rightarrow> nat" where
  "kv_sstableCount kv = length (kv_sstables kv)"

definition kv_memtableSize :: "KVStore \<Rightarrow> u64" where
  "kv_memtableSize kv = approximate_size (kv_memtable kv)"

end
