(* ===== verification/KVNames.thy ===== *)
theory KVNames
  imports KVStore
begin

text \<open>
  The file names of a store: the names it generates for its tables are different for
  different sequence numbers, carry their number through the manifest and back, and never
  meet the manifest, the log or a temporary file.
\<close>

section \<open>Names of tables\<close>

definition sst_path :: "path \<Rightarrow> u64 \<Rightarrow> path" where
  "sst_path db n = db @ lit ''/'' @ sst_filename n"

definition sst_number :: "u64 \<Rightarrow> bytes" where
  "sst_number n = replicate (6 - length (decimal (unat n))) 48 @ decimal (unat n)"

lemma lit_values:
  "lit ''/'' = [47]" "lit ''sst_'' = [115, 115, 116, 95]" "lit ''.sst'' = [46, 115, 115, 116]"
  by (simp_all add: lit_def)

lemma sst_filename_eq: "sst_filename n = [115, 115, 116, 95] @ sst_number n @ [46, 115, 115, 116]"
  by (simp add: sst_filename_def Let_def sst_number_def lit_values)

lemma sst_number_digits: "c \<in> set (sst_number n) \<Longrightarrow> is_digit c"
  by (auto simp: sst_number_def is_digit_def[of 48] dest: decimal_digits split: if_splits)

lemma sst_number_nonempty: "sst_number n \<noteq> []"
  by (simp add: sst_number_def)

lemma sst_number_value: "digits_value (sst_number n) = unat n"
  by (simp add: sst_number_def digits_value_zeros digits_value_decimal)

lemma digit_not: "is_digit c \<Longrightarrow> c \<noteq> 46 \<and> c \<noteq> 47 \<and> c \<noteq> 10 \<and> c \<noteq> 45 \<and> c \<noteq> 43 \<and> \<not> is_space c"
  by (auto simp: is_digit_def is_space_def word_le_nat_alt)

lemma stoull_digits:
  assumes "ds \<noteq> []" "\<And>c. c \<in> set ds \<Longrightarrow> is_digit c" "digits_value ds < 2 ^ 64"
  shows "stoull ds = Ret (of_nat (digits_value ds))"
proof -
  have "is_digit (hd ds)" using assms(1,2) by simp
  note h = digit_not [OF this]
  have dw: "dropWhile is_space ds = ds" using h assms(1) by (cases ds) auto
  have tw: "takeWhile is_digit ds = ds" using assms(2) by simp
  show ?thesis using h assms(1,3) by (simp add: stoull_def Let_def dw tw)
qed

lemma kv_file_seq_filename: "kv_file_seq (sst_filename n) = Some n"
proof -
  have "takeWhile (\<lambda>c. c \<noteq> 46) (drop 4 (sst_filename n)) = sst_number n"
    using sst_number_digits digit_not by (auto simp: sst_filename_eq takeWhile_append2)
  moreover have "stoull (sst_number n) = Ret n"
    using stoull_digits [OF sst_number_nonempty sst_number_digits] sst_number_value [of n]
      unat_u64_lt [of n] by simp
  ultimately show ?thesis
    by (simp add: kv_file_seq_def starts_with_def lit_values) (simp add: sst_filename_eq)
qed

lemma sst_filename_inject: "sst_filename m = sst_filename n \<longleftrightarrow> m = n"
  by (metis kv_file_seq_filename option.inject)

lemma sst_filename_chars: "47 \<notin> set (sst_filename n)" "10 \<notin> set (sst_filename n)"
  "sst_filename n \<noteq> []"
  using sst_number_digits digit_not by (auto simp: sst_filename_eq)

lemma sst_path_inject: "sst_path db m = sst_path db n \<longleftrightarrow> m = n"
  by (simp add: sst_path_def sst_filename_inject)

lemma path_filename_sst_path: "path_filename (sst_path db n) = sst_filename n"
  by (simp add: sst_path_def lit_values path_filename_join sst_filename_chars)

section \<open>Names that never meet\<close>

definition manifest_path :: "path \<Rightarrow> path" where
  "manifest_path db = db @ lit ''/manifest.txt''"

definition manifest_tmp :: "path \<Rightarrow> path" where
  "manifest_tmp db = manifest_path db @ lit ''.tmp''"

definition wal_path :: "path \<Rightarrow> path" where
  "wal_path db = db @ lit ''/wal.log''"

lemma name_defs:
  "manifest_path db = db @ [47, 109] @ lit ''anifest.txt''"
  "manifest_tmp db = db @ [47, 109] @ lit ''anifest.txt.tmp''"
  "wal_path db = db @ [47, 119] @ lit ''al.log''"
  "sst_path db n = db @ [47, 115] @ [115, 116, 95] @ sst_number n @ [46, 115, 115, 116]"
  by (simp_all add: manifest_path_def manifest_tmp_def wal_path_def sst_path_def lit_def
      sst_filename_eq)

lemma compact_temp_sst_path: "last (compact_temp_path (sst_path db n)) = 112"
  by (simp add: compact_temp_path_def lit_def)

lemma last_sst_path: "last (sst_path db n) = 116"
  by (simp add: name_defs)

lemma names_distinct [simp]:
  "sst_path db n \<noteq> manifest_path db" "sst_path db n \<noteq> manifest_tmp db" "sst_path db n \<noteq> wal_path db"
  "manifest_path db \<noteq> wal_path db" "manifest_tmp db \<noteq> wal_path db"
  "manifest_path db \<noteq> manifest_tmp db"
  "compact_temp_path (sst_path db m) \<noteq> sst_path db n"
  "compact_temp_path (sst_path db m) \<noteq> manifest_path db"
  "compact_temp_path (sst_path db m) \<noteq> manifest_tmp db"
  "compact_temp_path (sst_path db m) \<noteq> wal_path db"
  using compact_temp_sst_path [of db m] last_sst_path [of db n]
  by (auto simp: name_defs compact_temp_path_def lit_def)

lemmas names_distinct_sym [simp] = names_distinct [symmetric]

end
