(* ===== verification/KVInvariant.thy ===== *)
theory KVInvariant
  imports KVNames
begin

text \<open>
  The invariant of an open store: what its tables, its manifest and its log hold on disk, and
  how the state in memory relates to that. Every operation keeps it, and the map that a client
  sees changes by exactly the operation, whether or not it flushes or compacts on the way.
\<close>

section \<open>The invariant\<close>

text \<open>The tables of a store: sequence number, options at the time of writing, entries.\<close>

type_synonym tab = "u64 \<times> Options \<times> KeyValueEntry list"

definition tab_disk :: "path \<Rightarrow> tab \<Rightarrow> disk_table" where
  "tab_disk db t = (sst_path db (fst t), snd t)"

definition tab_reader :: "path \<Rightarrow> bool \<Rightarrow> tab \<Rightarrow> SSTableReader" where
  "tab_reader db enable t = sst_reader (sst_path db (fst t)) enable (fst (snd t)) (snd (snd t))"

definition tab_level :: "tab \<Rightarrow> level_map" where
  "tab_level t = kve_map (snd (snd t))"

text \<open>The lines of the manifest, and the content that lists the tables.\<close>

definition manifest_lines :: "path \<Rightarrow> world \<Rightarrow> bytes list" where
  "manifest_lines db w =
    (case files w (manifest_path db) of None \<Rightarrow> []
     | Some c \<Rightarrow> filter (\<lambda>line. line \<noteq> []) (getlines c))"

definition manifest_content :: "tab list \<Rightarrow> bytes" where
  "manifest_content ts = concat (map (\<lambda>t. sst_filename (fst t) @ [10]) ts)"

text \<open>
  On disk: the tables, under distinct numbers, and a manifest that lists them; then a log of
  valid records.
\<close>

definition kv_tables :: "path \<Rightarrow> tab list \<Rightarrow> world \<Rightarrow> bool" where
  "kv_tables db ts w \<longleftrightarrow> dirs w db \<and> (\<forall>t\<in>set ts. on_disk w (tab_disk db t)) \<and>
     distinct (map fst ts) \<and> (\<forall>n\<in>fst ` set ts. n < - 1) \<and>
     manifest_lines db w = map (\<lambda>t. sst_filename (fst t)) ts"

definition kv_disk :: "path \<Rightarrow> tab list \<Rightarrow> WALRecord list \<Rightarrow> world \<Rightarrow> bool" where
  "kv_disk db ts rs w \<longleftrightarrow> kv_tables db ts w \<and>
     files w (wal_path db) = Some (concat (map wal_frame rs)) \<and> list_all wal_valid rs"

text \<open>
  In memory: a reader per table, the MemTable that replaying the log gives, the log open for
  appending, a next sequence number above those in use.
\<close>

definition kv_memory :: "tab list \<Rightarrow> WALRecord list \<Rightarrow> KVStore \<Rightarrow> bool" where
  "kv_memory ts rs kv \<longleftrightarrow> kv_is_open kv \<and> kv_db_path kv \<noteq> [] \<and>
     kv_manifest_path kv = manifest_path (kv_db_path kv) \<and>
     kv_wal_path kv = wal_path (kv_db_path kv) \<and>
     kv_sstables kv = map (tab_reader (kv_db_path kv) (enable_bloom_filter (kv_options kv))) ts \<and>
     kv_memtable kv =
       fold kv_replay_record rs (mt_new (memtable_size_threshold (kv_options kv))) \<and>
     wal_ready (kv_wal kv) \<and> wal_filepath (kv_wal kv) = wal_path (kv_db_path kv) \<and>
     (\<forall>n\<in>fst ` set ts. n < kv_next_sst_seq kv)"

definition kv_inv :: "tab list \<Rightarrow> WALRecord list \<Rightarrow> KVStore \<Rightarrow> world \<Rightarrow> bool" where
  "kv_inv ts rs kv w \<longleftrightarrow> faults w = [] \<and> kv_disk (kv_db_path kv) ts rs w \<and> kv_memory ts rs kv"

text \<open>What reads need of it: the manifest and the log do not matter to them.\<close>

definition kv_serves :: "tab list \<Rightarrow> WALRecord list \<Rightarrow> KVStore \<Rightarrow> world \<Rightarrow> bool" where
  "kv_serves ts rs kv w \<longleftrightarrow>
     faults w = [] \<and> (\<forall>t\<in>set ts. on_disk w (tab_disk (kv_db_path kv) t)) \<and> kv_memory ts rs kv"

lemma kv_inv_serves: "kv_inv ts rs kv w \<Longrightarrow> kv_serves ts rs kv w"
  by (simp add: kv_inv_def kv_disk_def kv_tables_def kv_serves_def)

text \<open>The map a client sees, from the state and the files alone.\<close>

definition kv_view :: "KVStore \<Rightarrow> world \<Rightarrow> bytes \<Rightarrow> bytes option" where
  "kv_view kv w =
     visible (merge_levels (map (\<lambda>r. table_abs (r, w)) (kv_sstables kv)) ++ mt_abs (kv_memtable kv))"

lemma tab_reader_level:
  assumes "faults w = []" "on_disk w (tab_disk db t)"
  shows "table_wf (tab_reader db en t, w) \<and> table_abs (tab_reader db en t, w) = tab_level t"
proof -
  obtain n opt es where t: "t = (n, opt, es)" by (cases t)
  with assms(2) have tab: "files w (sst_path db n) = Some (sst_image opt es)" "sst_fits opt es"
    by (simp_all add: on_disk_def tab_disk_def)
  show ?thesis
    using table_abs_image [OF assms(1) tab] assms(1) tab
    by (auto simp: t tab_reader_def tab_level_def table_wf_def)
qed

lemma kv_serves_levels:
  assumes "kv_serves ts rs kv w"
  shows "kv_view kv w = visible (merge_levels (map tab_level ts) ++ mt_abs (kv_memtable kv))"
proof -
  have "map (\<lambda>r. table_abs (r, w)) (kv_sstables kv) = map tab_level ts"
    using assms tab_reader_level by (simp add: kv_serves_def kv_memory_def)
  then show ?thesis by (simp add: kv_view_def)
qed

lemmas kv_view_levels = kv_serves_levels [OF kv_inv_serves]

section \<open>Reading\<close>

lemma sr_get_tab:
  assumes "faults w = []" "on_disk w (tab_disk db t)"
  shows "answers (tab_level t) key (fst (sr_get key (tab_reader db en t) w)) \<and>
    snd (sr_get key (tab_reader db en t) w) = w"
proof -
  obtain n opt es where t: "t = (n, opt, es)" by (cases t)
  with assms(2) have tab: "files w (sst_path db n) = Some (sst_image opt es)" "sst_fits opt es"
    by (simp_all add: on_disk_def tab_disk_def)
  show ?thesis
    using sr_get_image [OF assms(1) tab, of key en] by (simp add: t tab_reader_def tab_level_def)
qed

text \<open>What a read returns, according to the map a client sees.\<close>

definition reads :: "(bytes \<Rightarrow> bytes option) \<Rightarrow> bytes \<Rightarrow> Result \<Rightarrow> bool" where
  "reads view key r \<longleftrightarrow>
    (case view key of Some v \<Rightarrow> r = Result_OK v | None \<Rightarrow> (\<exists>msg. r = Result_NotFound msg))"

lemma kv_get_sstables_reads:
  assumes "faults w = []" "\<forall>t\<in>set ts. on_disk w (tab_disk db t)"
  shows "reads (visible (merge_levels (map tab_level ts))) key
      (fst (kv_get_sstables key (rev (map (tab_reader db en) ts)) w)) \<and>
    snd (kv_get_sstables key (rev (map (tab_reader db en) ts)) w) = w"
  using assms(2)
proof (induction ts rule: rev_induct)
  case Nil
  then show ?case by (auto simp: reads_def visible_def)
next
  case (snoc t ts)
  obtain res tomb where g: "sr_get key (tab_reader db en t) w = ((res, tomb), w)"
    using sr_get_tab [OF assms(1), of db t key en] snoc.prems by (metis (no_types) in_set_conv_decomp
        prod.collapse)
  have "answers (tab_level t) key (res, tomb)"
    using sr_get_tab [OF assms(1), of db t key en] snoc.prems by (simp add: g)
  then consider v where "tab_level t key = Some (Some v)" "res = Result_OK v"
    | msg where "tab_level t key = Some None" "res = Result_NotFound msg" "tomb"
    | msg where "tab_level t key = None" "res = Result_NotFound msg" "\<not> tomb"
    by (auto simp: answers_def split: option.splits)
  then show ?case
  proof cases
    case 3
    then have "visible (merge_levels (map tab_level (ts @ [t]))) key =
        visible (merge_levels (map tab_level ts)) key"
      by (simp add: visible_def map_add_def)
    with 3 snoc show ?thesis by (simp add: g reads_def)
  qed (auto simp: g reads_def visible_def)
qed


lemma mt_wf_replay: "mt_wf m \<Longrightarrow> mt_wf (fold kv_replay_record rs m)"
  by (induction rs arbitrary: m) (simp_all add: kv_replay_record_def mt_wf_put mt_wf_remove)

lemma size_threshold_replay: "size_threshold (fold kv_replay_record rs m) = size_threshold m"
  by (induction rs arbitrary: m) (simp_all add: kv_replay_record_def)

lemma kv_memory_wf: "kv_memory ts rs kv \<Longrightarrow> mt_wf (kv_memtable kv)"
  by (simp add: kv_memory_def mt_wf_replay mt_wf_new)

lemma kv_get_reads:
  assumes "kv_serves ts rs kv w" "key \<noteq> []"
  shows "reads (kv_view kv w) key (fst (kv_get key kv w)) \<and> snd (kv_get key kv w) = w"
proof -
  let ?m = "kv_memtable kv" and ?L = "merge_levels (map tab_level ts)"
  have open_kv: "kv_is_open kv" and f: "faults w = []" and wf: "mt_wf ?m"
    and readers: "kv_sstables kv = map (tab_reader (kv_db_path kv) (enable_bloom_filter (kv_options kv))) ts"
    and disk: "\<forall>t\<in>set ts. on_disk w (tab_disk (kv_db_path kv) t)"
    using assms(1) by (auto simp: kv_serves_def kv_memory_def mt_wf_replay mt_wf_new)
  note tables = kv_get_sstables_reads [OF f disk, of key "enable_bloom_filter (kv_options kv)"]
  consider (Value) v where "mt_abs ?m key = Some (Some v)" "mt_get key ?m = (Result_OK v, False)"
    | (Deleted) msg where "mt_abs ?m key = Some None" "mt_get key ?m = (Result_NotFound msg, True)"
    | (Absent) msg where "mt_abs ?m key = None" "mt_get key ?m = (Result_NotFound msg, False)"
    using mt.get_cases [OF wf, of key] by metis
  then show ?thesis
  proof cases
    case Absent
    then have "visible (?L ++ mt_abs ?m) key = visible ?L key"
      by (simp add: visible_def map_add_def)
    with Absent tables show ?thesis
      using open_kv assms(2)
      by (simp add: kv_get_def reads_def readers kv_serves_levels [OF assms(1)])
  qed (use open_kv assms(2) in \<open>auto simp: kv_get_def reads_def visible_def
      kv_serves_levels [OF assms(1)]\<close>)
qed

section \<open>The manifest\<close>

lemma kv_write_names_ok:
  "faults w = [] \<Longrightarrow>
     kv_write_names (map (tab_reader db en) ts) \<lparr>os_path = p, os_open = True, os_bad = False, os_buf = buf\<rparr> w =
     (\<lparr>os_path = p, os_open = True, os_bad = False, os_buf = buf @ manifest_content ts\<rparr>, w)"
  by (induction ts arbitrary: buf)
    (simp_all add: io_simps manifest_content_def tab_reader_def sst_reader_def path_filename_sst_path)

definition manifest_events :: "path \<Rightarrow> tab list \<Rightarrow> io_event list" where
  "manifest_events db ts =
     [EvTrunc (manifest_tmp db)] @ append_events (manifest_tmp db) (manifest_content ts) @
     [EvRename (manifest_tmp db) (manifest_path db)]"

lemma kv_updateManifest_ok:
  assumes "faults w = []" "kv_manifest_path kv = manifest_path db"
    and "kv_sstables kv = map (tab_reader db en) ts"
  shows "kv_updateManifest kv w = (Status_OK, emit (manifest_events db ts) w)"
proof -
  let ?tmp = "manifest_tmp db" and ?w1 = "emit [EvTrunc (manifest_tmp db)] w"
  let ?w2 = "emit (append_events ?tmp (manifest_content ts)) ?w1"
  have tmp: "manifest_path db @ lit ''.tmp'' = ?tmp" by (simp add: manifest_tmp_def)
  have "\<exists>c. files ?w2 ?tmp = Some c" by simp
  then obtain c where c: "files ?w2 ?tmp = Some c" ..
  show ?thesis
    using assms fs_rename_none [OF _ c, of "manifest_path db"] kv_write_names_ok [of ?w1 db en ts ?tmp "[]"]
    by (simp add: kv_updateManifest_def Let_def tmp io_simps manifest_events_def del: emit_simps(2))
qed

lemma getlines_manifest: "getlines (manifest_content ts) = map (\<lambda>t. sst_filename (fst t)) ts"
proof -
  have "manifest_content ts = concat (map (\<lambda>l. l @ [10]) (map (\<lambda>t. sst_filename (fst t)) ts))"
    by (simp add: manifest_content_def o_def)
  then show ?thesis
    using getlines_concat [of "map (\<lambda>t. sst_filename (fst t)) ts"] sst_filename_chars
    by auto
qed

lemma manifest_events_files:
  "apply_events (manifest_events db ts) d q =
     (if q = manifest_path db then Some (manifest_content ts)
      else if q = manifest_tmp db then None else d q)"
  by (simp add: manifest_events_def append_events_def manifest_content_def)


section \<open>Flushing\<close>

lemma next_number: "n < (- 1 :: u64) \<Longrightarrow> m \<le> n \<Longrightarrow> m < n + 1"
  by (simp add: word_less_nat_alt word_le_nat_alt unat_word_ariths unsigned_minus_1_eq_mask
      mask_eq_exp_minus_1)

text \<open>The table a flush writes, and the changes of the disk it makes before any compaction.\<close>

definition flush_tab :: "KVStore \<Rightarrow> tab" where
  "flush_tab kv = (kv_next_sst_seq kv, kv_options kv, mt_entries (kv_memtable kv))"

definition tab_events :: "path \<Rightarrow> tab \<Rightarrow> io_event list" where
  "tab_events db t = [EvTrunc (sst_path db (fst t)),
     EvAppend (sst_path db (fst t)) (sst_image (fst (snd t)) (snd (snd t)))]"

definition flush_events :: "tab list \<Rightarrow> KVStore \<Rightarrow> io_event list" where
  "flush_events ts kv =
     tab_events (kv_db_path kv) (flush_tab kv) @
     manifest_events (kv_db_path kv) (ts @ [flush_tab kv]) @ [EvTrunc (wal_path (kv_db_path kv))]"

definition flushed :: "tab list \<Rightarrow> KVStore \<Rightarrow> KVStore" where
  "flushed ts kv =
    kv\<lparr>kv_next_sst_seq := kv_next_sst_seq kv + 1,
       kv_sstables := map (tab_reader (kv_db_path kv) (enable_bloom_filter (kv_options kv)))
         (ts @ [flush_tab kv]),
       kv_memtable := mt_clear (kv_memtable kv),
       kv_wal := (kv_wal kv)\<lparr>wal_file := \<lparr>os_path = wal_path (kv_db_path kv), os_open = True,
          os_bad = False, os_buf = []\<rparr>, wal_is_open := True\<rparr>\<rparr>"

definition can_flush :: "KVStore \<Rightarrow> bool" where
  "can_flush kv \<longleftrightarrow> kv_next_sst_seq kv < - 1 \<and>
     sst_fits (kv_options kv) (mt_entries (kv_memtable kv))"

lemma manifest_lines_eq:
  "files w (manifest_path db) = Some (manifest_content ts) \<Longrightarrow>
     manifest_lines db w = map (\<lambda>t. sst_filename (fst t)) ts"
  by (simp add: manifest_lines_def getlines_manifest) (auto simp: sst_filename_chars)

lemma wal_clear_eq:
  assumes "faults w = []" "wal_ready l"
  shows "wal_clear l w = (Status_OK, l\<lparr>wal_file := \<lparr>os_path = wal_filepath l, os_open = True,
    os_bad = False, os_buf = []\<rparr>, wal_is_open := True\<rparr>, emit [EvTrunc (wal_filepath l)] w)"
  using assms by (simp add: wal_clear_def wal_close_def io_simps wal_ready_def append_events_def)

lemma kv_flushInternal_eq:
  assumes "kv_inv ts rs kv w" "\<not> mt_empty (kv_memtable kv)" "can_flush kv"
  shows "kv_flushInternal kv w =
    (if compaction_threshold (kv_options kv) \<le> of_nat (length ts + 1)
     then kv_compactInternal (flushed ts kv) (emit (flush_events ts kv) w)
     else Ret (Status_OK, flushed ts kv, emit (flush_events ts kv) w))"
proof -
  let ?db = "kv_db_path kv" and ?opt = "kv_options kv" and ?es = "mt_entries (kv_memtable kv)"
  let ?p = "sst_path ?db (kv_next_sst_seq kv)" and ?en = "enable_bloom_filter (kv_options kv)"
  let ?w1 = "emit (tab_events ?db (flush_tab kv)) w"
  have f: "faults w = []" and mem: "kv_memory ts rs kv" using assms(1) by (simp_all add: kv_inv_def)
  have ss: "kv_sstables kv = map (tab_reader ?db ?en) ts"
    and wal: "wal_ready (kv_wal kv)" "wal_filepath (kv_wal kv) = wal_path ?db"
    using mem by (simp_all add: kv_memory_def)
  have "sst_ok ?opt ?es" using assms(3) by (simp add: can_flush_def sst_fits_def)
  then have wr: "sw_writeFromMemTable ?p (kv_memtable kv) ?opt w = Ret (Status_OK, ?w1)"
    using f by (simp add: sw_writeFromMemTable_def sw_writeFromEntries_ok tab_events_def flush_tab_def)
  have img: "files ?w1 ?p = Some (sst_image ?opt ?es)" by (simp add: tab_events_def flush_tab_def)
  have op: "sr_open ?p ?en sr_new ?w1 = Ret (Status_OK, tab_reader ?db ?en (flush_tab kv), ?w1)"
    using f assms(3) sr_open_image [OF _ img] by (simp add: tab_reader_def flush_tab_def can_flush_def)
  let ?kv1 = "kv\<lparr>kv_next_sst_seq := kv_next_sst_seq kv + 1,
    kv_sstables := map (tab_reader ?db ?en) (ts @ [flush_tab kv])\<rparr>"
  have mf: "kv_updateManifest ?kv1 ?w1 =
      (Status_OK, emit (manifest_events ?db (ts @ [flush_tab kv])) ?w1)"
    using f mem by (intro kv_updateManifest_ok [where en = ?en]) (simp_all add: kv_memory_def)
  have path: "?db @ lit ''/'' @ sst_filename (kv_next_sst_seq kv) = ?p" by (simp add: sst_path_def)
  show ?thesis
    using assms(2) f mf wal_clear_eq [OF _ wal(1)]
    by (simp add: kv_flushInternal_def kv_generateSSTableFilename_def Let_def path wr op ss wal(2)
        flushed_def flush_events_def)
qed


lemma flush_events_files:
  "apply_events (flush_events ts kv) d q =
    (let db = kv_db_path kv in
     if q = wal_path db then Some []
     else if q = manifest_path db then Some (manifest_content (ts @ [flush_tab kv]))
     else if q = manifest_tmp db then None
     else if q = sst_path db (kv_next_sst_seq kv) then
       Some (sst_image (kv_options kv) (mt_entries (kv_memtable kv)))
     else d q)"
  by (simp add: flush_events_def Let_def manifest_events_files) (simp add: tab_events_def flush_tab_def)

lemma mt_clear_new: "mt_clear m = mt_new (size_threshold m)"
  by (simp add: mt_clear_def mt_new_def)

lemma on_disk_cong: "files w' (fst t) = files w (fst t) \<Longrightarrow> on_disk w' t = on_disk w t"
  by (cases t) (simp add: on_disk_def)

lemma kve_map_mt_entries: "kve_map (mt_entries m) = mt_abs m"
proof -
  have "kve_map (mt_entries m) = map_of (map (\<lambda>(k, e). (k, entry_value e)) (table m))"
    unfolding kve_map_def mt_entries_def
    by (simp add: o_def case_prod_unfold entry_value_def me_isTombstone_def kve_isTombstone_def
        cong: if_cong)
  then show ?thesis by (simp add: mt_abs_def fun_eq_iff map_of_map)
qed

lemma kv_inv_flushed:
  assumes "kv_inv ts rs kv w" "can_flush kv"
  shows "kv_inv (ts @ [flush_tab kv]) [] (flushed ts kv) (emit (flush_events ts kv) w)"
proof -
  let ?db = "kv_db_path kv" and ?n = "kv_next_sst_seq kv"
  let ?w' = "emit (flush_events ts kv) w"
  have n: "?n < - 1" and fits: "sst_fits (kv_options kv) (mt_entries (kv_memtable kv))"
    using assms(2) by (simp_all add: can_flush_def)
  have less: "m < ?n" if "m \<in> fst ` set ts" for m
    using assms(1) that by (auto simp: kv_inv_def kv_memory_def)
  have old: "on_disk ?w' (tab_disk ?db t)" if "t \<in> set ts" for t
  proof -
    have "fst t \<noteq> ?n" using less [of "fst t"] that by auto
    then have "files ?w' (fst (tab_disk ?db t)) = files w (fst (tab_disk ?db t))"
      by (simp add: flush_events_files Let_def tab_disk_def sst_path_inject)
    then show ?thesis
      using assms(1) that by (simp add: on_disk_cong [of ?w' _ w] kv_inv_def kv_disk_def kv_tables_def)
  qed
  have new: "on_disk ?w' (tab_disk ?db (flush_tab kv))"
    using fits by (simp add: flush_events_files Let_def tab_disk_def flush_tab_def on_disk_def)
  have "manifest_lines ?db ?w' = map (\<lambda>t. sst_filename (fst t)) (ts @ [flush_tab kv])"
    by (intro manifest_lines_eq) (simp add: flush_events_files Let_def)
  moreover have "distinct (map fst (ts @ [flush_tab kv]))"
    using assms(1) less by (auto simp: kv_inv_def kv_disk_def kv_tables_def flush_tab_def)
  ultimately have "kv_disk ?db (ts @ [flush_tab kv]) [] ?w'"
    using assms(1) old new n
    by (auto simp: kv_inv_def kv_disk_def kv_tables_def flush_events_files Let_def flush_tab_def)
  moreover have "\<forall>m\<in>fst ` set (ts @ [flush_tab kv]). m < ?n + 1"
    using less next_number [OF n] by (auto simp: flush_tab_def less_imp_le)
  then have "kv_memory (ts @ [flush_tab kv]) [] (flushed ts kv)"
    using assms(1)
    by (simp add: kv_inv_def kv_memory_def flushed_def mt_clear_new size_threshold_replay wal_ready_def)
      (simp add: mt_new_def)
  ultimately show ?thesis
    using assms(1) by (simp add: kv_inv_def flushed_def)
qed

lemma tab_level_flush: "tab_level (flush_tab kv) = mt_abs (kv_memtable kv)"
  by (simp add: tab_level_def flush_tab_def kve_map_mt_entries)

lemma kv_view_flushed:
  assumes "kv_inv ts rs kv w" "can_flush kv"
  shows "kv_view (flushed ts kv) (emit (flush_events ts kv) w) = kv_view kv w"
  unfolding kv_view_levels [OF assms(1)] kv_view_levels [OF kv_inv_flushed [OF assms]]
  by (simp add: tab_level_flush flushed_def)


section \<open>Compacting\<close>

definition compact_tab :: "tab list \<Rightarrow> KVStore \<Rightarrow> tab" where
  "compact_tab ts kv =
     (kv_next_sst_seq kv, kv_options kv, compacted (map (tab_disk (kv_db_path kv)) ts))"

definition can_compact :: "tab list \<Rightarrow> KVStore \<Rightarrow> bool" where
  "can_compact ts kv \<longleftrightarrow> kv_next_sst_seq kv < - 1 \<and>
     sst_fits (kv_options kv) (compacted (map (tab_disk (kv_db_path kv)) ts))"

definition kv_compact_events :: "tab list \<Rightarrow> KVStore \<Rightarrow> world \<Rightarrow> io_event list" where
  "kv_compact_events ts kv w =
     compact_events (map (tab_disk (kv_db_path kv)) ts)
       (sst_path (kv_db_path kv) (kv_next_sst_seq kv)) (kv_options kv) True w @
     manifest_events (kv_db_path kv) [compact_tab ts kv]"

definition compacted_store :: "tab list \<Rightarrow> KVStore \<Rightarrow> KVStore" where
  "compacted_store ts kv =
    kv\<lparr>kv_next_sst_seq := kv_next_sst_seq kv + 1,
       kv_sstables := [tab_reader (kv_db_path kv) (enable_bloom_filter (kv_options kv))
         (compact_tab ts kv)]\<rparr>"

lemma tab_disk_paths:
  "map fst (map (tab_disk db) ts) = map (sst_path db) (map fst ts)"
  "fst ` set (map (tab_disk db) ts) = sst_path db ` fst ` set ts"
  by (simp_all add: tab_disk_def image_image)

lemma kv_compact_ready:
  assumes "kv_inv ts rs kv w" "ts \<noteq> []" "can_compact ts kv"
  shows "compact_ready (map (tab_disk (kv_db_path kv)) ts)
    (sst_path (kv_db_path kv) (kv_next_sst_seq kv)) (kv_options kv) w"
  unfolding compact_ready_def tab_disk_paths
proof (intro conjI)
  let ?db = "kv_db_path kv"
  have "inj_on (sst_path ?db) S" for S by (auto intro: inj_onI simp: sst_path_inject)
  moreover have "distinct (map fst ts)" using assms(1) by (simp add: kv_inv_def kv_disk_def kv_tables_def)
  ultimately show "distinct (map (sst_path ?db) (map fst ts))" by (subst distinct_map) blast
  have "kv_next_sst_seq kv \<notin> fst ` set ts"
    using assms(1) by (auto simp: kv_inv_def kv_memory_def)
  then show "sst_path ?db (kv_next_sst_seq kv) \<notin> sst_path ?db ` fst ` set ts"
    by (blast dest: sst_path_inject [THEN iffD1])
  show "compact_temp_path (sst_path ?db (kv_next_sst_seq kv)) \<notin> sst_path ?db ` fst ` set ts"
    by auto
  show "faults w = []" "map (tab_disk ?db) ts \<noteq> []" "\<forall>t\<in>set (map (tab_disk ?db) ts). on_disk w t"
    using assms(1,2) by (simp_all add: kv_inv_def kv_disk_def kv_tables_def)
  show "sst_fits (kv_options kv) (compacted (map (tab_disk ?db) ts))"
    using assms(3) by (simp add: can_compact_def)
qed

lemma map_sr_filepath: "map sr_filepath (map (tab_reader db en) ts) = map fst (map (tab_disk db) ts)"
  by (simp add: tab_reader_def sst_reader_def tab_disk_def)

lemma compact_image_on_disk:
  assumes "compact_ready dts out opt w"
  shows "files (emit (compact_events dts out opt True w) w) out = Some (sst_image opt (compacted dts))"
  using compact_files [OF assms] by simp

lemma kv_compactInternal_eq:
  assumes "kv_inv ts rs kv w" "2 \<le> length ts" "can_compact ts kv"
  shows "kv_compactInternal kv w =
    Ret (Status_OK, compacted_store ts kv, emit (kv_compact_events ts kv w) w)"
proof -
  let ?db = "kv_db_path kv" and ?opt = "kv_options kv" and ?en = "enable_bloom_filter (kv_options kv)"
  let ?dts = "map (tab_disk ?db) ts" and ?out = "sst_path ?db (kv_next_sst_seq kv)"
  let ?w1 = "emit (compact_events ?dts ?out ?opt True w) w"
  have ne: "ts \<noteq> []" using assms(2) by auto
  note ready = kv_compact_ready [OF assms(1) ne assms(3)]
  have f: "faults w = []" and mem: "kv_memory ts rs kv" using assms(1) by (simp_all add: kv_inv_def)
  have ss: "kv_sstables kv = map (tab_reader ?db ?en) ts" using mem by (simp add: kv_memory_def)
  have op: "sr_open ?out ?en sr_new ?w1 = Ret (Status_OK, tab_reader ?db ?en (compact_tab ts kv), ?w1)"
    using f assms(3) sr_open_image [OF _ compact_image_on_disk [OF ready]]
    by (simp add: tab_reader_def compact_tab_def can_compact_def)
  have mf: "kv_updateManifest (compacted_store ts kv) ?w1 =
      (Status_OK, emit (manifest_events ?db [compact_tab ts kv]) ?w1)"
    using f mem
    by (intro kv_updateManifest_ok [where en = ?en]) (simp_all add: kv_memory_def compacted_store_def)
  have path: "?db @ lit ''/'' @ sst_filename (kv_next_sst_seq kv) = ?out" by (simp add: sst_path_def)
  show ?thesis
    using assms(2) mf
    by (simp add: kv_compactInternal_def kv_generateSSTableFilename_def Let_def path ss map_sr_filepath
        compact_ok [OF ready] op kv_compact_events_def compacted_store_def del: map_map)
qed

lemma kv_compact_events_files:
  assumes "kv_inv ts rs kv w" "ts \<noteq> []" "can_compact ts kv"
  shows "apply_events (kv_compact_events ts kv w) (files w) q =
    (let db = kv_db_path kv; out = sst_path db (kv_next_sst_seq kv) in
     if q = manifest_path db then Some (manifest_content [compact_tab ts kv])
     else if q = manifest_tmp db then None
     else if q = out then Some (sst_image (kv_options kv) (compacted (map (tab_disk db) ts)))
     else if q = compact_temp_path out \<or> q \<in> sst_path db ` fst ` set ts then None
     else files w q)"
  using compact_files [OF kv_compact_ready [OF assms], of True] unfolding tab_disk_paths
  by (simp add: kv_compact_events_def Let_def manifest_events_files)

lemma kv_inv_compacted:
  assumes "kv_inv ts rs kv w" "ts \<noteq> []" "can_compact ts kv"
  shows "kv_inv [compact_tab ts kv] rs (compacted_store ts kv) (emit (kv_compact_events ts kv w) w)"
proof -
  let ?db = "kv_db_path kv" and ?n = "kv_next_sst_seq kv"
  let ?w' = "emit (kv_compact_events ts kv w) w"
  note fl = kv_compact_events_files [OF assms]
  have n: "?n < - 1" using assms(3) by (simp add: can_compact_def)
  have "on_disk ?w' (tab_disk ?db (compact_tab ts kv))"
    using assms(3) by (simp add: on_disk_def tab_disk_def compact_tab_def fl Let_def can_compact_def)
  moreover have "manifest_lines ?db ?w' = map (\<lambda>t. sst_filename (fst t)) [compact_tab ts kv]"
    by (intro manifest_lines_eq) (simp add: fl Let_def)
  moreover have "files ?w' (wal_path ?db) = files w (wal_path ?db)"
    by (auto simp: fl Let_def)
  ultimately have "kv_disk ?db [compact_tab ts kv] rs ?w'"
    using assms(1) n by (simp add: kv_inv_def kv_disk_def kv_tables_def compact_tab_def)
  moreover have "kv_memory [compact_tab ts kv] rs (compacted_store ts kv)"
    using assms(1) next_number [OF n order_refl]
    by (simp add: kv_inv_def kv_memory_def compacted_store_def compact_tab_def)
  ultimately show ?thesis
    using assms(1) by (simp add: kv_inv_def compacted_store_def)
qed

lemma kv_view_compacted:
  assumes "kv_inv ts rs kv w" "ts \<noteq> []" "can_compact ts kv"
  shows "kv_view (compacted_store ts kv) (emit (kv_compact_events ts kv w) w) = kv_view kv w"
proof -
  let ?dts = "map (tab_disk (kv_db_path kv)) ts"
  have "\<forall>es\<in>set (map table_entries ?dts). sorted_wrt (<) (map kve_key es)"
    using assms(1)
    by (auto simp: kv_inv_def kv_disk_def kv_tables_def on_disk_def tab_disk_def table_entries_def sst_fits_def
        sst_ok_def o_def)
  then have "tab_level (compact_tab ts kv) = purge (merge_levels (map kve_map (map table_entries ?dts)))"
    by (simp add: tab_level_def compact_tab_def compacted_def kve_map_compact_entries del: map_map)
  also have "map kve_map (map table_entries ?dts) = map tab_level ts"
    by (simp add: table_entries_def tab_disk_def tab_level_def)
  finally have level: "tab_level (compact_tab ts kv) = purge (merge_levels (map tab_level ts))" .
  show ?thesis
    unfolding kv_view_levels [OF assms(1)] kv_view_levels [OF kv_inv_compacted [OF assms]]
    using merge_levels_simps(2) [of "[]" "tab_level (compact_tab ts kv)"]
    by (simp add: level visible_purge_add compacted_store_def)
qed

section \<open>Logging a record\<close>

lemma kv_inv_logged:
  assumes "kv_inv ts rs kv w" "wal_valid r"
  shows "kv_inv ts (rs @ [r]) (kv\<lparr>kv_memtable := kv_replay_record r (kv_memtable kv)\<rparr>)
    (emit [EvAppend (wal_path (kv_db_path kv)) (wal_frame r)] w)"
proof -
  let ?db = "kv_db_path kv"
  let ?w' = "emit [EvAppend (wal_path ?db) (wal_frame r)] w"
  have same: "files ?w' q = files w q" if "q \<noteq> wal_path ?db" for q
    using that by simp
  have "on_disk ?w' (tab_disk ?db t) = on_disk w (tab_disk ?db t)" for t
    by (rule on_disk_cong) (simp add: tab_disk_def)
  moreover have "manifest_lines ?db ?w' = manifest_lines ?db w"
    by (simp add: manifest_lines_def)
  ultimately show ?thesis
    using assms by (simp add: kv_inv_def kv_disk_def kv_tables_def kv_memory_def)
qed


lemma kv_store_simps [simp]:
  "kv_db_path (flushed ts kv) = kv_db_path kv" "kv_options (flushed ts kv) = kv_options kv"
  "kv_db_path (compacted_store ts kv) = kv_db_path kv"
  "kv_options (compacted_store ts kv) = kv_options kv"
  by (simp_all add: flushed_def compacted_store_def)

end
