(* ===== verification/Capacity.thy ===== *)
theory Capacity
  imports KVInvariant
begin

text \<open>
  How large a store may grow. The counters of the file formats have 32 and 64 bits; a bound on
  the number of writes, on the filter's bits and on the lengths that the log accepts keeps
  every table that a flush or a compaction writes within them.
\<close>

section \<open>Entries within the limits of the log\<close>

definition entry_small :: "KeyValueEntry \<Rightarrow> bool" where
  "entry_small e \<longleftrightarrow>
     length (kve_key e) \<le> 16 * 1024 * 1024 \<and> length (sst_value e) \<le> 64 * 1024 * 1024"

text \<open>The options under which tables of at most \<open>n\<close> entries fit.\<close>

definition capacity :: "nat \<Rightarrow> Options \<Rightarrow> bool" where
  "capacity n opt \<longleftrightarrow> sparse_index_interval opt \<noteq> 0 \<and> n < 2 ^ 32 \<and>
     max n 100 * unat (bloom_bits_per_key opt) < 2 ^ 34"

lemma capacity_mono: "capacity n opt \<Longrightarrow> m \<le> n \<Longrightarrow> capacity m opt"
  unfolding capacity_def by (meson le_less_trans max.mono mult_le_mono order_refl)

lemma bf_new_bits_bound:
  assumes "unat n * unat b < 2 ^ 34" "n \<noteq> 0"
  shows "length (bf_bits (bf_new n b h)) \<le> 2 ^ 31"
proof -
  let ?t = "n * b"
  have t: "unat ?t < 2 ^ 34" using assms(1) by (simp add: unat_word_ariths)
  let ?t' = "if ?t < 64 then 64 else ?t"
  have t': "unat ?t' < 2 ^ 34" using t by simp
  then have "unat (?t' + 7) = unat ?t' + 7" by (simp add: unat_word_ariths)
  then have "unat ((?t' + 7) div 8) = (unat ?t' + 7) div 8" by (simp add: unat_div)
  then show ?thesis using t' assms(2) by (simp add: bf_new_def Let_def)
qed

lemma sst_bloom_bound:
  assumes "capacity n opt" "length es \<le> n"
  shows "length (bf_bits (sst_bloom opt es)) \<le> 2 ^ 31"
proof -
  let ?k = "if 0 < (of_nat (length es) :: u64) then of_nat (length es) else (100 :: u64)"
  have "unat ?k \<le> max n 100"
    using assms(2) unat_of_nat_u64 [of "length es"] le_less_trans [OF assms(2)] assms(1)
    by (auto simp: capacity_def le_max_iff_disj)
  then have "unat ?k * unat (bloom_bits_per_key opt) \<le> max n 100 * unat (bloom_bits_per_key opt)"
    by (rule mult_le_mono1)
  also have "\<dots> < 2 ^ 34" using assms(1) by (simp add: capacity_def)
  finally have "length (bf_bits (bf_new ?k (bloom_bits_per_key opt) (bloom_num_hashes opt))) \<le> 2 ^ 31"
    by (rule bf_new_bits_bound) (auto simp: word_gt_0)
  then show ?thesis by (simp only: length_bf_bits_sst_bloom)
qed

lemma sum_list_bound: "\<forall>x\<in>set xs. f x \<le> b \<Longrightarrow> sum_list (map f xs) \<le> length xs * (b :: nat)"
  by (induction xs) (auto intro: add_mono)

lemma sst_fits_capacity:
  assumes "capacity n opt" "length es \<le> n" "\<forall>e\<in>set es. entry_small e"
    and "sorted_wrt (<) (map kve_key es)"
  shows "sst_fits opt es"
proof -
  have n: "length es < 2 ^ 32" using assms(1,2) by (simp add: capacity_def)
  have lim: "\<forall>e\<in>set es. length (kve_key e) < 2 ^ 32 \<and> length (sst_value e) < 2 ^ 32"
    using assms(3) by (auto simp: entry_small_def)
  have ok: "sst_ok opt es"
    using assms(1,4) n lim by (simp add: sst_ok_def capacity_def)
  have "\<forall>e\<in>set es. length (sst_frame e) \<le> 83886093"
    using assms(3) by (auto simp: entry_small_def length_sst_frame)
  then have data: "length (sst_data es) \<le> length es * 83886093"
    using sum_list_bound [of es "\<lambda>e. length (sst_frame e)"] by (simp add: sst_data_def length_concat o_def)
  have keys: "\<forall>e\<in>set (sst_index opt es). 12 + length (ie_key e) \<le> 16777228"
    using sst_index_from_keys [of "unat (sparse_index_interval opt)" 0 16 es] assms(3)
    by (fastforce simp: sst_index_def entry_small_def)
  have "sum_list (map (\<lambda>e. 12 + length (ie_key e)) (sst_index opt es)) \<le> length (sst_index opt es) * 16777228"
    by (rule sum_list_bound [OF keys])
  also have "\<dots> \<le> length es * 16777228"
    using length_sst_index_from by (simp add: sst_index_def)
  finally have index: "length (idx_serialize (sst_index opt es)) \<le> 8 + length es * 16777228"
    by (simp add: length_idx_serialize)
  have bloom: "length (bf_bits (sst_bloom opt es)) \<le> 2 ^ 31" by (rule sst_bloom_bound [OF assms(1,2)])
  show ?thesis
    using ok n data index bloom by (simp add: sst_fits_def length_sst_image)
qed

section \<open>What a store holds\<close>

text \<open>
  The entries of the tables and of the MemTable are small, there are at most \<open>n\<close> of them, and
  the next sequence number is at most \<open>m\<close>.
\<close>

definition kv_sized :: "nat \<Rightarrow> nat \<Rightarrow> tab list \<Rightarrow> KVStore \<Rightarrow> bool" where
  "kv_sized n m ts kv \<longleftrightarrow> (\<forall>t\<in>set ts. \<forall>e\<in>set (snd (snd t)). entry_small e) \<and>
     (\<forall>e\<in>set (mt_entries (kv_memtable kv)). entry_small e) \<and>
     (\<Sum>t\<leftarrow>ts. length (snd (snd t))) + length (mt_entries (kv_memtable kv)) \<le> n \<and>
     unat (kv_next_sst_seq kv) \<le> m"

lemma kv_sized_mono: "kv_sized n m ts kv \<Longrightarrow> n \<le> n' \<Longrightarrow> m \<le> m' \<Longrightarrow> kv_sized n' m' ts kv"
  by (auto simp: kv_sized_def)

lemma mt_entries_sorted: "mt_wf m \<Longrightarrow> sorted_wrt (<) (map kve_key (mt_entries m))"
  by (simp add: mt_wf_def mt_entries_def sorted_keys_def o_def case_prod_unfold)

lemma seq_below: "unat (n :: u64) \<le> m \<Longrightarrow> m < 2 ^ 64 - 1 \<Longrightarrow> n < - 1 \<and> unat (n + 1) \<le> Suc m"
  by (simp add: word_less_nat_alt unat_word_ariths unsigned_minus_1_eq_mask mask_eq_exp_minus_1)

lemma kv_sized_can_flush:
  assumes "kv_inv ts rs kv w" "kv_sized n m ts kv" "capacity n (kv_options kv)" "m < 2 ^ 64 - 1"
  shows "can_flush kv"
proof -
  have "sst_fits (kv_options kv) (mt_entries (kv_memtable kv))"
  proof (rule sst_fits_capacity [OF assms(3)])
    show "sorted_wrt (<) (map kve_key (mt_entries (kv_memtable kv)))"
      using assms(1) mt_entries_sorted [OF kv_memory_wf [of ts rs kv]] by (simp add: kv_inv_def)
  qed (use assms(2) in \<open>simp_all add: kv_sized_def\<close>)
  then show ?thesis
    using assms(2,4) seq_below [of "kv_next_sst_seq kv" m] by (simp add: can_flush_def kv_sized_def)
qed

lemma kv_sized_flushed:
  assumes "kv_sized n m ts kv" "m < 2 ^ 64 - 1"
  shows "kv_sized n (Suc m) (ts @ [flush_tab kv]) (flushed ts kv)"
  using assms seq_below [of "kv_next_sst_seq kv" m]
  by (auto simp: kv_sized_def flush_tab_def flushed_def) (simp_all add: mt_entries_def)

text \<open>A compaction only drops entries.\<close>

lemma length_merge_records: "length (merge_records rs m) \<le> length rs + length m"
  unfolding merge_records_def
proof (induction rs arbitrary: m)
  case (Cons r rs)
  show ?case
    using Cons.IH [of "smap_assign (kve_key r) r m"] length_smap_assign [of "kve_key r" r m] by simp
qed simp

lemma set_merge_records: "snd ` set (merge_records rs m) \<subseteq> set rs \<union> snd ` set m"
  unfolding merge_records_def
proof (induction rs arbitrary: m)
  case (Cons r rs)
  have "snd ` set (smap_assign (kve_key r) r m) \<subseteq> insert r (snd ` set m)"
    using image_mono [OF set_smap_assign [of "kve_key r" r m], of snd] by simp
  then show ?case
    using Cons.IH [of "smap_assign (kve_key r) r m"] by (simp only: fold_Cons o_apply list.set) blast
qed simp

lemma compacted_entries:
  "length (compacted (map (tab_disk db) ts)) \<le> (\<Sum>t\<leftarrow>ts. length (snd (snd t)))"
  "set (compacted (map (tab_disk db) ts)) \<subseteq> (\<Union>t\<in>set ts. sst_norm ` set (snd (snd t)))"
proof -
  let ?rs = "concat (map table_entries (map (tab_disk db) ts))"
  have "length (compacted (map (tab_disk db) ts)) \<le> length (merge_records ?rs [])"
    unfolding compacted_def compact_entries_def surviving_entries_def
    by (metis length_filter_le length_map)
  also have "\<dots> \<le> length ?rs" using length_merge_records [of ?rs "[]"] by simp
  also have "\<dots> = (\<Sum>t\<leftarrow>ts. length (snd (snd t)))"
    by (simp add: length_concat o_def table_entries_def tab_disk_def)
  finally show "length (compacted (map (tab_disk db) ts)) \<le> (\<Sum>t\<leftarrow>ts. length (snd (snd t)))" .
  have "set (compacted (map (tab_disk db) ts)) \<subseteq> snd ` set (merge_records ?rs [])"
    unfolding compacted_def compact_entries_def surviving_entries_def
    by (metis filter_is_subset list.set_map)
  also have "\<dots> \<subseteq> set ?rs" using set_merge_records [of ?rs "[]"] by simp
  finally have "set (compacted (map (tab_disk db) ts)) \<subseteq> set ?rs" .
  then show "set (compacted (map (tab_disk db) ts)) \<subseteq> (\<Union>t\<in>set ts. sst_norm ` set (snd (snd t)))"
    by (auto simp: table_entries_def tab_disk_def)
qed

lemma entry_small_norm [simp]: "entry_small (sst_norm e) = entry_small e"
  by (simp add: entry_small_def) (simp add: sst_value_def sst_norm_def kve_isTombstone_def)

lemma kv_sized_can_compact:
  assumes "kv_sized n m ts kv" "capacity n (kv_options kv)" "m < 2 ^ 64 - 1"
  shows "can_compact ts kv"
proof -
  let ?es = "compacted (map (tab_disk (kv_db_path kv)) ts)"
  have "length ?es \<le> n"
    using compacted_entries(1) [of "kv_db_path kv" ts] assms(1) by (simp add: kv_sized_def)
  moreover have "\<forall>e\<in>set ?es. entry_small e"
    using compacted_entries(2) [of "kv_db_path kv" ts] assms(1) by (fastforce simp: kv_sized_def)
  moreover have "sorted_wrt (<) (map kve_key ?es)"
    by (simp add: compacted_def compact_entries_sorted)
  ultimately show ?thesis
    using assms seq_below [of "kv_next_sst_seq kv" m] sst_fits_capacity [OF assms(2)]
    by (simp add: can_compact_def kv_sized_def)
qed

lemma kv_sized_compacted:
  assumes "kv_sized n m ts kv" "m < 2 ^ 64 - 1"
  shows "kv_sized n (Suc m) [compact_tab ts kv] (compacted_store ts kv)"
proof -
  have "length (compacted (map (tab_disk (kv_db_path kv)) ts)) + length (mt_entries (kv_memtable kv)) \<le> n"
    using compacted_entries(1) [of "kv_db_path kv" ts] assms(1) by (simp add: kv_sized_def)
  moreover have "\<forall>e\<in>set (compacted (map (tab_disk (kv_db_path kv)) ts)). entry_small e"
    using compacted_entries(2) [of "kv_db_path kv" ts] assms(1) by (fastforce simp: kv_sized_def)
  ultimately show ?thesis
    using assms seq_below [of "kv_next_sst_seq kv" m]
    by (simp add: kv_sized_def compact_tab_def compacted_store_def)
qed

text \<open>A logged record adds one entry at most.\<close>

lemma kv_sized_logged:
  assumes "kv_sized n m ts kv" "wal_valid r"
  shows "kv_sized (Suc n) m ts (kv\<lparr>kv_memtable := kv_replay_record r (kv_memtable kv)\<rparr>)"
proof -
  let ?m = "kv_memtable kv"
  have step: "length (mt_entries m') \<le> Suc (length (mt_entries ?m)) \<and>
      (\<forall>x\<in>set (mt_entries m'). entry_small x)"
    if "table m' = smap_assign (wr_key r) e (table ?m)"
      "entry_small \<lparr>kve_key = wr_key r, kve_value = me_value e, kve_type = me_type e\<rparr>" for m' e
    using that set_smap_assign [of "wr_key r" e "table ?m"] length_smap_assign [of "wr_key r" e "table ?m"]
      assms(1) by (fastforce simp: mt_entries_def kv_sized_def)
  have "entry_small \<lparr>kve_key = wr_key r, kve_value = wr_value r, kve_type = PUT\<rparr>"
    "entry_small \<lparr>kve_key = wr_key r, kve_value = [], kve_type = TOMBSTONE\<rparr>"
    using assms(2) by (simp_all add: entry_small_def wal_valid_def sst_value_def kve_isTombstone_def)
  then have "length (mt_entries (kv_replay_record r ?m)) \<le> Suc (length (mt_entries ?m)) \<and>
      (\<forall>x\<in>set (mt_entries (kv_replay_record r ?m)). entry_small x)"
    using step [of "mt_put (wr_key r) (wr_value r) ?m"] step [of "mt_remove (wr_key r) ?m"] assms(2)
    by (auto simp: kv_replay_record_def table_mt_put table_mt_remove wal_valid_def)
  then show ?thesis
    using assms(1) by (auto simp: kv_sized_def)
qed

end
