(* ===== verification/Recovery.thy ===== *)
theory Recovery
  imports KVInvariant
begin

text \<open>
  Opening a store: from the files alone, the manifest, the tables and the log, \<^verbatim>\<open>open\<close>
  rebuilds the state in memory. Closing a store and opening it again gives the same map; so
  does opening it on what a crash has left of the log.
\<close>

section \<open>The tables of the manifest\<close>

lemma kv_read_manifest_lines:
  "faults w = [] \<Longrightarrow> kv_read_manifest (manifest_path db) w = (manifest_lines db w, w)"
  by (auto simp: kv_read_manifest_def manifest_lines_def fs_exists_def ifs_open_none
      split: option.splits)

lemma kv_max_seq_filename: "kv_max_seq (sst_filename n) m = max m n"
  by (auto simp: kv_max_seq_def kv_file_seq_filename max_def)

lemma kv_load_sstables_ok:
  "faults w = [] \<Longrightarrow> \<forall>t\<in>set ts. on_disk w (tab_disk db t) \<Longrightarrow>
     kv_load_sstables (map (\<lambda>t. sst_filename (fst t)) ts) db en readers m w =
     Ret (Status_OK, readers @ map (tab_reader db en) ts, fold max (map fst ts) m, w)"
proof (induction ts arbitrary: readers m)
  case (Cons t ts)
  obtain n opt es where t: "t = (n, opt, es)" by (cases t)
  have tab: "files w (sst_path db n) = Some (sst_image opt es)" "sst_fits opt es"
    using Cons.prems(2) by (simp_all add: t on_disk_def tab_disk_def)
  have "sr_open (sst_path db n) en sr_new w = Ret (Status_OK, tab_reader db en t, w)"
    using sr_open_image [OF Cons.prems(1) tab] by (simp add: t tab_reader_def)
  moreover have "fs_exists (sst_path db n) w" using tab(1) by (simp add: fs_exists_def)
  moreover have "db @ lit ''/'' @ sst_filename (fst t) = sst_path db n"
    by (simp add: sst_path_def t)
  ultimately show ?case
    using Cons.IH Cons.prems by (simp add: Let_def kv_max_seq_filename max.commute t)
qed simp

lemma fold_max_ge: "n \<in> insert m (set ns) \<Longrightarrow> n \<le> fold max ns (m :: 'a::linorder)"
proof (induction ns arbitrary: m n)
  case (Cons k ns)
  have start: "max k m \<le> fold max ns (max k m)"
    using Cons.IH by blast
  have "n = m \<or> n = k \<or> n \<in> set ns" using Cons.prems by auto
  then show ?case
    using start Cons.IH [of n "max k m"] by auto
qed simp

lemma fold_max_in: "fold max ns m \<in> insert (m :: 'a::linorder) (set ns)"
proof (induction ns arbitrary: m)
  case (Cons k ns)
  then show ?case using Cons.IH [of "max k m"] by (auto simp: max_def split: if_splits)
qed simp

section \<open>Opening\<close>

text \<open>A store that is closed, with its log closed too, and the state before the log is read.\<close>

definition kv_closed :: "KVStore \<Rightarrow> bool" where
  "kv_closed kv \<longleftrightarrow> \<not> kv_is_open kv \<and> \<not> wal_is_open (kv_wal kv) \<and>
     size_threshold (kv_memtable kv) = memtable_size_threshold (kv_options kv)"

definition kv_loaded :: "path \<Rightarrow> tab list \<Rightarrow> KVStore \<Rightarrow> KVStore" where
  "kv_loaded db ts kv =
    kv\<lparr>kv_db_path := db, kv_manifest_path := manifest_path db,
       kv_sstables := map (tab_reader db (enable_bloom_filter (kv_options kv))) ts,
       kv_next_sst_seq := fold max (map fst ts) 0 + 1\<rparr>"

lemma kv_open_tables:
  assumes "faults w = []" "db \<noteq> []" "kv_tables db ts w" "\<not> kv_is_open kv"
  shows "kv_open db kv w = Ret (kv_open_wal (kv_loaded db ts kv) w)"
proof -
  have "fs_exists db w" "\<forall>t\<in>set ts. on_disk w (tab_disk db t)"
    "manifest_lines db w = map (\<lambda>t. sst_filename (fst t)) ts"
    using assms(3) by (simp_all add: kv_tables_def fs_exists_def)
  then show ?thesis
    using assms kv_read_manifest_lines [OF assms(1), of db]
      kv_load_sstables_ok [OF assms(1), of ts db "enable_bloom_filter (kv_options kv)" "[]" 0]
    by (simp add: kv_open_def kv_open_closed_def Let_def kv_loaded_def manifest_path_def)
qed

text \<open>
  The second half of opening, on a log of whole records that a torn one may follow: the
  MemTable that the records give, and the log open for appending.
\<close>

definition kv_recovered :: "path \<Rightarrow> tab list \<Rightarrow> WALRecord list \<Rightarrow> KVStore \<Rightarrow> KVStore" where
  "kv_recovered db ts rs kv =
    (kv_loaded db ts kv)\<lparr>kv_wal_path := wal_path db,
       kv_memtable := fold kv_replay_record rs (mt_new (memtable_size_threshold (kv_options kv))),
       kv_wal := (kv_wal kv)\<lparr>wal_filepath := wal_path db, wal_file := \<lparr>os_path = wal_path db,
         os_open = True, os_bad = False, os_buf = []\<rparr>, wal_is_open := True\<rparr>,
       kv_is_open := True\<rparr>"

lemma kv_open_wal_ok:
  assumes "faults w = []" "kv_closed kv"
    and "wal_replay (wal_path db) kv_replay_record
        (mt_new (memtable_size_threshold (kv_options kv))) w = ((s, trunc, m), w)"
    and "ok s \<or> trunc" "m = fold kv_replay_record rs (mt_new (memtable_size_threshold (kv_options kv)))"
    and "files w (wal_path db) = None \<longrightarrow> rs = []"
  shows "kv_open_wal (kv_loaded db ts kv) w =
    (Status_OK, kv_recovered db ts rs kv, emit [EvCreate (wal_path db)] w)"
proof -
  have "db @ lit ''/wal.log'' = wal_path db" by (simp add: wal_path_def)
  moreover have "mt_clear (kv_memtable kv) = mt_new (memtable_size_threshold (kv_options kv))"
    using assms(2) by (simp add: mt_clear_new kv_closed_def)
  moreover have "fs_exists (wal_path db) w \<or> m = mt_new (memtable_size_threshold (kv_options kv))"
    using assms(5,6) by (auto simp: fs_exists_def)
  ultimately show ?thesis
    using assms(1-5)
    by (auto simp: kv_open_wal_def Let_def kv_loaded_def kv_recovered_def kv_closed_def
        wal_open_def wal_close_def io_simps)
qed

section \<open>What a log holds\<close>

text \<open>
  A log that may exist: whole records, then at most the beginning of another one. That is
  what a crash leaves of a log that was appended to record by record.
\<close>

definition torn :: "bytes \<Rightarrow> bool" where
  "torn t \<longleftrightarrow> (\<exists>r. wal_valid r \<and> strict_prefix t (wal_frame r))"

definition log_holds :: "path \<Rightarrow> WALRecord list \<Rightarrow> bytes \<Rightarrow> world \<Rightarrow> bool" where
  "log_holds db rs t w \<longleftrightarrow> list_all wal_valid rs \<and> torn t \<and>
     (case files w (wal_path db) of None \<Rightarrow> rs = [] \<and> t = []
      | Some content \<Rightarrow> content = concat (map wal_frame rs) @ t)"

lemma torn_Nil [simp]: "torn []"
proof -
  have "wal_valid \<lparr>wr_type = PUT, wr_key = [], wr_value = []\<rparr>" by (simp add: wal_valid_def)
  then show ?thesis unfolding torn_def strict_prefix_def by (metis Nil_prefix walf.enc_nonempty)
qed

lemma wal_replay_log:
  assumes "faults w = []" "log_holds db rs t w"
  shows "\<exists>s truncated. wal_replay (wal_path db) c st w = ((s, truncated, fold c rs st), w) \<and>
    (ok s \<or> truncated)"
proof (cases "files w (wal_path db)")
  case None
  then show ?thesis
    using assms(2) wal_replay_no_file [OF assms(1) None]
    by (intro exI [of _ Status_OK] exI [of _ False]) (simp add: log_holds_def)
next
  case (Some content)
  then have content: "files w (wal_path db) = Some (concat (map wal_frame rs) @ t)"
    and rs: "list_all wal_valid rs" and t: "torn t"
    using assms(2) by (simp_all add: log_holds_def)
  show ?thesis
  proof (cases "t = []")
    case True
    then show ?thesis
      using wal_replay_file [OF assms(1) content, of c st]
      by (intro exI [of _ Status_OK] exI [of _ False]) (simp add: replay_loop_whole [OF rs])
  next
    case False
    obtain r where "wal_valid r" "strict_prefix t (wal_frame r)" using t by (auto simp: torn_def)
    from walf.read_truncated [OF this False] obtain msg where
      "wal_read_record (in_stream t) = Stop (Status_Corruption msg) True" ..
    then show ?thesis
      using wal_replay_file [OF assms(1) content, of c st]
      by (intro exI [of _ "Status_Corruption msg"] exI [of _ True])
        (simp add: replay_loop_stop [OF rs False])
  qed
qed

text \<open>Opening succeeds and restores the tables and the whole records of the log.\<close>

lemma kv_open_wal_recovers:
  assumes "faults w = []" "log_holds db rs t w" "kv_closed kv"
  shows "kv_open_wal (kv_loaded db ts kv) w =
    (Status_OK, kv_recovered db ts rs kv, emit [EvCreate (wal_path db)] w)"
proof -
  obtain s truncated where
    rep: "wal_replay (wal_path db) kv_replay_record
        (mt_new (memtable_size_threshold (kv_options kv))) w =
      ((s, truncated, fold kv_replay_record rs (mt_new (memtable_size_threshold (kv_options kv)))), w)"
    and s: "ok s \<or> truncated"
    using wal_replay_log [OF assms(1,2), of kv_replay_record
      "mt_new (memtable_size_threshold (kv_options kv))"] by (elim exE conjE)
  have "files w (wal_path db) = None \<longrightarrow> rs = []"
    using assms(2) by (auto simp: log_holds_def)
  from kv_open_wal_ok [OF assms(1,3) rep s refl this] show ?thesis .
qed

lemma kv_open_recovers:
  assumes "faults w = []" "db \<noteq> []" "kv_tables db ts w" "log_holds db rs t w" "kv_closed kv"
  shows "kv_open db kv w = Ret (Status_OK, kv_recovered db ts rs kv, emit [EvCreate (wal_path db)] w)"
  using kv_open_tables [OF assms(1-3)] kv_open_wal_recovers [OF assms(1,4,5)] assms(5)
  by (simp add: kv_closed_def)

lemma kv_next_seq_above:
  assumes "\<forall>n\<in>set ns. n < (- 1 :: u64)" "n \<in> set ns"
  shows "n < fold max ns 0 + 1"
proof -
  have "fold max ns 0 < - 1" using fold_max_in [of ns 0] assms(1) by (auto simp: word_gt_0)
  then show ?thesis using fold_max_ge [of n 0 ns] assms(2) by (intro next_number) simp_all
qed

lemma kv_tables_create [simp]:
  "kv_tables db ts (emit [EvCreate (wal_path db)] w) = kv_tables db ts w"
proof -
  have same: "files (emit [EvCreate (wal_path db)] w) q = files w q" if "q \<noteq> wal_path db" for q
    using that by (simp split: option.splits)
  have "on_disk (emit [EvCreate (wal_path db)] w) (tab_disk db t) = on_disk w (tab_disk db t)" for t
    by (intro on_disk_cong same) (simp add: tab_disk_def)
  moreover have "manifest_lines db (emit [EvCreate (wal_path db)] w) = manifest_lines db w"
    unfolding manifest_lines_def by (subst same) simp_all
  ultimately show ?thesis by (simp add: kv_tables_def)
qed

lemma kv_recovered_memory:
  assumes "db \<noteq> []" "\<forall>n\<in>fst ` set ts. n < - 1" "kv_closed kv"
  shows "kv_memory ts rs (kv_recovered db ts rs kv)"
  using assms kv_next_seq_above [of "map fst ts"]
  by (auto simp: kv_memory_def kv_recovered_def kv_loaded_def wal_ready_def)

lemma kv_recovered_simps [simp]:
  "kv_db_path (kv_recovered db ts rs kv) = db" "kv_options (kv_recovered db ts rs kv) = kv_options kv"
  by (simp_all add: kv_recovered_def kv_loaded_def)

lemma kv_inv_recovered:
  assumes "faults w = []" "db \<noteq> []" "kv_tables db ts w" "kv_closed kv" "log_holds db rs [] w"
  shows "kv_inv ts rs (kv_recovered db ts rs kv) (emit [EvCreate (wal_path db)] w)"
proof -
  have "\<forall>n\<in>fst ` set ts. n < - 1" using assms(3) by (simp add: kv_tables_def)
  from kv_recovered_memory [OF assms(2) this assms(4)] show ?thesis
    using assms by (auto simp: kv_inv_def kv_disk_def log_holds_def split: option.splits)
qed

section \<open>A new database\<close>

text \<open>Where nothing exists, opening creates the directory and an empty log.\<close>

definition fresh :: "path \<Rightarrow> world \<Rightarrow> bool" where
  "fresh db w \<longleftrightarrow> faults w = [] \<and> db \<noteq> [] \<and> \<not> fs_exists db w \<and>
     files w (manifest_path db) = None \<and> files w (wal_path db) = None"

definition with_dir :: "path \<Rightarrow> world \<Rightarrow> world" where
  "with_dir db w = w\<lparr>dirs := (dirs w)(db := True)\<rparr>"

lemma with_dir_simps [simp]:
  "faults (with_dir db w) = faults w" "files (with_dir db w) = files w" "dirs (with_dir db w) db"
  "fs_exists db (with_dir db w)"
  by (simp_all add: with_dir_def fs_exists_def)

lemma fresh_tables: "fresh db w \<Longrightarrow> kv_tables db [] (with_dir db w)"
  by (simp add: kv_tables_def manifest_lines_def fresh_def)

lemma fresh_log: "fresh db w \<Longrightarrow> log_holds db [] [] (with_dir db w)"
  by (simp add: log_holds_def fresh_def)

lemma kv_open_creates:
  assumes "fresh db w" "\<not> kv_is_open kv"
  shows "kv_open db kv w = kv_open db kv (with_dir db w)"
proof -
  have "fs_create_directories db w = (True, with_dir db w)"
    using assms(1) by (simp add: fs_create_directories_def fresh_def next_fault_none with_dir_def fs_exists_def)
  then show ?thesis
    using assms by (simp add: kv_open_def kv_open_closed_def fresh_def)
qed

lemma kv_closed_new: "kv_closed (kv_new opt)"
  by (simp add: kv_closed_def kv_new_def wal_new_def mt_new_def)

lemma kv_options_new [simp]: "kv_options (kv_new opt) = opt"
  by (simp add: kv_new_def)

lemma kv_open_fresh:
  assumes "fresh db w" "kv_closed kv"
  shows "\<exists>w'. kv_open db kv w = Ret (Status_OK, kv_recovered db [] [] kv, w') \<and>
    kv_inv [] [] (kv_recovered db [] [] kv) w'"
proof -
  have f: "faults (with_dir db w) = []" "db \<noteq> []" "\<not> kv_is_open kv"
    using assms by (simp_all add: fresh_def kv_closed_def)
  note tabs = fresh_tables [OF assms(1)] and log = fresh_log [OF assms(1)]
  show ?thesis
    using kv_open_creates [OF assms(1) f(3)] kv_open_recovers [OF f(1,2) tabs log assms(2)]
      kv_inv_recovered [OF f(1,2) tabs assms(2) log] by simp
qed

section \<open>Restarting\<close>

text \<open>Closing the store, destroying it, and opening a new one on the same database.\<close>

definition kv_restart :: "KVStore \<Rightarrow> world \<Rightarrow> (Status \<times> KVStore \<times> world) outcome" where
  "kv_restart kv w =
    (case kv_close kv w of (_, _, w1) \<Rightarrow> kv_open (kv_db_path kv) (kv_new (kv_options kv)) w1)"

lemma kv_close_inv:
  assumes "kv_inv ts rs kv w"
  shows "\<exists>kv'. kv_close kv w = (Status_OK, kv', w)"
  using assms
  by (simp add: kv_close_def kv_inv_def kv_memory_def wal_close_def wal_ready_def io_simps
      append_events_def)

lemma kv_inv_log_holds: "kv_inv ts rs kv w \<Longrightarrow> log_holds (kv_db_path kv) rs [] w"
  by (simp add: kv_inv_def kv_disk_def log_holds_def)

lemma kv_recovered_memtable:
  assumes "kv_memory ts rs kv" "kv_options kv' = kv_options kv"
  shows "kv_memtable (kv_recovered db ts rs kv') = kv_memtable kv"
  using assms by (simp add: kv_recovered_def kv_memory_def)

lemma kv_restart_eq:
  assumes "kv_inv ts rs kv w"
  shows "kv_restart kv w =
    Ret (Status_OK, kv_recovered (kv_db_path kv) ts rs (kv_new (kv_options kv)),
      emit [EvCreate (wal_path (kv_db_path kv))] w)"
proof -
  obtain kv' where "kv_close kv w = (Status_OK, kv', w)" using kv_close_inv [OF assms] by blast
  moreover have "faults w = []" "kv_db_path kv \<noteq> []" "kv_tables (kv_db_path kv) ts w"
    using assms by (simp_all add: kv_inv_def kv_disk_def kv_memory_def)
  ultimately show ?thesis
    using kv_open_recovers [OF _ _ _ kv_inv_log_holds [OF assms] kv_closed_new] by (simp add: kv_restart_def)
qed

lemma kv_inv_restart:
  assumes "kv_inv ts rs kv w"
  shows "kv_inv ts rs (kv_recovered (kv_db_path kv) ts rs (kv_new (kv_options kv)))
    (emit [EvCreate (wal_path (kv_db_path kv))] w)"
  using assms kv_inv_log_holds [OF assms]
  by (intro kv_inv_recovered kv_closed_new) (simp_all add: kv_inv_def kv_disk_def kv_memory_def)

lemma kv_view_restart:
  assumes "kv_inv ts rs kv w"
  shows "kv_view (kv_recovered (kv_db_path kv) ts rs (kv_new (kv_options kv)))
      (emit [EvCreate (wal_path (kv_db_path kv))] w) = kv_view kv w"
proof -
  have "kv_memory ts rs kv" using assms by (simp add: kv_inv_def)
  then show ?thesis
    unfolding kv_view_levels [OF assms] kv_view_levels [OF kv_inv_restart [OF assms]]
    by (simp add: kv_recovered_memtable)
qed

end
