(* ===== verification/Client.thy ===== *)
theory Client
  imports Capacity Recovery
begin

text \<open>
  The store as its client sees it: a map. Every operation, whether or not it flushes or
  compacts on the way, succeeds, keeps the invariant and changes the map by exactly what it
  says; so does every sequence of them, restarts included.
\<close>

section \<open>What an operation leaves\<close>

text \<open>
  The invariant for some tables and log within the sizes, the same database and options, and
  the given map.
\<close>

definition kv_after :: "nat \<Rightarrow> nat \<Rightarrow> KVStore \<Rightarrow> (bytes \<Rightarrow> bytes option) \<Rightarrow>
    (Status \<times> KVStore \<times> world) outcome \<Rightarrow> bool" where
  "kv_after n m kv view res \<longleftrightarrow>
    (\<exists>ts rs kv' w'. res = Ret (Status_OK, kv', w') \<and> kv_inv ts rs kv' w' \<and> kv_sized n m ts kv' \<and>
       kv_db_path kv' = kv_db_path kv \<and> kv_options kv' = kv_options kv \<and> kv_view kv' w' = view)"

lemma kv_afterI:
  "kv_inv ts rs kv' w' \<Longrightarrow> kv_sized n m ts kv' \<Longrightarrow> kv_db_path kv' = kv_db_path kv \<Longrightarrow>
     kv_options kv' = kv_options kv \<Longrightarrow> kv_view kv' w' = view \<Longrightarrow>
     kv_after n m kv view (Ret (Status_OK, kv', w'))"
  by (auto simp: kv_after_def)

lemma kv_after_mono:
  "kv_after n m kv view res \<Longrightarrow> n \<le> n' \<Longrightarrow> m \<le> m' \<Longrightarrow> kv_after n' m' kv view res"
  unfolding kv_after_def by (blast intro: kv_sized_mono)

lemma kv_after_cong:
  "kv_db_path kv = kv_db_path kv' \<Longrightarrow> kv_options kv = kv_options kv' \<Longrightarrow>
     kv_after n m kv view res = kv_after n m kv' view res"
  by (simp add: kv_after_def)

lemma kv_compactInternal_after:
  assumes "kv_inv ts rs kv w" "kv_sized n m ts kv" "capacity n (kv_options kv)" "m < 2 ^ 64 - 1"
  shows "kv_after n (Suc m) kv (kv_view kv w) (kv_compactInternal kv w)"
proof (cases "2 \<le> length ts")
  case True
  then have ne: "ts \<noteq> []" by auto
  have can: "can_compact ts kv" by (rule kv_sized_can_compact [OF assms(2-4)])
  show ?thesis
    unfolding kv_compactInternal_eq [OF assms(1) True can]
    by (rule kv_afterI [OF kv_inv_compacted [OF assms(1) ne can] kv_sized_compacted [OF assms(2,4)]])
      (simp_all add: kv_view_compacted [OF assms(1) ne can])
next
  case False
  then have "length (kv_sstables kv) < 2"
    using assms(1) by (simp add: kv_inv_def kv_memory_def)
  then have "kv_compactInternal kv w = Ret (Status_OK, kv, w)"
    by (simp add: kv_compactInternal_def)
  then show ?thesis
    using kv_afterI [OF assms(1) kv_sized_mono [OF assms(2), of n "Suc m"]] by simp
qed

lemma kv_flushInternal_after:
  assumes "kv_inv ts rs kv w" "kv_sized n m ts kv" "capacity n (kv_options kv)" "Suc m < 2 ^ 64 - 1"
  shows "kv_after n (m + 2) kv (kv_view kv w) (kv_flushInternal kv w)"
proof (cases "mt_empty (kv_memtable kv)")
  case True
  then have "kv_flushInternal kv w = Ret (Status_OK, kv, w)" by (simp add: kv_flushInternal_def)
  then show ?thesis
    using kv_afterI [OF assms(1) kv_sized_mono [OF assms(2), of n "m + 2"]] by simp
next
  case False
  let ?kv' = "flushed ts kv" and ?w' = "emit (flush_events ts kv) w"
  have m: "m < 2 ^ 64 - 1" using assms(4) by simp
  have can: "can_flush kv" by (rule kv_sized_can_flush [OF assms(1-3) m])
  note inv' = kv_inv_flushed [OF assms(1) can] and sized' = kv_sized_flushed [OF assms(2) m]
  have "kv_after n (m + 2) ?kv' (kv_view ?kv' ?w') (kv_compactInternal ?kv' ?w')"
    using kv_compactInternal_after [OF inv' sized' _ assms(4)] assms(3) by simp
  then have "kv_after n (m + 2) kv (kv_view kv w) (kv_compactInternal ?kv' ?w')"
    using kv_after_cong [of kv ?kv'] by (simp add: kv_view_flushed [OF assms(1) can])
  moreover have "kv_after n (m + 2) kv (kv_view kv w) (Ret (Status_OK, ?kv', ?w'))"
    by (rule kv_afterI [OF inv' kv_sized_mono [OF sized', of n "m + 2"]])
      (simp_all add: kv_view_flushed [OF assms(1) can])
  ultimately show ?thesis
    unfolding kv_flushInternal_eq [OF assms(1) False can] by simp
qed

lemma kv_flush_if_full_after:
  assumes "kv_inv ts rs kv w" "kv_sized n m ts kv" "capacity n (kv_options kv)" "Suc m < 2 ^ 64 - 1"
  shows "kv_after n (m + 2) kv (kv_view kv w) (kv_flush_if_full kv w)"
  using kv_flushInternal_after [OF assms] kv_afterI [OF assms(1) kv_sized_mono [OF assms(2), of n "m + 2"]]
  by (simp add: kv_flush_if_full_def)

text \<open>Logging a record and applying it to the MemTable.\<close>

abbreviation (input) log_record :: "WALRecord \<Rightarrow> KVStore \<Rightarrow> world \<Rightarrow> world" where
  "log_record r kv w \<equiv> emit [EvAppend (wal_path (kv_db_path kv)) (wal_frame r)] w"

lemma kv_log_eq:
  assumes "kv_inv ts rs kv w" "wal_valid (wal_record t k v)"
  shows "wal_appendRecord t k v (kv_wal kv) w =
    Ret (Status_OK, kv_wal kv, log_record (wal_record t k v) kv w)"
proof -
  have mem: "wal_ready (kv_wal kv)" "faults w = []" "wal_filepath (kv_wal kv) = wal_path (kv_db_path kv)"
    using assms(1) by (simp_all add: kv_inv_def kv_memory_def)
  have "length k + length (wr_value (wal_record t k v)) < 2 ^ 32"
    using assms(2) by (auto simp: wal_valid_def wal_record_def split: if_splits)
  from wal_append_ready [OF mem(1,2) this] mem(3) show ?thesis by simp
qed

lemma kv_view_logged:
  assumes "kv_inv ts rs kv w" "wal_valid (wal_record t k v)"
    and "mt_abs (kv_replay_record (wal_record t k v) (kv_memtable kv)) = (mt_abs (kv_memtable kv))(k \<mapsto> x)"
  shows "kv_view (kv\<lparr>kv_memtable := kv_replay_record (wal_record t k v) (kv_memtable kv)\<rparr>)
    (log_record (wal_record t k v) kv w) = (kv_view kv w)(k := x)"
  unfolding kv_view_levels [OF assms(1)] kv_view_levels [OF kv_inv_logged [OF assms(1,2)]]
  by (simp add: assms(3) map_add_upd visible_upd)

lemma kv_log_after:
  assumes "kv_inv ts rs kv w" "kv_sized n m ts kv" "wal_valid (wal_record t k v)"
    and "mt_abs (kv_replay_record (wal_record t k v) (kv_memtable kv)) = (mt_abs (kv_memtable kv))(k \<mapsto> x)"
  shows "kv_after (Suc n) m kv ((kv_view kv w)(k := x)) (Ret (Status_OK,
      kv\<lparr>kv_memtable := kv_replay_record (wal_record t k v) (kv_memtable kv)\<rparr>,
      log_record (wal_record t k v) kv w))"
  by (rule kv_afterI [OF kv_inv_logged [OF assms(1,3)] kv_sized_logged [OF assms(2,3)]])
    (simp_all add: kv_view_logged [OF assms(1,3,4)])

lemma kv_replay_simps [simp]:
  "kv_replay_record (wal_record PUT k v) m = mt_put k v m"
  "kv_replay_record (wal_record TOMBSTONE k v) m = mt_remove k m"
  by (simp_all add: kv_replay_record_def wal_record_def)

lemma kv_inv_memtable_wf: "kv_inv ts rs kv w \<Longrightarrow> mt_wf (kv_memtable kv)"
  unfolding kv_inv_def by (blast intro: kv_memory_wf)

lemma kv_put_eq:
  assumes "kv_is_open kv" "key \<noteq> []" "kv_flush_if_full kv w = Ret (Status_OK, kv1, w1)"
    and "kv_inv ts1 rs1 kv1 w1" "wal_valid (wal_record PUT key v)"
  shows "kv_put key v kv w = Ret (Status_OK, kv1\<lparr>kv_memtable := mt_put key v (kv_memtable kv1)\<rparr>,
    log_record (wal_record PUT key v) kv1 w1)"
  using assms(1-3) kv_log_eq [OF assms(4,5)] by (simp add: kv_put_def wal_appendPut_def)

lemma kv_put_after:
  assumes "kv_inv ts rs kv w" "kv_sized n m ts kv" "capacity n (kv_options kv)" "Suc m < 2 ^ 64 - 1"
    and "key \<noteq> []" "wal_valid (wal_record PUT key v)"
  shows "kv_after (Suc n) (m + 2) kv ((kv_view kv w)(key := Some v)) (kv_put key v kv w)"
proof -
  obtain ts1 rs1 kv1 w1 where flush: "kv_flush_if_full kv w = Ret (Status_OK, kv1, w1)"
    and 1: "kv_inv ts1 rs1 kv1 w1" "kv_sized n (m + 2) ts1 kv1" "kv_db_path kv1 = kv_db_path kv"
      "kv_options kv1 = kv_options kv" "kv_view kv1 w1 = kv_view kv w"
    using kv_flush_if_full_after [OF assms(1-4)] by (auto simp: kv_after_def)
  have "kv_is_open kv" using assms(1) by (simp add: kv_inv_def kv_memory_def)
  note eq = kv_put_eq [OF this assms(5) flush 1(1) assms(6)]
  show ?thesis
    unfolding eq
    using kv_log_after [OF 1(1,2) assms(6), of "Some v"] kv_inv_memtable_wf [OF 1(1)]
      kv_after_cong [of kv1 kv] 1(3-5) by (simp add: mt_abs_put)
qed

lemma kv_remove_after:
  assumes "kv_inv ts rs kv w" "kv_sized n m ts kv" "capacity n (kv_options kv)" "Suc m < 2 ^ 64 - 1"
    and "key \<noteq> []" "wal_valid (wal_record TOMBSTONE key [])"
  shows "kv_after (Suc n) (m + 2) kv ((kv_view kv w)(key := None)) (kv_remove key kv w)"
proof -
  obtain ts1 rs1 kv1 w1 where flush: "kv_flush_if_full kv w = Ret (Status_OK, kv1, w1)"
    and 1: "kv_inv ts1 rs1 kv1 w1" "kv_sized n (m + 2) ts1 kv1" "kv_db_path kv1 = kv_db_path kv"
      "kv_options kv1 = kv_options kv" "kv_view kv1 w1 = kv_view kv w"
    using kv_flush_if_full_after [OF assms(1-4)] by (auto simp: kv_after_def)
  have "kv_is_open kv" using assms(1) by (simp add: kv_inv_def kv_memory_def)
  then have eq: "kv_remove key kv w = Ret (Status_OK,
      kv1\<lparr>kv_memtable := mt_remove key (kv_memtable kv1)\<rparr>,
      log_record (wal_record TOMBSTONE key []) kv1 w1)"
    using assms(5) kv_log_eq [OF 1(1) assms(6)] by (simp add: kv_remove_def flush wal_appendDelete_def)
  show ?thesis
    unfolding eq
    using kv_log_after [OF 1(1,2) assms(6), of None] kv_inv_memtable_wf [OF 1(1)]
      kv_after_cong [of kv1 kv] 1(3-5) by (simp add: mt_abs_remove)
qed

lemma kv_restart_after:
  assumes "kv_inv ts rs kv w" "kv_sized n m ts kv" "1 \<le> m"
  shows "kv_after n m kv (kv_view kv w) (kv_restart kv w)"
proof -
  let ?kv' = "kv_recovered (kv_db_path kv) ts rs (kv_new (kv_options kv))"
  have mem: "kv_memory ts rs kv" using assms(1) by (simp add: kv_inv_def)
  have "unat (fold max (map fst ts) 0 + 1) \<le> m"
  proof (cases "fold max (map fst ts) 0 = (0 :: u64)")
    case False
    then have "fold max (map fst ts) 0 \<in> fst ` set ts" using fold_max_in [of "map fst ts" 0] by auto
    then have "fold max (map fst ts) 0 < kv_next_sst_seq kv"
      using mem unfolding kv_memory_def by blast
    then have "Suc (unat (fold max (map fst ts) 0)) \<le> m"
      using assms(2) by (simp add: kv_sized_def word_less_nat_alt)
    then show ?thesis by (simp add: unat_word_ariths le_trans [OF mod_less_eq_dividend])
  qed (use assms(3) in simp)
  then have sized: "kv_sized n m ts ?kv'"
    using assms(2) by (simp add: kv_sized_def kv_recovered_memtable [OF mem])
      (simp add: kv_recovered_def kv_loaded_def)
  show ?thesis
    unfolding kv_restart_eq [OF assms(1)]
    by (rule kv_afterI [OF kv_inv_restart [OF assms(1)] sized]) (simp_all add: kv_view_restart [OF assms(1)])
qed

section \<open>Operations and their specification\<close>

datatype client_op = Put bytes bytes | Remove bytes | Flush | Compact | Restart

definition client_exec ::
  "client_op \<Rightarrow> KVStore \<Rightarrow> world \<Rightarrow> (Status \<times> KVStore \<times> world) outcome" where
  "client_exec op kv w =
    (case op of Put k v \<Rightarrow> kv_put k v kv w | Remove k \<Rightarrow> kv_remove k kv w
     | Flush \<Rightarrow> kv_flush kv w | Compact \<Rightarrow> kv_compact kv w | Restart \<Rightarrow> kv_restart kv w)"

fun map_step :: "client_op \<Rightarrow> (bytes \<Rightarrow> bytes option) \<Rightarrow> bytes \<Rightarrow> bytes option" where
  "map_step (Put k v) f = f(k := Some v)"
| "map_step (Remove k) f = f(k := None)"
| "map_step _ f = f"

text \<open>Keys are not empty, keys and values no longer than what replay accepts.\<close>

fun op_valid :: "client_op \<Rightarrow> bool" where
  "op_valid (Put k v) \<longleftrightarrow> k \<noteq> [] \<and> length k \<le> 16 * 1024 * 1024 \<and> length v \<le> 64 * 1024 * 1024"
| "op_valid (Remove k) \<longleftrightarrow> k \<noteq> [] \<and> length k \<le> 16 * 1024 * 1024"
| "op_valid _ \<longleftrightarrow> True"

text \<open>A sequence of operations, up to the first that fails.\<close>

fun run_all :: "('op \<Rightarrow> 's \<Rightarrow> (Status \<times> 's) outcome) \<Rightarrow> 'op list \<Rightarrow> 's \<Rightarrow> (Status \<times> 's) outcome" where
  "run_all exec [] s = Ret (Status_OK, s)"
| "run_all exec (op # ops) s =
     obind (exec op s) (\<lambda>(st, s). if \<not> ok st then Ret (st, s) else run_all exec ops s)"

definition client_run ::
  "client_op list \<Rightarrow> KVStore \<Rightarrow> world \<Rightarrow> (Status \<times> KVStore \<times> world) outcome" where
  "client_run ops kv w = run_all (\<lambda>op (kv, w). client_exec op kv w) ops (kv, w)"

text \<open>
  The contract between a store and its specification: a state after \<open>n\<close> operations that has room
  for them all takes a further valid one to a state after \<open>n + 1\<close>, in step with the
  specification. The room a state has is fixed.
\<close>

locale simulation =
  fixes exec :: "'op \<Rightarrow> 's \<Rightarrow> (Status \<times> 's) outcome"
    and spec :: "'op \<Rightarrow> 'a \<Rightarrow> 'a"
    and view :: "'s \<Rightarrow> 'a"
    and valid :: "'op \<Rightarrow> bool"
    and inv :: "nat \<Rightarrow> 's \<Rightarrow> bool"
    and room :: "'s \<Rightarrow> nat \<Rightarrow> bool"
  assumes exec_ok: "inv n s \<Longrightarrow> room s n \<Longrightarrow> valid op \<Longrightarrow> \<exists>s'. exec op s = Ret (Status_OK, s') \<and>
      inv (Suc n) s' \<and> view s' = spec op (view s) \<and> room s' = room s"
    and room_mono: "room s n \<Longrightarrow> m \<le> n \<Longrightarrow> room s m"
begin

lemma run_ok:
  "inv n s \<Longrightarrow> room s (n + length ops) \<Longrightarrow> list_all valid ops \<Longrightarrow>
     \<exists>s'. run_all exec ops s = Ret (Status_OK, s') \<and> inv (n + length ops) s' \<and>
       view s' = fold spec ops (view s)"
proof (induction ops arbitrary: n s)
  case (Cons op ops)
  have "room s n" using Cons.prems(2) by (rule room_mono) simp
  then obtain s1 where 1: "exec op s = Ret (Status_OK, s1)" "inv (Suc n) s1"
    "view s1 = spec op (view s)" "room s1 = room s"
    using exec_ok [OF Cons.prems(1), of op] Cons.prems(3) by auto
  show ?case using Cons.IH [OF 1(2)] Cons.prems(2,3) 1(1,3,4) by simp
qed simp

end

text \<open>The states of a store after \<open>n\<close> operations.\<close>

definition kv_ok :: "nat \<Rightarrow> KVStore \<Rightarrow> world \<Rightarrow> bool" where
  "kv_ok n kv w \<longleftrightarrow> (\<exists>ts rs. kv_inv ts rs kv w \<and> kv_sized n (2 * n + 1) ts kv)"

lemma client_exec_after:
  assumes "kv_inv ts rs kv w" "kv_sized n (2 * n + 1) ts kv" "capacity n (kv_options kv)" "op_valid op"
  shows "kv_after (Suc n) (2 * Suc n + 1) kv (map_step op (kv_view kv w)) (client_exec op kv w)"
proof -
  have m: "Suc (2 * n + 1) < 2 ^ 64 - 1" "2 * n + 1 < 2 ^ 64 - 1"
    using assms(3) by (simp_all add: capacity_def)
  have open_kv: "kv_is_open kv" using assms(1) by (simp add: kv_inv_def kv_memory_def)
  show ?thesis
  proof (cases op)
    case (Put k v)
    then have "wal_valid (wal_record PUT k v)" "k \<noteq> []"
      using assms(4) by (simp_all add: wal_valid_def wal_record_def)
    then show ?thesis
      using kv_put_after [OF assms(1-3) m(1), of k v] by (simp add: Put client_exec_def)
  next
    case (Remove k)
    then have "wal_valid (wal_record TOMBSTONE k [])" "k \<noteq> []"
      using assms(4) by (simp_all add: wal_valid_def wal_record_def)
    then show ?thesis
      using kv_remove_after [OF assms(1-3) m(1), of k] by (simp add: Remove client_exec_def)
  next
    case Flush
    then show ?thesis
      using kv_after_mono [OF kv_flushInternal_after [OF assms(1-3) m(1)]] open_kv
      by (simp add: client_exec_def kv_flush_def)
  next
    case Compact
    then show ?thesis
      using kv_after_mono [OF kv_compactInternal_after [OF assms(1-3) m(2)]] open_kv
      by (simp add: client_exec_def kv_compact_def)
  next
    case Restart
    then show ?thesis
      using kv_after_mono [OF kv_restart_after [OF assms(1,2)]] by (simp add: client_exec_def)
  qed
qed

lemma client_exec_ok:
  assumes "kv_ok n kv w" "capacity n (kv_options kv)" "op_valid op"
  shows "\<exists>kv' w'. client_exec op kv w = Ret (Status_OK, kv', w') \<and> kv_ok (Suc n) kv' w' \<and>
    kv_db_path kv' = kv_db_path kv \<and> kv_options kv' = kv_options kv \<and>
    kv_view kv' w' = map_step op (kv_view kv w)"
  using assms client_exec_after unfolding kv_ok_def kv_after_def by blast

interpretation client: simulation "\<lambda>op (kv, w). client_exec op kv w" map_step "\<lambda>(kv, w). kv_view kv w"
    op_valid "\<lambda>n (kv, w). kv_ok n kv w" "\<lambda>(kv, w) n. capacity n (kv_options kv)"
proof
  fix n and s :: "KVStore \<times> world" and op
  assume "case s of (kv, w) \<Rightarrow> kv_ok n kv w" "(case s of (kv, w) \<Rightarrow> \<lambda>n. capacity n (kv_options kv)) n"
    "op_valid op"
  then show "\<exists>s'. (case s of (kv, w) \<Rightarrow> client_exec op kv w) = Ret (Status_OK, s') \<and>
      (case s' of (kv, w) \<Rightarrow> kv_ok (Suc n) kv w) \<and>
      (case s' of (kv, w) \<Rightarrow> kv_view kv w) = map_step op (case s of (kv, w) \<Rightarrow> kv_view kv w) \<and>
      (case s' of (kv, w) \<Rightarrow> \<lambda>n. capacity n (kv_options kv)) =
      (case s of (kv, w) \<Rightarrow> \<lambda>n. capacity n (kv_options kv))"
    using client_exec_ok [of n "fst s" "snd s" op] by (force simp: case_prod_unfold)
next
  fix s :: "KVStore \<times> world" and n m :: nat
  assume "(case s of (kv, w) \<Rightarrow> \<lambda>n. capacity n (kv_options kv)) n" "m \<le> n"
  then show "(case s of (kv, w) \<Rightarrow> \<lambda>n. capacity n (kv_options kv)) m"
    by (auto intro: capacity_mono)
qed

lemma client_run_ok:
  assumes "kv_ok n kv w" "capacity (n + length ops) (kv_options kv)" "list_all op_valid ops"
  shows "\<exists>kv' w'. client_run ops kv w = Ret (Status_OK, kv', w') \<and> kv_ok (n + length ops) kv' w' \<and>
    kv_view kv' w' = fold map_step ops (kv_view kv w)"
  using client.run_ok [of n "(kv, w)" ops] assms by (auto simp: client_run_def)

lemma kv_ok_get:
  "kv_ok n kv w \<Longrightarrow> key \<noteq> [] \<Longrightarrow> reads (kv_view kv w) key (fst (kv_get key kv w)) \<and> snd (kv_get key kv w) = w"
  unfolding kv_ok_def using kv_get_reads kv_inv_serves by blast

lemma kv_ok_fresh:
  assumes "fresh db w"
  shows "\<exists>kv w'. kv_open db (kv_new opt) w = Ret (Status_OK, kv, w') \<and> kv_ok 0 kv w' \<and>
    kv_options kv = opt \<and> kv_db_path kv = db \<and> kv_view kv w' = Map.empty \<and> kv_sstables kv = [] \<and>
    kv_memtable kv = mt_new (memtable_size_threshold opt)"
proof -
  let ?kv = "kv_recovered db [] [] (kv_new opt)"
  obtain w' where op: "kv_open db (kv_new opt) w = Ret (Status_OK, ?kv, w')" and inv: "kv_inv [] [] ?kv w'"
    using kv_open_fresh [OF assms kv_closed_new] by blast
  have "kv_sized 0 1 [] ?kv"
    by (simp add: kv_sized_def kv_recovered_def kv_loaded_def) (simp add: mt_entries_def mt_new_def)
  then have "kv_ok 0 ?kv w'" using inv by (auto simp: kv_ok_def)
  moreover have "kv_view ?kv w' = Map.empty"
    unfolding kv_view_levels [OF inv] by (auto simp: kv_recovered_def visible_def fun_eq_iff)
  ultimately show ?thesis
    using op by (auto simp: kv_recovered_def kv_loaded_def kv_new_def)
qed

section \<open>Properties\<close>

text \<open>
  C1: the store is a map. On a new database, any sequence of at most \<open>n\<close> puts, removes,
  flushes, compactions and restarts, with keys and values within the limits of the log and
  options under which \<open>n\<close> entries fit, returns \<^verbatim>\<open>OK\<close> throughout, whatever flushes and
  compactions it triggers; afterwards a lookup of any key finds what the same puts and removes
  leave in a map.
\<close>

theorem kv_run_refines:
  assumes "fresh db w" "capacity (length ops) opt" "list_all op_valid ops"
  shows "\<exists>kv1 w1 kv w'. kv_open db (kv_new opt) w = Ret (Status_OK, kv1, w1) \<and>
    client_run ops kv1 w1 = Ret (Status_OK, kv, w') \<and>
    (\<forall>key. key \<noteq> [] \<longrightarrow> reads (fold map_step ops Map.empty) key (fst (kv_get key kv w')))"
proof -
  obtain kv1 w1 where 1: "kv_open db (kv_new opt) w = Ret (Status_OK, kv1, w1)" "kv_ok 0 kv1 w1"
    "kv_options kv1 = opt" "kv_view kv1 w1 = Map.empty"
    using kv_ok_fresh [OF assms(1)] by blast
  then obtain kv w' where 2: "client_run ops kv1 w1 = Ret (Status_OK, kv, w')"
    "kv_ok (length ops) kv w'" "kv_view kv w' = fold map_step ops Map.empty"
    using client_run_ok [OF 1(2), of ops] assms(2,3) by auto
  show ?thesis using 1(1) 2(1) kv_ok_get [OF 2(2)] 2(3) by auto
qed

definition sample_ops :: "client_op list" where
  "sample_ops =
    [Put [1] [5], Put [2] [6], Flush, Put [1] [7], Remove [2], Flush, Compact, Restart, Put [3] []]"

theorem kv_run_refines_witness:
  "\<exists>kv1 w1 kv w'. kv_open (lit ''d'') (kv_new default_options) empty_world = Ret (Status_OK, kv1, w1) \<and>
    client_run sample_ops kv1 w1 = Ret (Status_OK, kv, w') \<and>
    fst (kv_get [1] kv w') = Result_OK [7] \<and> (\<exists>msg. fst (kv_get [2] kv w') = Result_NotFound msg)"
proof -
  have "fresh (lit ''d'') empty_world" "capacity (length sample_ops) default_options"
    "list_all op_valid sample_ops"
    by (simp_all add: fresh_def empty_world_def fs_exists_def lit_def capacity_def
        default_options_def sample_ops_def)
  from kv_run_refines [OF this] obtain kv1 w1 kv w' where
    "kv_open (lit ''d'') (kv_new default_options) empty_world = Ret (Status_OK, kv1, w1)"
    "client_run sample_ops kv1 w1 = Ret (Status_OK, kv, w')"
    and get: "\<forall>key. key \<noteq> [] \<longrightarrow>
      reads (fold map_step sample_ops Map.empty) key (fst (kv_get key kv w'))"
    by blast
  moreover have "fst (kv_get [1] kv w') = Result_OK [7]" "\<exists>msg. fst (kv_get [2] kv w') = Result_NotFound msg"
    using get [rule_format, of "[1]"] get [rule_format, of "[2]"] by (simp_all add: reads_def sample_ops_def)
  ultimately show ?thesis by blast
qed

text \<open>
  C2: every operation does what it says and keeps the store in order. From a state after \<open>n\<close>
  operations, a put, a remove, a flush, a compaction or a restart returns \<^verbatim>\<open>OK\<close>, whether or not
  it flushes and compacts on the way, and leaves a state after \<open>n + 1\<close> operations of the same
  database whose map is changed by that put or remove and by nothing else.
\<close>

theorem kv_step_refines:
  assumes "kv_ok n kv w" "capacity n (kv_options kv)" "op_valid op"
  shows "\<exists>kv' w'. client_exec op kv w = Ret (Status_OK, kv', w') \<and> kv_ok (Suc n) kv' w' \<and>
    kv_db_path kv' = kv_db_path kv \<and> kv_options kv' = kv_options kv \<and>
    kv_view kv' w' = map_step op (kv_view kv w)"
  by (rule client_exec_ok [OF assms])

theorem kv_step_refines_witness:
  "\<exists>kv1 w1 kv2 w2. kv_open (lit ''d'') (kv_new default_options) empty_world = Ret (Status_OK, kv1, w1) \<and>
    client_exec (Put [1] [5]) kv1 w1 = Ret (Status_OK, kv2, w2) \<and> kv_view kv2 w2 = [[1] \<mapsto> [5]]"
proof -
  have "fresh (lit ''d'') empty_world"
    by (simp add: fresh_def empty_world_def fs_exists_def lit_def)
  from kv_ok_fresh [OF this, of default_options] obtain kv1 w1 where
    1: "kv_open (lit ''d'') (kv_new default_options) empty_world = Ret (Status_OK, kv1, w1)"
      "kv_ok 0 kv1 w1" "kv_options kv1 = default_options" "kv_view kv1 w1 = Map.empty"
    by blast
  have "capacity 0 (kv_options kv1)" by (simp add: 1(3) capacity_def default_options_def)
  from kv_step_refines [OF 1(2) this, of "Put [1] [5]"] 1(1,4) show ?thesis by auto
qed

text \<open>
  C3: reads are right. In every state that operations lead to, a lookup returns the value that
  the store's map holds for the key, or not found when it holds none, and changes nothing; the
  levels behind the first that knows the key are not consulted.
\<close>

theorem kv_get_correct:
  assumes "kv_ok n kv w" "key \<noteq> []"
  shows "case kv_view kv w key of
      Some v \<Rightarrow> kv_get key kv w = (Result_OK v, w)
    | None \<Rightarrow> \<exists>msg. kv_get key kv w = (Result_NotFound msg, w)"
  using kv_ok_get [OF assms] by (cases "kv_get key kv w") (auto simp: reads_def split: option.splits)

theorem kv_get_correct_witness:
  "\<exists>kv1 w1. kv_open (lit ''d'') (kv_new default_options) empty_world = Ret (Status_OK, kv1, w1) \<and>
    (\<exists>msg. kv_get [1] kv1 w1 = (Result_NotFound msg, w1))"
proof -
  have "fresh (lit ''d'') empty_world"
    by (simp add: fresh_def empty_world_def fs_exists_def lit_def)
  from kv_ok_fresh [OF this, of default_options] obtain kv1 w1 where
    1: "kv_open (lit ''d'') (kv_new default_options) empty_world = Ret (Status_OK, kv1, w1)"
      "kv_ok 0 kv1 w1" "kv_view kv1 w1 = Map.empty"
    by blast
  from kv_get_correct [OF 1(2), of "[1]"] 1(1,3) show ?thesis by auto
qed

end
