(* ===== verification/Crash.thy ===== *)
theory Crash
  imports Client
begin

text \<open>
  Crashes. The world records every change of a file in order; a crash leaves what some prefix
  of them made of the disk, with the last append possibly cut short. What a new process finds
  when it opens the database on such a disk is the subject of this theory.
\<close>

section \<open>The disk after a crash\<close>

declare apply_event.simps [simp del]

inductive crash :: "io_event list \<Rightarrow> disk \<Rightarrow> disk \<Rightarrow> bool" where
  crash_stop: "crash evs d d"
| crash_torn: "crash (EvAppend p bs # evs) d (apply_event (EvAppend p (take n bs)) d)"
| crash_step: "crash evs (apply_event e d) d' \<Longrightarrow> crash (e # evs) d d'"

inductive_simps crash_Nil [simp]: "crash [] d d'"
inductive_cases crash_ConsE: "crash (e # evs) d d'"

lemma crash_all: "crash evs d (apply_events evs d)"
  by (induction evs arbitrary: d) (auto intro: crash_step)

lemma crash_prefix: "crash evs d d' \<Longrightarrow> crash (evs @ evs') d d'"
  by (induction evs d d' rule: crash.induct) (auto intro: crash.intros)

lemma crash_append: "crash (evs @ evs') d d' \<Longrightarrow> crash evs d d' \<or> crash evs' (apply_events evs d) d'"
proof (induction evs arbitrary: d)
  case (Cons e evs)
  from Cons.prems have "crash (e # (evs @ evs')) d d'" by simp
  then show ?case
    by (cases rule: crash_ConsE) (use Cons.IH in \<open>auto intro: crash.intros\<close>)
qed simp

lemma crash_single:
  assumes "crash [e] d d'" "\<And>p bs. e \<noteq> EvAppend p bs"
  shows "d' = d \<or> d' = apply_event e d"
  using assms by (auto elim!: crash_ConsE)

lemma crash_single_append:
  assumes "crash [EvAppend p bs] d d'"
  shows "d' = d \<or> (\<exists>n. d' = apply_event (EvAppend p (take n bs)) d)"
  using assms
  by (cases rule: crash_ConsE) (auto intro: exI [of _ "length bs"])

text \<open>The files that an event concerns; the others are as they were.\<close>

fun event_paths :: "io_event \<Rightarrow> path set" where
  "event_paths (EvCreate p) = {p}"
| "event_paths (EvTrunc p) = {p}"
| "event_paths (EvAppend p bs) = {p}"
| "event_paths (EvRename p q) = {p, q}"
| "event_paths (EvRemove p) = {p}"

lemma apply_event_outside: "q \<notin> event_paths e \<Longrightarrow> apply_event e d q = d q"
  by (cases e) (auto simp: apply_event.simps split: option.splits)

lemma crash_outside: "crash evs d d' \<Longrightarrow> q \<notin> (\<Union>e\<in>set evs. event_paths e) \<Longrightarrow> d' q = d q"
  by (induction evs d d' rule: crash.induct) (auto simp: apply_event_outside)

declare apply_event.simps [simp]

text \<open>
  A crash somewhere between two worlds of a run, and the world in which the next process
  starts.
\<close>

definition crash_between :: "world \<Rightarrow> world \<Rightarrow> disk \<Rightarrow> bool" where
  "crash_between w w' d \<longleftrightarrow> (\<exists>evs. events w' = events w @ evs \<and> crash evs (files w) d)"

definition after_crash :: "disk \<Rightarrow> world \<Rightarrow> world" where
  "after_crash d w = w\<lparr>files := d, faults := [], events := []\<rparr>"

lemma after_crash_simps [simp]:
  "files (after_crash d w) = d" "faults (after_crash d w) = []" "dirs (after_crash d w) = dirs w"
  "after_crash d (emit evs w) = after_crash d w"
  by (simp_all add: after_crash_def emit_def)

lemma crash_between_emit [simp]: "crash_between w (emit evs w) d \<longleftrightarrow> crash evs (files w) d"
  by (simp add: crash_between_def)

section \<open>Opening after a crash\<close>

text \<open>Opening a new store succeeds and its lookups read the given map.\<close>

definition reopens :: "path \<Rightarrow> Options \<Rightarrow> world \<Rightarrow> (bytes \<Rightarrow> bytes option) \<Rightarrow> bool" where
  "reopens db opt w view \<longleftrightarrow>
    (\<exists>kv w'. kv_open db (kv_new opt) w = Ret (Status_OK, kv, w') \<and> kv_view kv w' = view \<and>
       (\<forall>key. key \<noteq> [] \<longrightarrow> reads view key (fst (kv_get key kv w'))))"

text \<open>The map that tables and the records of a log stand for.\<close>

definition stored_view :: "Options \<Rightarrow> tab list \<Rightarrow> WALRecord list \<Rightarrow> bytes \<Rightarrow> bytes option" where
  "stored_view opt ts rs = visible (merge_levels (map tab_level ts) ++
     mt_abs (fold kv_replay_record rs (mt_new (memtable_size_threshold opt))))"

lemma kv_inv_stored: "kv_inv ts rs kv w \<Longrightarrow> kv_view kv w = stored_view (kv_options kv) ts rs"
  by (simp add: kv_view_levels stored_view_def) (simp add: kv_inv_def kv_memory_def)

lemma reopens_loaded:
  assumes "faults w = []" "db \<noteq> []" "\<forall>t\<in>set ts. on_disk w (tab_disk db t)" "\<forall>n\<in>fst ` set ts. n < - 1"
    and "log_holds db rs t w"
    and "kv_open db (kv_new opt) w = Ret (kv_open_wal (kv_loaded db ts (kv_new opt)) w)"
  shows "reopens db opt w (stored_view opt ts rs)"
proof -
  let ?kv = "kv_recovered db ts rs (kv_new opt)" and ?w' = "emit [EvCreate (wal_path db)] w"
  have "on_disk ?w' (tab_disk db t) = on_disk w (tab_disk db t)" for t
    by (intro on_disk_cong) (simp add: tab_disk_def split: option.splits)
  then have serves: "kv_serves ts rs ?kv ?w'"
    using assms(1,3) kv_recovered_memory [OF assms(2,4) kv_closed_new] by (simp add: kv_serves_def)
  moreover have "kv_view ?kv ?w' = stored_view opt ts rs"
    unfolding kv_serves_levels [OF serves] stored_view_def by (simp add: kv_recovered_def)
  ultimately show ?thesis
    unfolding reopens_def assms(6) kv_open_wal_recovers [OF assms(1,5) kv_closed_new]
    using kv_get_reads [OF serves] by auto
qed

lemma reopens_tables:
  assumes "faults w = []" "db \<noteq> []" "kv_tables db ts w" "log_holds db rs t w"
  shows "reopens db opt w (stored_view opt ts rs)"
proof (rule reopens_loaded [OF assms(1,2) _ _ assms(4)])
  show "kv_open db (kv_new opt) w = Ret (kv_open_wal (kv_loaded db ts (kv_new opt)) w)"
    using kv_open_tables [OF assms(1-3)] kv_closed_new by (simp add: kv_closed_def)
qed (use assms(3) in \<open>simp_all add: kv_tables_def\<close>)

lemma kv_tables_cong:
  assumes "\<forall>n\<in>fst ` set ts. files w' (sst_path db n) = files w (sst_path db n)"
    and "files w' (manifest_path db) = files w (manifest_path db)" "dirs w' = dirs w"
  shows "kv_tables db ts w' = kv_tables db ts w"
proof -
  have "on_disk w' (tab_disk db t) = on_disk w (tab_disk db t)" if "t \<in> set ts" for t
    using assms(1) that by (intro on_disk_cong) (auto simp: tab_disk_def)
  then show ?thesis by (simp add: kv_tables_def manifest_lines_def assms(2,3))
qed

lemma kv_tables_wal:
  assumes "\<And>q. q \<noteq> wal_path db \<Longrightarrow> files w' q = files w q" "dirs w' = dirs w"
  shows "kv_tables db ts w' = kv_tables db ts w"
  using assms(2) by (intro kv_tables_cong ballI assms(1)) simp_all

lemma log_holds_cong:
  "files w' (wal_path db) = files w (wal_path db) \<Longrightarrow> log_holds db rs t w' = log_holds db rs t w"
  by (simp add: log_holds_def)

section \<open>A crash while the log is appended to\<close>

lemma crash_append_record:
  assumes "kv_inv ts rs kv w" "wal_valid r"
    and "crash [EvAppend (wal_path (kv_db_path kv)) (wal_frame r)] (files w) d"
  shows "reopens (kv_db_path kv) opt (after_crash d w) (stored_view opt ts rs) \<or>
    reopens (kv_db_path kv) opt (after_crash d w) (stored_view opt ts (rs @ [r]))"
proof -
  let ?db = "kv_db_path kv"
  have ne: "?db \<noteq> []" and tabs: "kv_tables ?db ts w" and rs: "list_all wal_valid rs"
    and wal: "files w (wal_path ?db) = Some (concat (map wal_frame rs))"
    using assms(1) by (simp_all add: kv_inv_def kv_disk_def kv_memory_def)
  have same: "d q = files w q" if "q \<noteq> wal_path ?db" for q
    using crash_outside [OF assms(3)] that by simp
  have tabs': "kv_tables ?db ts (after_crash d w)"
    using kv_tables_wal [of ?db "after_crash d w" w ts] same tabs by simp
  from assms(3) consider "d = files w"
    | n where "d (wal_path ?db) = Some (concat (map wal_frame rs) @ take n (wal_frame r))"
    using wal by (fastforce dest: crash_single_append)
  then show ?thesis
  proof cases
    case 1
    then have "log_holds ?db rs [] (after_crash d w)" using wal rs by (simp add: log_holds_def)
    from reopens_tables [OF _ ne tabs' this] show ?thesis by simp
  next
    case (2 n)
    show ?thesis
    proof (cases "length (wal_frame r) \<le> n")
      case True
      then have "log_holds ?db (rs @ [r]) [] (after_crash d w)"
        using 2 rs assms(2) by (simp add: log_holds_def)
      from reopens_tables [OF _ ne tabs' this] show ?thesis by simp
    next
      case False
      then have "strict_prefix (take n (wal_frame r)) (wal_frame r)"
        by (metis linorder_not_le order_refl prefix_order.le_less take_all_iff take_is_prefix)
      then have "log_holds ?db rs (take n (wal_frame r)) (after_crash d w)"
        using 2 rs assms(2) by (auto simp: log_holds_def torn_def)
      from reopens_tables [OF _ ne tabs' this] show ?thesis by simp
    qed
  qed
qed

section \<open>A crash while the MemTable is flushed\<close>

text \<open>The changes before the rename concern only the new table and the temporary manifest.\<close>

definition flush_prepare :: "tab list \<Rightarrow> KVStore \<Rightarrow> io_event list" where
  "flush_prepare ts kv =
     (let db = kv_db_path kv in
      tab_events db (flush_tab kv) @ [EvTrunc (manifest_tmp db)] @
      append_events (manifest_tmp db) (manifest_content (ts @ [flush_tab kv])))"

lemma flush_events_split:
  "flush_events ts kv = flush_prepare ts kv @
     [EvRename (manifest_tmp (kv_db_path kv)) (manifest_path (kv_db_path kv))] @
     [EvTrunc (wal_path (kv_db_path kv))]"
  by (simp add: flush_events_def flush_prepare_def manifest_events_def Let_def)

lemma flush_prepare_paths:
  "(\<Union>e\<in>set (flush_prepare ts kv). event_paths e) \<subseteq>
     {sst_path (kv_db_path kv) (kv_next_sst_seq kv), manifest_tmp (kv_db_path kv)}"
  by (auto simp: flush_prepare_def tab_events_def append_events_def flush_tab_def Let_def split: if_splits)

lemma crash_flush_prepare:
  assumes "kv_inv ts rs kv w" "crash (flush_prepare ts kv) (files w) d"
  shows "reopens (kv_db_path kv) opt (after_crash d w) (stored_view opt ts rs)"
proof -
  let ?db = "kv_db_path kv"
  have same: "d q = files w q" if "q \<noteq> sst_path ?db (kv_next_sst_seq kv)" "q \<noteq> manifest_tmp ?db" for q
    using crash_outside [OF assms(2)] flush_prepare_paths that by blast
  have "kv_next_sst_seq kv \<notin> fst ` set ts"
    using assms(1) unfolding kv_inv_def kv_memory_def by blast
  then have other: "\<forall>n\<in>fst ` set ts. sst_path ?db n \<noteq> sst_path ?db (kv_next_sst_seq kv)"
    by (metis sst_path_inject)
  have "kv_tables ?db ts (after_crash d w) = kv_tables ?db ts w"
    using other by (intro kv_tables_cong) (simp_all add: same)
  moreover have "log_holds ?db rs [] (after_crash d w) = log_holds ?db rs [] w"
    by (intro log_holds_cong) (simp add: same)
  ultimately show ?thesis
    using assms(1) kv_inv_log_holds [OF assms(1)]
    by (intro reopens_tables) (simp_all add: kv_inv_def kv_disk_def kv_memory_def)
qed

lemma stored_view_flushed:
  assumes "kv_inv ts rs kv w"
  shows "stored_view (kv_options kv) (ts @ [flush_tab kv]) rs = kv_view kv w"
    "stored_view (kv_options kv) (ts @ [flush_tab kv]) [] = kv_view kv w"
proof -
  have m: "kv_memtable kv = fold kv_replay_record rs (mt_new (memtable_size_threshold (kv_options kv)))"
    using assms by (simp add: kv_inv_def kv_memory_def)
  show "stored_view (kv_options kv) (ts @ [flush_tab kv]) rs = kv_view kv w"
    "stored_view (kv_options kv) (ts @ [flush_tab kv]) [] = kv_view kv w"
    unfolding kv_view_levels [OF assms]
    by (simp_all add: stored_view_def tab_level_flush map_add_idem flip: m)
qed

lemma crash_flush:
  assumes "kv_inv ts rs kv w" "can_flush kv" "crash (flush_events ts kv) (files w) d"
  shows "reopens (kv_db_path kv) (kv_options kv) (after_crash d w) (kv_view kv w)"
proof -
  let ?db = "kv_db_path kv" and ?opt = "kv_options kv"
  let ?pre = "apply_events (flush_prepare ts kv) (files w)"
  let ?mid = "apply_event (EvRename (manifest_tmp ?db) (manifest_path ?db)) ?pre"
  let ?wf = "emit (flush_events ts kv) w"
  note inv' = kv_inv_flushed [OF assms(1,2)]
  have fin: "files ?wf = apply_event (EvTrunc (wal_path ?db)) ?mid"
    by (simp add: flush_events_split)
  have tabs: "kv_tables ?db (ts @ [flush_tab kv]) ?wf" and log: "log_holds ?db [] [] ?wf"
    using inv' kv_inv_log_holds [OF inv'] by (simp_all add: kv_inv_def kv_disk_def)
  have ne: "?db \<noteq> []" using assms(1) by (simp add: kv_inv_def kv_memory_def)
  from assms(3) consider "crash (flush_prepare ts kv) (files w) d" | "d = ?mid"
    | "d = apply_event (EvTrunc (wal_path ?db)) ?mid"
    unfolding flush_events_split
    by (auto dest!: crash_append crash_single simp del: apply_event.simps
        intro: crash_all simp: append_Cons [symmetric] simp del: append_Cons)
  then show ?thesis
  proof cases
    case 1
    then show ?thesis
      using crash_flush_prepare [OF assms(1)] kv_inv_stored [OF assms(1)] by simp
  next
    case 2
    have same: "d q = files ?wf q" if "q \<noteq> wal_path ?db" for q
      using that unfolding 2 fin by simp
    have "kv_tables ?db (ts @ [flush_tab kv]) (after_crash d w) = kv_tables ?db (ts @ [flush_tab kv]) ?wf"
      by (rule kv_tables_wal) (use same in simp_all)
    with tabs have "kv_tables ?db (ts @ [flush_tab kv]) (after_crash d w)" by blast
    moreover have "d (wal_path ?db) = files w (wal_path ?db)"
    proof -
      have "?pre (wal_path ?db) = files w (wal_path ?db)"
      proof (rule crash_outside [OF crash_all])
        show "wal_path ?db \<notin> (\<Union>e\<in>set (flush_prepare ts kv). event_paths e)"
          using flush_prepare_paths [of ts kv] names_distinct by fastforce
      qed
      then show ?thesis by (simp add: 2 split: option.splits)
    qed
    then have "log_holds ?db rs [] (after_crash d w)"
      using kv_inv_log_holds [OF assms(1)] by (subst log_holds_cong [of _ _ w]) simp_all
    ultimately show ?thesis
      using reopens_tables [OF after_crash_simps(2) ne, of "ts @ [flush_tab kv]" d w rs "[]"
          "kv_options kv"] stored_view_flushed(1) [OF assms(1)] by simp
  next
    case 3
    have "kv_tables ?db (ts @ [flush_tab kv]) (after_crash d w)"
      using tabs by (subst kv_tables_cong [of _ _ _ ?wf]) (simp_all add: 3 fin del: emit_simps(3))
    moreover have "log_holds ?db [] [] (after_crash d w)"
      using log by (subst log_holds_cong [of _ _ ?wf]) (simp_all add: 3 fin del: emit_simps(3))
    ultimately show ?thesis
      using reopens_tables [OF after_crash_simps(2) ne, of "ts @ [flush_tab kv]" d w "[]" "[]"
          "kv_options kv"] stored_view_flushed(2) [OF assms(1)] by simp
  qed
qed

lemma below_threshold:
  assumes "Suc n < unat (t :: u64)" shows "\<not> t \<le> of_nat (n + 1)"
  using assms unat_u64_lt [of t] by (simp add: word_le_nat_alt unat_of_nat_u64 del: of_nat_add of_nat_Suc)

text \<open>A flush that does not compact is these events, and so is one that \<^verbatim>\<open>put\<close> starts.\<close>

lemma kv_flush_no_compaction:
  assumes "kv_inv ts rs kv w" "can_flush kv" "\<not> mt_empty (kv_memtable kv)"
    and "Suc (length ts) < unat (compaction_threshold (kv_options kv))"
  shows "kv_flushInternal kv w = Ret (Status_OK, flushed ts kv, emit (flush_events ts kv) w)"
proof -
  have "\<not> compaction_threshold (kv_options kv) \<le> of_nat (length ts + 1)"
    by (rule below_threshold [OF assms(4)])
  then show ?thesis unfolding kv_flushInternal_eq [OF assms(1,3,2)] by simp
qed

lemma flush_if_full_cases:
  assumes "kv_inv ts rs kv w" "can_flush kv"
    and "mt_isFull (kv_memtable kv) \<longrightarrow> Suc (length ts) < unat (compaction_threshold (kv_options kv))"
  obtains "kv_flush_if_full kv w = Ret (Status_OK, kv, w)"
  | "kv_flush_if_full kv w = Ret (Status_OK, flushed ts kv, emit (flush_events ts kv) w)"
  using assms kv_flush_no_compaction [OF assms(1,2)]
  by (cases "mt_isFull (kv_memtable kv)"; cases "mt_empty (kv_memtable kv)")
    (auto simp: kv_flush_if_full_def kv_flushInternal_def)

lemma kv_ok_can_flush: "kv_inv ts rs kv w \<Longrightarrow> kv_sized n (2 * n + 1) ts kv \<Longrightarrow>
    capacity n (kv_options kv) \<Longrightarrow> can_flush kv"
  using kv_sized_can_flush [of ts rs kv w n "2 * n + 1"] by (simp add: capacity_def)

text \<open>A crash of the append leaves the old map or the new one.\<close>

lemma crash_log_record:
  assumes "kv_inv ts rs kv w" "wal_valid (wal_record t k v)"
    and "mt_abs (kv_replay_record (wal_record t k v) (kv_memtable kv)) = (mt_abs (kv_memtable kv))(k \<mapsto> x)"
    and "crash [EvAppend (wal_path (kv_db_path kv)) (wal_frame (wal_record t k v))] (files w) d"
  shows "reopens (kv_db_path kv) (kv_options kv) (after_crash d w) (kv_view kv w) \<or>
    reopens (kv_db_path kv) (kv_options kv) (after_crash d w) ((kv_view kv w)(k := x))"
  using crash_append_record [OF assms(1,2,4), of "kv_options kv"] kv_inv_stored [OF assms(1)]
    kv_inv_stored [OF kv_inv_logged [OF assms(1,2)]] kv_view_logged [OF assms(1-3)] by simp

section \<open>A crash while tables are compacted\<close>

text \<open>Opening skips the names of the manifest whose files are gone.\<close>

lemma kv_load_missing:
  "\<forall>n\<in>set ns. \<not> fs_exists (sst_path db n) w \<Longrightarrow>
     kv_load_sstables (map sst_filename ns) db en readers m w = Ret (Status_OK, readers, m, w)"
  by (induction ns) (simp_all add: Let_def sst_path_def)

lemma kv_open_missing:
  assumes "faults w = []" "db \<noteq> []" "dirs w db" "manifest_lines db w = map sst_filename ns"
    and "\<forall>n\<in>set ns. \<not> fs_exists (sst_path db n) w" "\<not> kv_is_open kv"
  shows "kv_open db kv w = Ret (kv_open_wal (kv_loaded db [] kv) w)"
proof -
  have "fs_exists db w" using assms(3) by (simp add: fs_exists_def)
  then show ?thesis
    using assms(2,6) kv_read_manifest_lines [OF assms(1), of db] assms(4)
      kv_load_missing [OF assms(5), of "enable_bloom_filter (kv_options kv)" "[]" 0]
    by (simp add: kv_open_def kv_open_closed_def Let_def kv_loaded_def manifest_path_def)
qed

lemma crash_compact_loses:
  assumes "kv_inv ts rs kv w" "2 \<le> length ts" "can_compact ts kv"
    and "\<forall>p. files w p = None \<or> \<not> dirs w p"
  shows "\<exists>d. crash (kv_compact_events ts kv w) (files w) d \<and>
    reopens (kv_db_path kv) (kv_options kv) (after_crash d w) (visible (mt_abs (kv_memtable kv)))"
proof -
  let ?db = "kv_db_path kv" and ?out = "sst_path (kv_db_path kv) (kv_next_sst_seq kv)"
  let ?dts = "map (tab_disk (kv_db_path kv)) ts"
  let ?evs = "compact_events ?dts ?out (kv_options kv) True w"
  let ?d = "apply_events ?evs (files w)"
  have ne: "ts \<noteq> []" using assms(2) by auto
  note ready = kv_compact_ready [OF assms(1) ne assms(3)]
  have files: "?d q = (if q = ?out then Some (sst_image (kv_options kv) (compacted ?dts))
      else if q = compact_temp_path ?out \<or> q \<in> sst_path ?db ` fst ` set ts then None
      else files w q)" for q
    using compact_files [OF ready, of True q] unfolding tab_disk_paths by simp
  have "kv_next_sst_seq kv \<notin> fst ` set ts"
    using assms(1) unfolding kv_inv_def kv_memory_def by blast
  then have gone: "?d (sst_path ?db n) = None" if "n \<in> fst ` set ts" for n
    unfolding files using that by (metis image_eqI sst_path_inject)
  have "manifest_lines ?db (after_crash ?d w) = manifest_lines ?db w"
    "log_holds ?db rs [] (after_crash ?d w) = log_holds ?db rs [] w"
    by (auto simp: manifest_lines_def files log_holds_def)
  then have lines: "manifest_lines ?db (after_crash ?d w) = map sst_filename (map fst ts)"
    and log: "log_holds ?db rs [] (after_crash ?d w)"
    using assms(1) kv_inv_log_holds [OF assms(1)] by (simp_all add: kv_inv_def kv_disk_def kv_tables_def)
  have "files w (sst_path ?db n) \<noteq> None" if "n \<in> fst ` set ts" for n
    using assms(1) that by (auto simp: kv_inv_def kv_disk_def kv_tables_def on_disk_def tab_disk_def)
  then have "\<not> fs_exists (sst_path ?db n) (after_crash ?d w)" if "n \<in> fst ` set ts" for n
    using gone [OF that] assms(4) that by (metis after_crash_simps(1,3) fs_exists_def)
  then have missing: "\<forall>n\<in>set (map fst ts). \<not> fs_exists (sst_path ?db n) (after_crash ?d w)"
    by simp
  have db: "?db \<noteq> []" "dirs (after_crash ?d w) ?db"
    using assms(1) by (simp_all add: kv_inv_def kv_disk_def kv_tables_def kv_memory_def)
  have opened: "kv_open ?db (kv_new (kv_options kv)) (after_crash ?d w) =
      Ret (kv_open_wal (kv_loaded ?db [] (kv_new (kv_options kv))) (after_crash ?d w))"
    using kv_closed_new kv_open_missing [OF _ db lines missing] by (simp add: kv_closed_def)
  have "stored_view (kv_options kv) [] rs = visible (mt_abs (kv_memtable kv))"
    using assms(1) by (simp add: stored_view_def kv_inv_def kv_memory_def)
  then have "reopens ?db (kv_options kv) (after_crash ?d w) (visible (mt_abs (kv_memtable kv)))"
    using reopens_loaded [OF _ db(1) _ _ log opened] by simp
  moreover have "crash (kv_compact_events ts kv w) (files w) ?d"
    unfolding kv_compact_events_def by (rule crash_prefix [OF crash_all])
  ultimately show ?thesis by blast
qed

section \<open>Writing after a torn record\<close>

text \<open>
  Opening does not cut off the torn end of a log, and the next record is written behind it. One
  byte of a torn record is enough to hide a record with a key and a value of one byte.
\<close>

lemma wal_read_behind_torn:
  "\<exists>msg. wal_read_record (in_stream (PUT # frame PUT [a] [b])) = Stop (Status_Corruption msg) True"
proof -
  obtain c0 c1 c2 c3 where c: "encodeUint32LE (crc32 (frame_body PUT [a] [b]) 0) = [c0, c1, c2, c3]"
    by (simp add: encodeUint32LE_def)
  have "PUT # frame PUT [a] [b] = [1, 1, 1, 0, 0, 0, 1, 0, 0] @ [0, a, b, c0, c1, c2, c3]"
    unfolding frame_def c by (simp add: frame_body_def frame_header_def encodeUint32LE_def)
  then show ?thesis
    by (intro exI [of _ "lit ''Truncated WAL record key payload''"], simp only: wal_read_record_def)
      (simp add: ifs_read_in_stream Let_def ifs_read_len_def decodeUint32LE_def ifs_read_def)
qed

lemma kv_open_behind_torn:
  assumes "faults w = []" "db \<noteq> []" "kv_tables db ts w" "kv_closed kv"
    and "files w (wal_path db) = Some (concat (map wal_frame rs) @ t)" "list_all wal_valid rs"
    and "t \<noteq> []" "wal_read_record (in_stream t) = Stop (Status_Corruption msg) True"
  shows "kv_open db kv w = Ret (Status_OK, kv_recovered db ts rs kv, emit [EvCreate (wal_path db)] w)"
proof -
  let ?m0 = "mt_new (memtable_size_threshold (kv_options kv))"
  have "wal_replay (wal_path db) kv_replay_record ?m0 w =
      ((Status_Corruption msg, True, fold kv_replay_record rs ?m0), w)"
    unfolding wal_replay_file [OF assms(1,5)] replay_loop_stop [OF assms(6-8)] ..
  from kv_open_wal_ok [OF assms(1,4) this disjI2 refl] assms(5)
  have "kv_open_wal (kv_loaded db ts kv) w =
      (Status_OK, kv_recovered db ts rs kv, emit [EvCreate (wal_path db)] w)" by simp
  then show ?thesis using kv_open_tables [OF assms(1-3)] assms(4) by (simp add: kv_closed_def)
qed

lemma kv_put_after_torn:
  assumes "kv_inv ts rs kv w" "\<not> mt_isFull (kv_memtable kv)"
    and "d = (files w)(wal_path (kv_db_path kv) \<mapsto> concat (map wal_frame rs) @ [PUT])"
  shows "\<exists>kv1 w1 kv2 w2 kv3 w3.
    kv_open (kv_db_path kv) (kv_new (kv_options kv)) (after_crash d w) = Ret (Status_OK, kv1, w1) \<and>
    kv_put [a] [b] kv1 w1 = Ret (Status_OK, kv2, w2) \<and> kv_get [a] kv2 w2 = (Result_OK [b], w2) \<and>
    kv_restart kv2 w2 = Ret (Status_OK, kv3, w3) \<and> kv_view kv3 w3 = kv_view kv w"
proof -
  let ?db = "kv_db_path kv" and ?opt = "kv_options kv" and ?wal = "wal_path (kv_db_path kv)"
  let ?kv = "kv_recovered ?db ts rs (kv_new ?opt)" and ?w0 = "after_crash d w"
  let ?w1 = "emit [EvCreate ?wal] ?w0"
  let ?w2 = "emit [EvAppend ?wal (frame PUT [a] [b])] ?w1"
  let ?kv2 = "?kv\<lparr>kv_memtable := mt_put [a] [b] (kv_memtable ?kv)\<rparr>"
  have mem: "kv_memory ts rs kv" and ne: "?db \<noteq> []" and tabs: "kv_tables ?db ts w"
    and rs: "list_all wal_valid rs" and seq: "\<forall>n\<in>fst ` set ts. n < - 1"
    using assms(1) by (simp_all add: kv_inv_def kv_disk_def kv_memory_def kv_tables_def)
  have tabs0: "kv_tables ?db ts ?w0"
    using tabs by (subst kv_tables_cong [of ts _ _ w]) (simp_all add: assms(3))
  have "wal_valid (wal_record PUT [a] [b])" by (simp add: wal_valid_def wal_record_def)
  moreover have "strict_prefix [PUT] (wal_frame (wal_record PUT [a] [b]))"
    by (simp add: wal_frame_def wal_record_def frame_def frame_body_def frame_header_def strict_prefix_def)
  ultimately have log0: "log_holds ?db rs [PUT] ?w0"
    using rs by (auto simp: log_holds_def assms(3) torn_def)
  have open1: "kv_open ?db (kv_new ?opt) ?w0 = Ret (Status_OK, ?kv, ?w1)"
    using kv_open_recovers [OF _ ne tabs0 log0 kv_closed_new] by simp
  have memt: "kv_memtable ?kv = kv_memtable kv" using kv_recovered_memtable [OF mem] by simp
  note mem1 = kv_recovered_memory [OF ne seq kv_closed_new, of rs ?opt]
  have ready: "kv_is_open ?kv" "wal_ready (kv_wal ?kv)" "wal_filepath (kv_wal ?kv) = ?wal"
    using mem1 by (simp_all add: kv_memory_def)
  have "wal_appendRecord PUT [a] [b] (kv_wal ?kv) ?w1 = Ret (Status_OK, kv_wal ?kv, ?w2)"
    using wal_append_ready [OF ready(2), of ?w1 "[a]" PUT "[b]"] ready(3)
    by (simp add: wal_record_def wal_frame_def)
  then have put: "kv_put [a] [b] ?kv ?w1 = Ret (Status_OK, ?kv2, ?w2)"
    using ready(1) assms(2) by (simp add: kv_put_def kv_flush_if_full_def memt wal_appendPut_def)
  have "mt_abs (mt_put [a] [b] (kv_memtable kv)) [a] = Some (Some [b])" "mt_wf (mt_put [a] [b] (kv_memtable kv))"
    using kv_inv_memtable_wf [OF assms(1)] by (simp_all add: mt_abs_put mt_wf_put)
  then have "mt_get [a] (mt_put [a] [b] (kv_memtable kv)) = (Result_OK [b], False)"
    by (intro mt.get_value)
  then have get: "kv_get [a] ?kv2 ?w2 = (Result_OK [b], ?w2)"
    using ready(1) by (simp add: kv_get_def memt)
  have closed: "\<exists>kv'. kv_close ?kv2 ?w2 = (Status_OK, kv', ?w2)"
    using ready by (simp add: kv_close_def wal_close_def wal_ready_def io_simps append_events_def)
  obtain msg where stop:
    "wal_read_record (in_stream (PUT # frame PUT [a] [b])) = Stop (Status_Corruption msg) True"
    using wal_read_behind_torn by blast
  have wal2: "files ?w2 ?wal = Some (concat (map wal_frame rs) @ PUT # frame PUT [a] [b])"
    by (simp add: assms(3))
  have same: "files ?w2 q = files w q" if "q \<noteq> ?wal" for q
    using that by (simp add: assms(3) split: option.splits)
  have tabs2: "kv_tables ?db ts ?w2"
    using kv_tables_wal [of ?db ?w2 w ts, OF same] tabs by simp
  have "kv_open ?db (kv_new ?opt) ?w2 = Ret (Status_OK, ?kv, emit [EvCreate ?wal] ?w2)"
    by (rule kv_open_behind_torn [OF _ ne tabs2 kv_closed_new wal2 rs _ stop]) simp_all
  then have restart: "kv_restart ?kv2 ?w2 = Ret (Status_OK, ?kv, emit [EvCreate ?wal] ?w2)"
    using closed by (auto simp: kv_restart_def kv_recovered_def kv_loaded_def kv_new_def)
  have tabs3: "\<forall>t\<in>set ts. on_disk (emit [EvCreate ?wal] ?w2) (tab_disk ?db t)"
    using tabs2 kv_tables_create [of ?db ts ?w2] by (simp add: kv_tables_def del: kv_tables_create)
  then have serves: "kv_serves ts rs ?kv (emit [EvCreate ?wal] ?w2)"
    using mem1 by (simp add: kv_serves_def)
  have "kv_view ?kv (emit [EvCreate ?wal] ?w2) = kv_view kv w"
    unfolding kv_serves_levels [OF serves] kv_view_levels [OF assms(1)] by (simp add: memt)
  with open1 put get restart show ?thesis by blast
qed

section \<open>A store with two tables and a log\<close>

definition sample_tabs :: "tab list" where
  "sample_tabs =
    [(1, default_options, [\<lparr>kve_key = [1], kve_value = [5], kve_type = PUT\<rparr>]),
     (2, default_options, [\<lparr>kve_key = [2], kve_value = [6], kve_type = PUT\<rparr>])]"

definition sample_db :: path where
  "sample_db = lit ''d''"

definition sample_stored :: world where
  "sample_stored = empty_world\<lparr>dirs := (\<lambda>p. p = sample_db), files :=
     (map_of (map (\<lambda>t. (sst_path sample_db (fst t), sst_image (fst (snd t)) (snd (snd t)))) sample_tabs))
       (manifest_path sample_db \<mapsto> manifest_content sample_tabs,
        wal_path sample_db \<mapsto> wal_frame sample_record)\<rparr>"

definition sample_store :: KVStore where
  "sample_store = kv_recovered sample_db sample_tabs [sample_record] (kv_new default_options)"

definition sample_world :: world where
  "sample_world = emit [EvCreate (wal_path sample_db)] sample_stored"

lemma sample_simps [simp]:
  "kv_db_path sample_store = sample_db" "kv_options sample_store = default_options"
  "length (kv_sstables sample_store) = 2" "faults sample_stored = []"
  "kv_memtable sample_store = mt_put [5] [6] (mt_new (4 * 1024 * 1024))"
  by (simp_all add: sample_store_def)
    (simp_all add: kv_recovered_def kv_loaded_def sample_tabs_def sample_stored_def empty_world_def
      kv_replay_record_def sample_record_def default_options_def kv_new_def)

lemma sample_db_nonempty [simp]: "sample_db \<noteq> []"
  by (simp add: sample_db_def lit_def)

lemma sample_tables_on_disk: "kv_tables sample_db sample_tabs sample_stored"
proof -
  have "manifest_lines sample_db sample_stored = map (\<lambda>t. sst_filename (fst t)) sample_tabs"
    by (intro manifest_lines_eq) (simp add: sample_stored_def)
  moreover have "\<forall>t\<in>set sample_tabs. on_disk sample_stored (tab_disk sample_db t)"
    by (simp add: sample_stored_def sample_tabs_def on_disk_def tab_disk_def sst_path_inject sst_fits_single)
  moreover have "dirs sample_stored sample_db" "distinct (map fst sample_tabs)"
    "\<forall>n\<in>fst ` set sample_tabs. n < - 1"
    by (simp_all add: sample_stored_def sample_tabs_def word_less_nat_alt
        unsigned_minus_1_eq_mask mask_eq_exp_minus_1)
  ultimately show ?thesis unfolding kv_tables_def by blast
qed

lemma sample_log_holds: "log_holds sample_db [sample_record] [] sample_stored"
  by (simp add: log_holds_def sample_stored_def) (simp add: sample_record_def wal_valid_def)

lemma sample_inv: "kv_inv sample_tabs [sample_record] sample_store sample_world"
  unfolding sample_store_def sample_world_def
  by (intro kv_inv_recovered sample_tables_on_disk kv_closed_new sample_log_holds) simp_all

lemma sample_ok: "kv_ok 3 sample_store sample_world"
proof -
  have "kv_sized 3 (2 * 3 + 1) sample_tabs sample_store"
    by (simp add: kv_sized_def mt_entries_def table_mt_put)
      (simp add: sample_tabs_def entry_small_def sst_value_def kve_isTombstone_def sample_store_def
        kv_recovered_def kv_loaded_def)
  then show ?thesis using sample_inv by (auto simp: kv_ok_def)
qed

lemma sample_capacity: "capacity n default_options" if "n \<le> 3"
  using that by (simp add: capacity_def default_options_def)

lemma sample_no_clash: "files sample_world p = None \<or> \<not> dirs sample_world p"
  by (auto simp: sample_world_def sample_stored_def sample_tabs_def sst_path_def manifest_path_def
      wal_path_def lit_def split: option.splits)

section \<open>Properties\<close>

text \<open>
  C5: a flush can be interrupted anywhere. Let a flush that starts no compaction be cut off by
  a crash after any of its changes to the disk, or in the middle of a write: opening the
  database again succeeds, and every lookup finds what it found before.
\<close>

theorem kv_flush_crash_safe:
  assumes "kv_ok n kv w" "capacity n (kv_options kv)"
    and "Suc (length (kv_sstables kv)) < unat (compaction_threshold (kv_options kv))"
    and "kv_flush kv w = Ret (s, kv', w')" "crash_between w w' d"
  shows "reopens (kv_db_path kv) (kv_options kv) (after_crash d w) (kv_view kv w)"
proof -
  obtain ts rs where inv: "kv_inv ts rs kv w" and sized: "kv_sized n (2 * n + 1) ts kv"
    using assms(1) by (auto simp: kv_ok_def)
  have can: "can_flush kv" by (rule kv_ok_can_flush [OF inv sized assms(2)])
  have len: "Suc (length ts) < unat (compaction_threshold (kv_options kv))"
    and open_kv: "kv_is_open kv"
    using inv assms(3) by (simp_all add: kv_inv_def kv_memory_def)
  show ?thesis
  proof (cases "mt_empty (kv_memtable kv)")
    case True
    then have "w' = w" using assms(4) open_kv by (simp add: kv_flush_def kv_flushInternal_def)
    then have "crash [] (files w) d" using assms(5) by (simp add: crash_between_def)
    then have "crash (flush_prepare ts kv) (files w) d" by (simp add: crash_stop)
    then show ?thesis using crash_flush_prepare [OF inv] kv_inv_stored [OF inv] by simp
  next
    case False
    then have "w' = emit (flush_events ts kv) w"
      using assms(4) open_kv kv_flush_no_compaction [OF inv can False len] by (simp add: kv_flush_def)
    with assms(5) show ?thesis by (intro crash_flush [OF inv can]) simp
  qed
qed

lemma sample_can_flush: "can_flush sample_store" "\<not> mt_empty (kv_memtable sample_store)"
proof -
  obtain ts rs where "kv_inv ts rs sample_store sample_world" "kv_sized 3 (2 * 3 + 1) ts sample_store"
    using sample_ok by (auto simp: kv_ok_def)
  then show "can_flush sample_store" using kv_ok_can_flush [of ts rs sample_store sample_world 3] sample_capacity [of 3] by simp
  show "\<not> mt_empty (kv_memtable sample_store)" by (simp add: mt_empty_def table_mt_put)
qed

theorem kv_flush_crash_safe_witness:
  "reopens sample_db default_options (after_crash
      (apply_events (flush_prepare sample_tabs sample_store) (files sample_world)) sample_world)
     (kv_view sample_store sample_world)"
proof -
  let ?w = "emit (flush_events sample_tabs sample_store) sample_world"
  have len: "Suc (length sample_tabs) < unat (compaction_threshold (kv_options sample_store))"
    by (simp add: default_options_def sample_tabs_def)
  have "kv_is_open sample_store" using sample_inv by (simp add: kv_inv_def kv_memory_def)
  then have "kv_flush sample_store sample_world = Ret (Status_OK, flushed sample_tabs sample_store, ?w)"
    using kv_flush_no_compaction [OF sample_inv sample_can_flush len] by (simp add: kv_flush_def)
  moreover have "crash_between sample_world ?w
      (apply_events (flush_prepare sample_tabs sample_store) (files sample_world))"
    unfolding crash_between_emit flush_events_split by (rule crash_prefix [OF crash_all])
  ultimately show ?thesis
    using kv_flush_crash_safe [OF sample_ok] sample_capacity [of 3] by (simp add: default_options_def)
qed

text \<open>
  C4: a put that starts no compaction is atomic under a crash. Let the MemTable not be full, or
  let its flush leave fewer tables than the compaction threshold, let the key and the value be
  within the limits of the log, and let the put be cut off after any of its changes to the disk,
  the flush of a full MemTable and the append to the log included, or in the middle of a write:
  opening the database again succeeds with the map of before or with the map in which the key
  has the new value. Nothing is claimed of a put whose flush compacts: a crash in a compaction
  loses the tables.
\<close>

theorem kv_put_crash_atomic:
  assumes "kv_ok n kv w" "capacity n (kv_options kv)" "op_valid (Put k v)"
    and "mt_isFull (kv_memtable kv) \<longrightarrow>
      Suc (length (kv_sstables kv)) < unat (compaction_threshold (kv_options kv))"
    and "kv_put k v kv w = Ret (s, kv', w')" "crash_between w w' d"
  shows "reopens (kv_db_path kv) (kv_options kv) (after_crash d w) (kv_view kv w) \<or>
    reopens (kv_db_path kv) (kv_options kv) (after_crash d w) ((kv_view kv w)(k := Some v))"
proof -
  obtain ts rs where inv: "kv_inv ts rs kv w" and sized: "kv_sized n (2 * n + 1) ts kv"
    using assms(1) by (auto simp: kv_ok_def)
  have can: "can_flush kv" by (rule kv_ok_can_flush [OF inv sized assms(2)])
  have len: "mt_isFull (kv_memtable kv) \<longrightarrow> Suc (length ts) < unat (compaction_threshold (kv_options kv))"
    and open_kv: "kv_is_open kv"
    using inv assms(4) by (simp_all add: kv_inv_def kv_memory_def)
  have valid: "wal_valid (wal_record PUT k v)" "k \<noteq> []"
    using assms(3) by (simp_all add: wal_valid_def wal_record_def)
  show ?thesis
  proof (cases rule: flush_if_full_cases [OF inv can len])
    case 1
    have "w' = log_record (wal_record PUT k v) kv w"
      using kv_put_eq [OF open_kv valid(2) 1 inv valid(1)] assms(5) by simp
    then show ?thesis
      using crash_log_record [OF inv valid(1), of "Some v"] assms(6) kv_inv_memtable_wf [OF inv]
      by (simp add: mt_abs_put)
  next
    case 2
    let ?kv1 = "flushed ts kv" and ?w1 = "emit (flush_events ts kv) w"
    note inv1 = kv_inv_flushed [OF inv can]
    have "w' = log_record (wal_record PUT k v) ?kv1 ?w1"
      using kv_put_eq [OF open_kv valid(2) 2 inv1 valid(1)] assms(5) by simp
    then have "crash (flush_events ts kv @ [EvAppend (wal_path (kv_db_path kv))
        (wal_frame (wal_record PUT k v))]) (files w) d"
      using assms(6) by simp
    then consider "crash (flush_events ts kv) (files w) d"
      | "crash [EvAppend (wal_path (kv_db_path ?kv1)) (wal_frame (wal_record PUT k v))] (files ?w1) d"
      by (auto dest: crash_append)
    then show ?thesis
    proof cases
      case 1
      then show ?thesis using crash_flush [OF inv can] by blast
    next
      case 2
      then show ?thesis
        using crash_log_record [OF inv1 valid(1) _ 2, of "Some v"] kv_inv_memtable_wf [OF inv1]
        by (simp add: mt_abs_put kv_view_flushed [OF inv can])
    qed
  qed
qed

theorem kv_put_crash_atomic_witness:
  "let d = apply_event (EvAppend (wal_path sample_db) (take 3 (wal_frame (wal_record PUT [9] [8]))))
      (files sample_world);
    view = kv_view sample_store sample_world
  in reopens sample_db default_options (after_crash d sample_world) view \<or>
     reopens sample_db default_options (after_crash d sample_world) (view([9] \<mapsto> [8]))"
proof -
  let ?r = "wal_record PUT [9] [8]"
  have full: "\<not> mt_isFull (kv_memtable sample_store)"
    by (simp add: mt_isFull_def mt_put_def smap_find_def mt_new_def size_of_def kEntryOverhead_def)
  have "kv_is_open sample_store" using sample_inv by (simp add: kv_inv_def kv_memory_def)
  moreover have "kv_flush_if_full sample_store sample_world = Ret (Status_OK, sample_store, sample_world)"
    using full by (simp add: kv_flush_if_full_def)
  moreover have "wal_valid ?r" by (simp add: wal_valid_def wal_record_def)
  ultimately obtain kv' where
    "kv_put [9] [8] sample_store sample_world = Ret (Status_OK, kv', log_record ?r sample_store sample_world)"
    using kv_put_eq [OF _ _ _ sample_inv] by blast
  moreover have "crash_between sample_world (log_record ?r sample_store sample_world)
      (apply_event (EvAppend (wal_path sample_db) (take 3 (wal_frame ?r))) (files sample_world))"
    unfolding crash_between_emit by (simp only: sample_simps crash_torn)
  ultimately show ?thesis
    using kv_put_crash_atomic [OF sample_ok _ _ _, of "[9]" "[8]"] sample_capacity [of 3] full
    by (simp add: Let_def)
qed

text \<open>
  C6: a compaction cannot be interrupted anywhere. On every store with at least two tables a
  compaction, which returns \<^verbatim>\<open>OK\<close>, has a moment, after it removed the old tables and before it
  wrote the manifest, at which a crash loses all of them: opening the database skips the names
  of the manifest without a word, succeeds, and every lookup sees the records of the log only.
\<close>

theorem kv_compaction_crash_loses:
  assumes "kv_ok n kv w" "capacity n (kv_options kv)" "2 \<le> length (kv_sstables kv)"
    and "\<forall>p. files w p = None \<or> \<not> dirs w p"
  shows "\<exists>kv' w' d. kv_compact kv w = Ret (Status_OK, kv', w') \<and> crash_between w w' d \<and>
    reopens (kv_db_path kv) (kv_options kv) (after_crash d w) (visible (mt_abs (kv_memtable kv)))"
proof -
  obtain ts rs where inv: "kv_inv ts rs kv w" and sized: "kv_sized n (2 * n + 1) ts kv"
    using assms(1) by (auto simp: kv_ok_def)
  have can: "can_compact ts kv"
    using kv_sized_can_compact [OF sized assms(2)] assms(2) by (simp add: capacity_def)
  have len: "2 \<le> length ts" and open_kv: "kv_is_open kv"
    using inv assms(3) by (simp_all add: kv_inv_def kv_memory_def)
  have "kv_compact kv w = Ret (Status_OK, compacted_store ts kv, emit (kv_compact_events ts kv w) w)"
    using kv_compactInternal_eq [OF inv len can] open_kv by (simp add: kv_compact_def)
  then show ?thesis using crash_compact_loses [OF inv len can assms(4)] by auto
qed

theorem kv_compaction_crash_loses_witness:
  "\<exists>kv' w' d. kv_compact sample_store sample_world = Ret (Status_OK, kv', w') \<and>
    crash_between sample_world w' d \<and>
    reopens sample_db default_options (after_crash d sample_world) [[5] \<mapsto> [6]]"
proof -
  have "visible (mt_abs (kv_memtable sample_store)) = [[5] \<mapsto> [6]]"
    by (auto simp: mt_abs_put mt_wf_new visible_def fun_eq_iff)
  then show ?thesis
    using kv_compaction_crash_loses [OF sample_ok] sample_capacity [of 3] sample_no_clash by simp
qed

text \<open>
  C7: a write after a torn record is lost. Suppose a crash left one byte of a record at the end
  of the log. Opening the database succeeds and cuts nothing off; a put of a key and a value of
  one byte is acknowledged and read back; but its record stands behind the torn byte, replay
  does not see it, and a restart brings back the map from before the crash.
\<close>

theorem kv_torn_tail_loses_writes:
  assumes "kv_ok n kv w" "\<not> mt_isFull (kv_memtable kv)"
    and "files w (wal_path (kv_db_path kv)) = Some old"
    and "d = (files w)(wal_path (kv_db_path kv) \<mapsto> old @ [PUT])"
  shows "crash [EvAppend (wal_path (kv_db_path kv)) (frame PUT k v)] (files w) d \<and>
    (\<exists>kv1 w1 kv2 w2 kv3 w3.
      kv_open (kv_db_path kv) (kv_new (kv_options kv)) (after_crash d w) = Ret (Status_OK, kv1, w1) \<and>
      kv_put [a] [b] kv1 w1 = Ret (Status_OK, kv2, w2) \<and> kv_get [a] kv2 w2 = (Result_OK [b], w2) \<and>
      kv_restart kv2 w2 = Ret (Status_OK, kv3, w3) \<and> kv_view kv3 w3 = kv_view kv w)"
proof
  have "take 1 (frame PUT k v) = [PUT]"
    by (simp add: frame_def frame_body_def frame_header_def)
  then show "crash [EvAppend (wal_path (kv_db_path kv)) (frame PUT k v)] (files w) d"
    using crash_torn [of "wal_path (kv_db_path kv)" "frame PUT k v" "[]" "files w" 1] assms(3,4) by simp
  obtain ts rs where inv: "kv_inv ts rs kv w" using assms(1) by (auto simp: kv_ok_def)
  then have "old = concat (map wal_frame rs)" using assms(3) by (simp add: kv_inv_def kv_disk_def)
  with assms(4) show "\<exists>kv1 w1 kv2 w2 kv3 w3.
      kv_open (kv_db_path kv) (kv_new (kv_options kv)) (after_crash d w) = Ret (Status_OK, kv1, w1) \<and>
      kv_put [a] [b] kv1 w1 = Ret (Status_OK, kv2, w2) \<and> kv_get [a] kv2 w2 = (Result_OK [b], w2) \<and>
      kv_restart kv2 w2 = Ret (Status_OK, kv3, w3) \<and> kv_view kv3 w3 = kv_view kv w"
    by (intro kv_put_after_torn [OF inv assms(2)]) simp
qed

theorem kv_torn_tail_loses_writes_witness:
  "\<exists>d kv1 w1 kv2 w2 kv3 w3. crash [EvAppend (wal_path sample_db) (frame PUT [7] [7])] (files sample_world) d \<and>
    kv_open sample_db (kv_new default_options) (after_crash d sample_world) = Ret (Status_OK, kv1, w1) \<and>
    kv_put [5] [9] kv1 w1 = Ret (Status_OK, kv2, w2) \<and> kv_get [5] kv2 w2 = (Result_OK [9], w2) \<and>
    kv_restart kv2 w2 = Ret (Status_OK, kv3, w3) \<and> kv_view kv3 w3 [5] = Some [6]"
proof -
  have full: "\<not> mt_isFull (kv_memtable sample_store)"
    by (simp add: mt_isFull_def mt_put_def smap_find_def mt_new_def size_of_def kEntryOverhead_def)
  obtain old where "files sample_world (wal_path sample_db) = Some old"
    using sample_inv by (auto simp: kv_inv_def kv_disk_def)
  moreover have "kv_view sample_store sample_world [5] = Some [6]"
    unfolding kv_view_levels [OF sample_inv] by (simp add: visible_def mt_abs_put mt_wf_new)
  ultimately show ?thesis
    using kv_torn_tail_loses_writes [OF sample_ok full _ refl, of old "[7]" "[7]" 5 9]
    by (simp only: sample_simps) metis
qed

end
