(* ===== verification/Faults.thy ===== *)
theory Faults
  imports Crash
begin

text \<open>
  What the store makes of calls that fail: an unreadable table counts as one without the key,
  and a manifest that could not be written replaces the old one, which loses the database.
\<close>

section \<open>Reading\<close>

text \<open>The first table that must be read cannot be opened; the older ones can.\<close>

lemma sr_get_fault:
  assumes "faults w = [Some n]" "sr_is_open r"
    and "sr_enable_bloom_filter r \<longrightarrow> bf_possiblyContains (sr_bloom_filter r) key"
  shows "\<exists>s. \<not> ok s \<and> sr_get key r w = ((Result_Error s, False), w\<lparr>faults := []\<rparr>)"
  using assms
  by (intro exI [of _ "Status_IOError (lit ''Failed to open SSTable: '' @ sr_filepath r)"])
    (auto simp: sr_get_def sr_scanRange_def ifs_open_def next_fault_def split: prod.splits)

lemma tab_reader_contains:
  assumes "sst_fits (fst (snd t)) (snd (snd t))" "tab_level t key \<noteq> None"
  shows "sr_is_open (tab_reader db en t)" "bf_possiblyContains (sr_bloom_filter (tab_reader db en t)) key"
proof -
  have "key \<in> set (map kve_key (snd (snd t)))"
    using assms(2) kve_map_None [of "snd (snd t)" key] by (auto simp: tab_level_def)
  then show "bf_possiblyContains (sr_bloom_filter (tab_reader db en t)) key"
    using bf.no_false_negatives [OF bf_wf_new] by (simp add: tab_reader_def sst_reader_def sst_bloom_def)
  show "sr_is_open (tab_reader db en t)" by (simp add: tab_reader_def sst_reader_def)
qed

lemma kv_serves_faults: "kv_serves ts rs kv w \<Longrightarrow> kv_serves ts rs kv (w\<lparr>faults := []\<rparr>)"
  by (simp add: kv_serves_def on_disk_def cong: prod.case_cong)

section \<open>Calls that succeed before one that fails\<close>

text \<open>A world in which the next \<open>n\<close> calls succeed and what follows is given.\<close>

definition padded :: "nat \<Rightarrow> nat option list \<Rightarrow> world \<Rightarrow> world" where
  "padded n fs w = w\<lparr>faults := replicate n None @ fs\<rparr>"

lemma padded_simps [simp]:
  "files (padded n fs w) = files w" "emit evs (padded n fs w) = padded n fs (emit evs w)"
  "faults w = [] \<Longrightarrow> padded 0 [] w = w" "faults (padded 0 [] w) = []"
  by (simp_all add: padded_def emit_def)

lemma next_fault_padded [simp]:
  "next_fault (padded (Suc n) fs w) = (None, padded n fs w)"
  "next_fault (padded 0 (f # fs) w) = (f, padded 0 fs w)"
  by (simp_all add: next_fault_def padded_def)

text \<open>A call with a fault to spare is the call without faults.\<close>

lemma ofs_padded [io_simps]:
  "ofs_open_with ev p (padded (Suc n) fs w) =
     (\<lparr>os_path = p, os_open = True, os_bad = False, os_buf = []\<rparr>, padded n fs (emit [ev p] w))"
  "os_open s \<Longrightarrow> \<not> os_bad s \<Longrightarrow>
     ofs_write bs s (padded (Suc n) fs w) = (s\<lparr>os_buf := os_buf s @ bs\<rparr>, padded n fs w)"
  "os_open s \<Longrightarrow> \<not> os_bad s \<Longrightarrow> os_buf s \<noteq> [] \<Longrightarrow> ofs_flush s (padded (Suc n) fs w) =
     (s\<lparr>os_buf := []\<rparr>, padded n fs (emit [EvAppend (os_path s) (os_buf s)] w))"
  "os_buf s = [] \<Longrightarrow> ofs_close s w = (s\<lparr>os_open := False\<rparr>, w)"
  "ifs_open p (padded (Suc n) fs w) = (files w p, padded n fs w)"
  by (simp_all add: ofs_open_with_def ofs_write_def ofs_flush_def ofs_close_def ifs_open_def append_events_def)

lemma sw_append_padded:
  assumes "sw_append k v t sw w = Ret (s, sw', w')" "ok s" "sw_ready p buf sw" "faults w = []"
  shows "sw_append k v t sw (padded (Suc (Suc n)) fs w) = Ret (s, sw', padded n fs w)"
    "\<exists>buf'. sw_ready p buf' sw'" "w' = w"
  using assms by (auto simp: sw_append_def sw_ready_def Let_def io_simps split: if_splits)

lemma sw_append_all_padded:
  assumes "sw_append_all es sw w = Ret (s, sw', w')" "ok s" "sw_ready p buf sw" "faults w = []"
  shows "sw_append_all es sw (padded (2 * length es + n) fs w) = Ret (s, sw', padded n fs w)"
  using assms
proof (induction es arbitrary: sw buf)
  case (Cons e es)
  then obtain s1 sw1 w1 where 1: "sw_append (kve_key e) (kve_value e) (kve_type e) sw w = Ret (s1, sw1, w1)"
    "ok s1" "sw_append_all es sw1 w1 = Ret (s, sw', w')"
    by (cases "sw_append (kve_key e) (kve_value e) (kve_type e) sw w") (auto split: if_splits)
  note step = sw_append_padded [OF 1(1,2) Cons.prems(3,4)]
  obtain buf1 where "sw_ready p buf1 sw1" using step(2) by blast
  then show ?case
    using Cons.IH [of sw1 buf1] Cons.prems(2,4) 1(2,3) step(1,3) by simp
qed simp

lemma sw_finish_padded:
  assumes "sw_finish sw w = (s, sw', w')" "sw_ready p buf sw" "faults w = []"
  shows "sw_finish sw (padded (n + 5) fs w) = (s, sw', padded n fs w')"
proof -
  have 5: "n + 5 = Suc (Suc (Suc (Suc (Suc n))))" by simp
  show ?thesis
    using assms unfolding 5
    by (auto simp: sw_finish_def sw_ready_def Let_def io_simps append_events_def)
qed

lemma sw_open_padded:
  assumes "sw_open p m sw w = (s, sw', w')" "faults w = []"
  shows "sw_open p m sw (padded (n + 2) fs w) = (s, sw', padded n fs w')"
  using assms by (auto simp: sw_open_def Let_def io_simps)

lemma sw_writeFromEntries_padded:
  assumes "faults w = []" "sst_ok opt es"
  shows "sw_writeFromEntries p es opt (padded (2 * length es + n + 7) fs w) =
    Ret (Status_OK, padded n fs (emit [EvTrunc p, EvAppend p (sst_image opt es)] w))"
proof -
  let ?w = "emit [EvTrunc p] w"
  obtain sw1 sw2 sw3 where o: "sw_open p (of_nat (length es)) (sw_new opt) w = (Status_OK, sw1, ?w)"
    and r1: "sw_ready p sst_header sw1"
    and a: "sw_append_all es sw1 ?w = Ret (Status_OK, sw2, ?w)"
    and r2: "sw_ready p (sst_header @ sst_data es) sw2"
    and f: "sw_finish sw2 ?w = (Status_OK, sw3, emit [EvAppend p (sst_image opt es)] ?w)" "\<not> sw_is_open sw3"
    by (rule sw_write_stages [OF assms refl, of p])
  have w: "faults ?w = []" using assms(1) by simp
  have "sw_open p (of_nat (length es)) (sw_new opt) (padded (2 * length es + n + 7) fs w) =
      (Status_OK, sw1, padded (2 * length es + (n + 5)) fs ?w)"
    using sw_open_padded [OF o assms(1), of "2 * length es + (n + 5)" fs] by (simp add: numeral_eq_Suc)
  then show ?thesis
    using sw_append_all_padded [OF a _ r1 w, of "n + 5" fs] sw_finish_padded [OF f(1) r2 w, of n fs] f(2)
    by (simp add: sw_writeFromEntries_def sw_destroy_def)
qed

section \<open>A flush on a full disk\<close>

lemma kv_write_names_padded:
  "faults w = [] \<Longrightarrow> os_open mf \<Longrightarrow> \<not> os_bad mf \<Longrightarrow> kv_write_names rs mf w = (mf', w') \<Longrightarrow>
     kv_write_names rs mf (padded (2 * length rs + n) fs w) = (mf', padded n fs w')"
  by (induction rs arbitrary: mf) (auto simp: io_simps)

text \<open>What such a flush does to the disk: the new table is there, but not in the manifest.\<close>

definition unlisted_events :: "KVStore \<Rightarrow> io_event list" where
  "unlisted_events kv =
    (let db = kv_db_path kv in
     tab_events db (flush_tab kv) @
     [EvTrunc (manifest_tmp db), EvRename (manifest_tmp db) (manifest_path db), EvTrunc (wal_path db)])"

lemma kv_updateManifest_unlisted:
  assumes "faults w = []" "kv_manifest_path kv = manifest_path db"
    and "kv_sstables kv = map (tab_reader db en) ts" "ts \<noteq> []"
  shows "kv_updateManifest kv (padded (2 * length ts + 1) [Some 0] w) =
    (Status_OK, emit [EvTrunc (manifest_tmp db), EvRename (manifest_tmp db) (manifest_path db)] w)"
proof -
  let ?w1 = "emit [EvTrunc (manifest_tmp db)] w"
  let ?mf = "\<lparr>os_path = manifest_tmp db, os_open = True, os_bad = False, os_buf = []\<rparr>"
  have tmp: "manifest_path db @ lit ''.tmp'' = manifest_tmp db" by (simp add: manifest_tmp_def)
  have "kv_write_names (kv_sstables kv) ?mf (padded (2 * length ts) [Some 0] ?w1) =
      (?mf\<lparr>os_buf := manifest_content ts\<rparr>, padded 0 [Some 0] ?w1)"
    using kv_write_names_padded [of ?w1 ?mf "kv_sstables kv" _ _ 0]
      kv_write_names_ok [of ?w1 db en ts "manifest_tmp db" "[]"] assms by simp
  moreover have "manifest_content ts \<noteq> []" using assms(4) by (cases ts) (simp_all add: manifest_content_def)
  moreover have "fs_rename (manifest_tmp db) (manifest_path db) ?w1 =
      (False, emit [EvRename (manifest_tmp db) (manifest_path db)] ?w1)"
    using assms(1) by (intro fs_rename_none) auto
  ultimately show ?thesis
    using assms(1,2)
    by (simp add: kv_updateManifest_def Let_def tmp io_simps ofs_flush_def append_events_def)
qed

lemma kv_flushInternal_unlisted:
  assumes "kv_inv ts rs kv w" "can_flush kv" "\<not> mt_empty (kv_memtable kv)"
    and "Suc (length ts) < unat (compaction_threshold (kv_options kv))"
    and "calls = 2 * length (table (kv_memtable kv)) + 2 * length ts + 11"
  shows "kv_flushInternal kv (padded calls [Some 0] w) =
    Ret (Status_OK, flushed ts kv, emit (unlisted_events kv) w)"
proof -
  let ?db = "kv_db_path kv" and ?opt = "kv_options kv" and ?es = "mt_entries (kv_memtable kv)"
  let ?p = "sst_path ?db (kv_next_sst_seq kv)" and ?en = "enable_bloom_filter (kv_options kv)"
  let ?w1 = "emit (tab_events ?db (flush_tab kv)) w"
  obtain m where m: "m = 2 * length (ts @ [flush_tab kv]) + 1" by simp
  have f: "faults w = []" and mem: "kv_memory ts rs kv" using assms(1) by (simp_all add: kv_inv_def)
  have ss: "kv_sstables kv = map (tab_reader ?db ?en) ts"
    and wal: "wal_ready (kv_wal kv)" "wal_filepath (kv_wal kv) = wal_path ?db"
    using mem by (simp_all add: kv_memory_def)
  have "calls = 2 * length ?es + Suc m + 7" using assms(5) m by (simp add: mt_entries_def)
  moreover have "sst_ok ?opt ?es" using assms(2) by (simp add: can_flush_def sst_fits_def)
  ultimately have wr: "sw_writeFromMemTable ?p (kv_memtable kv) ?opt (padded calls [Some 0] w) =
      Ret (Status_OK, padded (Suc m) [Some 0] ?w1)"
    using f sw_writeFromEntries_padded [of w ?opt ?es ?p "Suc m" "[Some 0]"]
    by (simp only: sw_writeFromMemTable_def tab_events_def flush_tab_def prod.sel)
  have "files ?w1 ?p = Some (sst_image ?opt ?es)" by (simp add: tab_events_def flush_tab_def)
  then have op: "sr_open ?p ?en sr_new (padded (Suc m) [Some 0] ?w1) =
      Ret (Status_OK, tab_reader ?db ?en (flush_tab kv), padded m [Some 0] ?w1)"
    using assms(2) by (simp only: sr_open_def sr_close_def io_simps sr_load_image can_flush_def)
      (simp add: tab_reader_def flush_tab_def can_flush_def sr_load_image)
  let ?kv1 = "kv\<lparr>kv_next_sst_seq := kv_next_sst_seq kv + 1,
    kv_sstables := map (tab_reader ?db ?en) (ts @ [flush_tab kv])\<rparr>"
  have mf: "kv_updateManifest ?kv1 (padded m [Some 0] ?w1) = (Status_OK,
      emit [EvTrunc (manifest_tmp ?db), EvRename (manifest_tmp ?db) (manifest_path ?db)] ?w1)"
    unfolding m using f mem by (intro kv_updateManifest_unlisted [where en = ?en]) (simp_all add: kv_memory_def)
  have path: "?db @ lit ''/'' @ sst_filename (kv_next_sst_seq kv) = ?p" by (simp add: sst_path_def)
  have "\<not> compaction_threshold (kv_options kv) \<le> of_nat (length ts + 1)"
    by (rule below_threshold [OF assms(4)])
  then show ?thesis
    using assms(3) f mf wal_clear_eq [OF _ wal(1)]
    by (simp add: kv_flushInternal_def kv_generateSSTableFilename_def Let_def path wr op ss wal(2)
        flushed_def unlisted_events_def)
qed

lemma unlisted_events_files:
  "apply_events (unlisted_events kv) d q =
    (let db = kv_db_path kv in
     if q = wal_path db \<or> q = manifest_path db then Some []
     else if q = manifest_tmp db then None
     else if q = sst_path db (kv_next_sst_seq kv)
       then Some (sst_image (kv_options kv) (mt_entries (kv_memtable kv)))
     else d q)"
  by (simp add: unlisted_events_def tab_events_def flush_tab_def Let_def)

text \<open>In memory the store is the one after a flush; on disk it is empty.\<close>

lemma unlisted_reads:
  assumes "kv_inv ts rs kv w" "can_flush kv" "key \<noteq> []"
  shows "reads (kv_view kv w) key (fst (kv_get key (flushed ts kv) (emit (unlisted_events kv) w)))"
proof -
  let ?kv = "flushed ts kv" and ?w = "emit (flush_events ts kv) w" and ?w' = "emit (unlisted_events kv) w"
  have serves: "kv_serves (ts @ [flush_tab kv]) [] ?kv ?w"
    by (rule kv_inv_serves [OF kv_inv_flushed [OF assms(1,2)]])
  let ?db = "kv_db_path kv"
  have "files ?w' (sst_path ?db n) = files ?w (sst_path ?db n)" for n
    by (simp add: unlisted_events_files flush_events_files Let_def)
  then have disk: "on_disk ?w' (tab_disk ?db t) = on_disk ?w (tab_disk ?db t)" for t
    by (intro on_disk_cong) (simp only: tab_disk_def fst_conv)
  have db: "kv_db_path ?kv = ?db" by (simp add: flushed_def)
  have "kv_serves (ts @ [flush_tab kv]) [] ?kv ?w'"
    using serves disk by (simp only: kv_serves_def db emit_simps) simp
  then show ?thesis
    using kv_get_reads [OF _ assms(3)] kv_serves_levels [OF serves] kv_view_flushed [OF assms(1,2)]
      kv_serves_levels by metis
qed

lemma unlisted_reopens:
  assumes "kv_inv ts rs kv w"
  shows "reopens (kv_db_path kv) opt (emit (unlisted_events kv) w) (\<lambda>_. None)"
proof -
  let ?w' = "emit (unlisted_events kv) w" and ?db = "kv_db_path kv"
  have db: "faults w = []" "?db \<noteq> []" "dirs w ?db"
    using assms by (simp_all add: kv_inv_def kv_disk_def kv_tables_def kv_memory_def)
  have "kv_tables ?db [] ?w'"
    using db(3) manifest_lines_eq [of ?w' ?db "[]"]
    by (simp add: kv_tables_def unlisted_events_files manifest_content_def Let_def)
  moreover have "log_holds ?db [] [] ?w'"
    by (simp add: log_holds_def unlisted_events_files Let_def)
  moreover have "stored_view opt [] [] = (\<lambda>_. None)"
    by (simp add: stored_view_def visible_def fun_eq_iff)
  ultimately show ?thesis
    using reopens_tables [of ?w' ?db "[]" "[]" "[]" opt] db by simp
qed


section \<open>Properties\<close>

text \<open>
  C33: a read error is taken for an absent key. When the newest table holds the key, and the
  MemTable does not know it, and opening that table's file fails once, a lookup does not report
  the error: it answers from the older tables alone, with an outdated value, or with not found.
\<close>

theorem kv_get_ignores_read_error:
  assumes "kv_inv (ts @ [t]) rs kv w" "key \<noteq> []"
    and "mt_abs (kv_memtable kv) key = None" "tab_level t key \<noteq> None"
  shows "reads (visible (merge_levels (map tab_level ts))) key
    (fst (kv_get key kv (w\<lparr>faults := [Some n]\<rparr>)))"
proof -
  let ?db = "kv_db_path kv" and ?en = "enable_bloom_filter (kv_options kv)"
  let ?w = "w\<lparr>faults := [Some n]\<rparr>"
  have mem: "kv_memory (ts @ [t]) rs kv" and disk: "\<forall>u\<in>set (ts @ [t]). on_disk w (tab_disk ?db u)"
    and f: "faults w = []"
    using assms(1) by (simp_all add: kv_inv_def kv_disk_def kv_tables_def)
  have fits: "sst_fits (fst (snd t)) (snd (snd t))"
    using disk by (cases t) (simp add: on_disk_def tab_disk_def)
  obtain s where err: "\<not> ok s" "sr_get key (tab_reader ?db ?en t) ?w = ((Result_Error s, False), ?w\<lparr>faults := []\<rparr>)"
    using sr_get_fault [of ?w n "tab_reader ?db ?en t" key] tab_reader_contains [OF fits assms(4)] by auto
  have w: "?w\<lparr>faults := []\<rparr> = w" using f by simp
  obtain msg where "mt_get key (kv_memtable kv) = (Result_NotFound msg, False)"
    using mt.get_absent [OF kv_memory_wf [OF mem] assms(3)] by blast
  then have "fst (kv_get key kv ?w) = fst (kv_get_sstables key (rev (map (tab_reader ?db ?en) ts)) w)"
    using mem assms(2) err by (simp add: kv_get_def kv_memory_def w)
  moreover have "\<forall>u\<in>set ts. on_disk w (tab_disk ?db u)" using disk by simp
  ultimately show ?thesis using kv_get_sstables_reads [OF f] by simp
qed

theorem kv_get_ignores_read_error_witness:
  "kv_view sample_store sample_world [2] = Some [6] \<and>
   (\<exists>msg. fst (kv_get [2] sample_store (sample_world\<lparr>faults := [Some 0]\<rparr>)) = Result_NotFound msg)"
proof
  show "kv_view sample_store sample_world [2] = Some [6]"
    unfolding kv_view_levels [OF sample_inv]
    by (simp add: visible_def mt_abs_put mt_wf_new sample_tabs_def merge_levels_def tab_level_def
        kve_isTombstone_def map_add_def)
  obtain t1 t2 where t: "sample_tabs = [t1] @ [t2]" "tab_level t1 [2] = None" "tab_level t2 [2] \<noteq> None"
    by (simp add: sample_tabs_def tab_level_def)
  have "mt_abs (kv_memtable sample_store) [2] = None" by (simp add: mt_abs_put mt_wf_new)
  then show "\<exists>msg. fst (kv_get [2] sample_store (sample_world\<lparr>faults := [Some 0]\<rparr>)) = Result_NotFound msg"
    using kv_get_ignores_read_error [of "[t1]" t2 "[sample_record]" sample_store sample_world "[2]" 0]
      sample_inv t by (simp add: reads_def visible_def merge_levels_def map_add_def)
qed

lemma ofs_write_bad: "os_bad s \<Longrightarrow> ofs_write bs s w = (s, w)"
  by (cases s) (simp add: ofs_write_def)

lemma kv_write_names_bad: "os_bad mf \<Longrightarrow> kv_write_names rs mf w = (mf, w)"
  by (induction rs) (simp_all add: ofs_write_bad)

text \<open>
  C8: a full disk at the wrong moment loses the whole database. Let the flush of a non-empty
  MemTable succeed in everything up to the last call that writes to the temporary manifest, and
  let that one write nothing. Nobody looks at the stream: the empty file is renamed over the
  manifest, the log is truncated, and the flush returns \<^verbatim>\<open>OK\<close>. Lookups still find everything,
  but a store opened afterwards is empty, without an error.
\<close>

theorem kv_flush_loses_all_on_full_disk:
  assumes "kv_ok n kv w" "capacity n (kv_options kv)" "\<not> mt_empty (kv_memtable kv)"
    and "Suc (length (kv_sstables kv)) < unat (compaction_threshold (kv_options kv))"
    and "calls = 2 * length (table (kv_memtable kv)) + 2 * length (kv_sstables kv) + 11"
  shows "\<exists>kv' w'. kv_flush kv (padded calls [Some 0] w) = Ret (Status_OK, kv', w') \<and>
    (\<forall>key. key \<noteq> [] \<longrightarrow> reads (kv_view kv w) key (fst (kv_get key kv' w'))) \<and>
    reopens (kv_db_path kv) (kv_options kv) w' (\<lambda>_. None)"
proof -
  obtain ts rs where inv: "kv_inv ts rs kv w" and sized: "kv_sized n (2 * n + 1) ts kv"
    using assms(1) by (auto simp: kv_ok_def)
  have can: "can_flush kv" by (rule kv_ok_can_flush [OF inv sized assms(2)])
  have "kv_is_open kv" "length (kv_sstables kv) = length ts"
    using inv by (simp_all add: kv_inv_def kv_memory_def)
  then have "kv_flush kv (padded calls [Some 0] w) =
      Ret (Status_OK, flushed ts kv, emit (unlisted_events kv) w)"
    using kv_flushInternal_unlisted [OF inv can assms(3)] assms(4,5) by (simp add: kv_flush_def)
  then show ?thesis
    using unlisted_reads [OF inv can] unlisted_reopens [OF inv] by blast
qed

theorem kv_flush_loses_all_on_full_disk_witness:
  "kv_view sample_store sample_world [5] = Some [6] \<and>
   (\<exists>kv' w'. kv_flush sample_store (padded 17 [Some 0] sample_world) = Ret (Status_OK, kv', w') \<and>
     fst (kv_get [5] kv' w') = Result_OK [6] \<and> reopens sample_db default_options w' (\<lambda>_. None))"
proof
  show view: "kv_view sample_store sample_world [5] = Some [6]"
    unfolding kv_view_levels [OF sample_inv] by (simp add: visible_def mt_abs_put mt_wf_new)
  have 17: "17 = 2 * length (table (kv_memtable sample_store)) + 2 * length (kv_sstables sample_store) + 11"
    by (simp add: table_mt_put)
  have "Suc (length (kv_sstables sample_store)) < unat (compaction_threshold (kv_options sample_store))"
    by (simp add: default_options_def)
  from kv_flush_loses_all_on_full_disk [OF sample_ok _ sample_can_flush(2) this 17] sample_capacity [of 3]
  obtain kv' w' where "kv_flush sample_store (padded 17 [Some 0] sample_world) = Ret (Status_OK, kv', w')"
    "reads (kv_view sample_store sample_world) [5] (fst (kv_get [5] kv' w'))"
    "reopens sample_db default_options w' (\<lambda>_. None)"
    by auto
  then show "\<exists>kv' w'. kv_flush sample_store (padded 17 [Some 0] sample_world) = Ret (Status_OK, kv', w') \<and>
     fst (kv_get [5] kv' w') = Result_OK [6] \<and> reopens sample_db default_options w' (\<lambda>_. None)"
    using view by (auto simp: reads_def)
qed

end
