(* ===== verification/Cli.thy ===== *)
theory Cli
  imports Crash
begin

text \<open>
  \<^verbatim>\<open>src/cli.cpp\<close>: the command-line client. A command is a function of its line and of the
  store; what it prints is part of its result.
\<close>

section \<open>Strings\<close>

definition cli_space :: "byte \<Rightarrow> bool" where
  "cli_space c \<longleftrightarrow> c = 32 \<or> c = 9 \<or> c = 13 \<or> c = 10"

definition trim :: "bytes \<Rightarrow> bytes" where
  "trim str = rev (dropWhile cli_space (rev (dropWhile cli_space str)))"

definition toUpper :: "bytes \<Rightarrow> bytes" where
  "toUpper str = map (\<lambda>c. if 97 \<le> c \<and> c \<le> 122 then c - 32 else c) str"

text \<open>
  \<^verbatim>\<open>iss >> token\<close>: the token, empty when there is none, and the rest of the line, which is what
  \<^verbatim>\<open>std::getline\<close> then delivers.
\<close>

definition next_token :: "bytes \<Rightarrow> bytes \<times> bytes" where
  "next_token s =
    (let t = dropWhile is_space s in
     (takeWhile (\<lambda>c. \<not> is_space c) t, dropWhile (\<lambda>c. \<not> is_space c) t))"

definition out_line :: "string \<Rightarrow> bytes" where
  "out_line s = lit s @ [10]"

section \<open>The commands\<close>

definition getActiveSSTables :: "path \<Rightarrow> world \<Rightarrow> bytes list \<times> world" where
  "getActiveSSTables db_path w =
    (let manifest_path = db_path @ lit ''/manifest.txt'' in
     if fs_exists manifest_path w then
       (case ifs_open manifest_path w of
         (None, w1) \<Rightarrow> ([], w1)
       | (Some content, w1) \<Rightarrow> (filter (\<lambda>line. line \<noteq> []) (map trim (getlines content)), w1))
     else ([], w))"

definition cli_error :: "Status \<Rightarrow> bytes" where
  "cli_error s = lit ''Error: '' @ toString s @ [10]"

definition cli_help :: bytes where
  "cli_help =
     out_line ''Supported Commands:'' @
     out_line ''  PUT <key> <value>    Insert or update key-value pair (supports spaces in value)'' @
     out_line ''  GET <key>            Look up value for key'' @
     out_line ''  DELETE <key>         Delete key (writes tombstone)'' @
     out_line ''  FLUSH                Flush MemTable to a new SSTable on disk'' @
     out_line ''  COMPACT              Merge all active SSTables into a single SSTable'' @
     out_line ''  STATS                Display active SSTable count and MemTable size'' @
     out_line ''  HELP                 Show this help message'' @
     out_line ''  EXIT / QUIT          Close database and exit''"

definition cli_put :: "bytes \<Rightarrow> KVStore \<Rightarrow> world \<Rightarrow> (bytes \<times> KVStore \<times> world) outcome" where
  "cli_put iss kv w =
    (case next_token iss of (key, remaining) \<Rightarrow>
     if key = [] then Ret (out_line ''Error: Missing key. Usage: PUT <key> <value>'', kv, w)
     else
      let val = trim remaining in
      if val = [] then Ret (out_line ''Error: Missing value. Usage: PUT <key> <value>'', kv, w)
      else obind (kv_put key val kv w) (\<lambda>(s, kv, w).
        Ret (if ok s then out_line ''OK [WAL appended]'' else cli_error s, kv, w)))"

definition cli_get :: "bytes \<Rightarrow> KVStore \<Rightarrow> world \<Rightarrow> (bytes \<times> KVStore \<times> world) outcome" where
  "cli_get iss kv w =
    (case next_token iss of (key, _) \<Rightarrow>
     if key = [] then Ret (out_line ''Error: Missing key. Usage: GET <key>'', kv, w)
     else case kv_get key kv w of (r, w) \<Rightarrow>
       Ret (if r_ok r then r_value r @ [10]
            else if isNotFound (r_status r) then out_line ''NOT_FOUND''
            else cli_error (r_status r), kv, w))"

definition cli_delete :: "bytes \<Rightarrow> KVStore \<Rightarrow> world \<Rightarrow> (bytes \<times> KVStore \<times> world) outcome" where
  "cli_delete iss kv w =
    (case next_token iss of (key, _) \<Rightarrow>
     if key = [] then Ret (out_line ''Error: Missing key. Usage: DELETE <key>'', kv, w)
     else obind (kv_remove key kv w) (\<lambda>(s, kv, w).
       Ret (if ok s then out_line ''OK [TOMBSTONE written to WAL/MemTable]'' else cli_error s, kv, w)))"

definition cli_flush :: "path \<Rightarrow> KVStore \<Rightarrow> world \<Rightarrow> (bytes \<times> KVStore \<times> world) outcome" where
  "cli_flush db_path kv w =
    (case getActiveSSTables db_path w of (before_ssts, w) \<Rightarrow>
     obind (kv_flush kv w) (\<lambda>(s, kv, w).
     if \<not> ok s then Ret (cli_error s, kv, w)
     else case getActiveSSTables db_path w of (after_ssts, w) \<Rightarrow>
       Ret (if length before_ssts < length after_ssts then
              out_line ''FLUSH complete'' @
              lit ''SSTable created: '' @ last after_ssts @ [10] @
              lit ''Active SSTables: '' @ decimal (length after_ssts) @ [10]
            else out_line ''FLUSH complete (MemTable was empty, no new SSTable created)'', kv, w)))"

text \<open>The names, separated by commas, as the loops over \<^verbatim>\<open>before_ssts\<close> print them.\<close>

fun cli_names :: "bytes list \<Rightarrow> bytes" where
  "cli_names [] = []"
| "cli_names [n] = n @ [10]"
| "cli_names (n # ns) = n @ lit '', '' @ cli_names ns"

definition cli_compact :: "path \<Rightarrow> KVStore \<Rightarrow> world \<Rightarrow> (bytes \<times> KVStore \<times> world) outcome" where
  "cli_compact db_path kv w =
    (case getActiveSSTables db_path w of (before_ssts, w) \<Rightarrow>
     if length before_ssts < 2 then
       Ret (lit ''Compaction skipped: requires at least 2 SSTables (currently '' @
            decimal (length before_ssts) @ lit '')'' @ [10], kv, w)
     else
      let started = out_line ''Compaction started'' @ lit ''Input SSTables: '' @ cli_names before_ssts in
      obind (kv_compact kv w) (\<lambda>(s, kv, w).
      if \<not> ok s then Ret (started @ cli_error s, kv, w)
      else case getActiveSSTables db_path w of (after_ssts, w) \<Rightarrow>
        Ret (started @
             lit ''Output SSTable: '' @ (if after_ssts = [] then lit ''(none)'' else hd after_ssts) @ [10] @
             lit ''Old SSTables removed: '' @ cli_names before_ssts @
             out_line ''Compaction complete'', kv, w)))"

definition cli_stats :: "path \<Rightarrow> KVStore \<Rightarrow> world \<Rightarrow> bytes \<times> world" where
  "cli_stats db_path kv w =
    (case getActiveSSTables db_path w of (ssts, w) \<Rightarrow>
       (lit ''Database Path:       '' @ db_path @ [10] @
        lit ''Active SSTables:     '' @ decimal (length ssts) @ [10] @
        concat (map (\<lambda>sst. lit ''  - '' @ sst @ [10]) ssts) @
        lit ''MemTable Approx Size:'' @ decimal (unat (kv_memtableSize kv)) @ lit '' bytes'' @ [10], w))"

text \<open>One line of input: what is printed, whether the loop goes on, and the store after it.\<close>

definition cli_line ::
  "path \<Rightarrow> bytes \<Rightarrow> KVStore \<Rightarrow> world \<Rightarrow> (bytes \<times> bool \<times> KVStore \<times> world) outcome" where
  "cli_line db_path line kv w =
    (let line = trim line in
     if line = [] then Ret ([], True, kv, w)
     else case next_token line of (cmd, iss) \<Rightarrow>
      let cmd_upper = toUpper cmd;
          continue = (\<lambda>(out, kv, w). Ret (out, True, kv, w)) in
      if cmd_upper = lit ''EXIT'' \<or> cmd_upper = lit ''QUIT'' then Ret ([], False, kv, w)
      else if cmd_upper = lit ''HELP'' then Ret (cli_help, True, kv, w)
      else if cmd_upper = lit ''PUT'' then obind (cli_put iss kv w) continue
      else if cmd_upper = lit ''GET'' then obind (cli_get iss kv w) continue
      else if cmd_upper = lit ''DELETE'' then obind (cli_delete iss kv w) continue
      else if cmd_upper = lit ''FLUSH'' then obind (cli_flush db_path kv w) continue
      else if cmd_upper = lit ''COMPACT'' then obind (cli_compact db_path kv w) continue
      else if cmd_upper = lit ''STATS'' then
        (case cli_stats db_path kv w of (out, w) \<Rightarrow> Ret (out, True, kv, w))
      else Ret (lit ''Unknown command: '' @ [39] @ cmd @ [39] @
                lit ''. Type HELP for available commands.'' @ [10], True, kv, w))"

text \<open>The loop over the lines of the input, with its prompt.\<close>

fun cli_loop ::
  "path \<Rightarrow> bytes list \<Rightarrow> KVStore \<Rightarrow> world \<Rightarrow> (bytes \<times> KVStore \<times> world) outcome" where
  "cli_loop db_path [] kv w = Ret (lit ''annany_lsm> '', kv, w)"
| "cli_loop db_path (line # lines) kv w =
     obind (cli_line db_path line kv w) (\<lambda>(out, go_on, kv, w).
       if go_on then
         obind (cli_loop db_path lines kv w) (\<lambda>(out', kv, w).
           Ret (lit ''annany_lsm> '' @ out @ out', kv, w))
       else Ret (lit ''annany_lsm> '' @ out, kv, w))"

definition cli_banner :: "path \<Rightarrow> bytes" where
  "cli_banner db_path =
     out_line ''========================================'' @
     out_line ''       LSM-Tree Key-Value Store         '' @
     out_line ''========================================'' @
     lit ''Database: '' @ db_path @ [10] @
     out_line ''Type HELP for commands.'' @ [10]"

text \<open>The whole program: the exit code and the two output streams.\<close>

definition cli_main ::
  "bytes option \<Rightarrow> bytes \<Rightarrow> world \<Rightarrow> (nat \<times> bytes \<times> bytes \<times> world) outcome" where
  "cli_main arg input w =
    (let db_path = (case arg of Some a \<Rightarrow> a | None \<Rightarrow> lit ''./demo_db'') in
     obind (kv_open db_path (kv_new default_options) w) (\<lambda>(s, kv, w).
     if \<not> ok s then
       Ret (1, [], lit ''Failed to open database at '' @ [39] @ db_path @ [39] @ lit '': '' @
                 toString s @ [10], w)
     else
      obind (cli_loop db_path (getlines input) kv w) (\<lambda>(out, kv, w).
        case kv_close kv w of (_, kv, w) \<Rightarrow>
          Ret (0, cli_banner db_path @ out @ out_line ''Database closed. Goodbye!'', [], w))))"

section \<open>The names of the active tables\<close>

lemma trim_id: "s = [] \<or> \<not> cli_space (hd s) \<and> \<not> cli_space (last s) \<Longrightarrow> trim s = s"
  by (auto simp: trim_def dropWhile_eq_self_iff [THEN iffD2] hd_rev)

lemma trim_filename: "trim (sst_filename n) = sst_filename n"
  by (rule trim_id) (simp add: sst_filename_eq cli_space_def)

lemma filter_trim:
  "filter (\<lambda>l. l \<noteq> []) ls = ns \<Longrightarrow> \<forall>n\<in>set ns. trim n = n \<Longrightarrow>
     filter (\<lambda>l. l \<noteq> []) (map trim ls) = ns"
  by (induction ls arbitrary: ns) (auto simp: trim_id split: if_splits)

lemma getActiveSSTables_inv:
  assumes "kv_inv ts rs kv w"
  shows "getActiveSSTables (kv_db_path kv) w = (map (\<lambda>t. sst_filename (fst t)) ts, w)"
proof -
  let ?db = "kv_db_path kv"
  have f: "faults w = []" and lines: "manifest_lines ?db w = map (\<lambda>t. sst_filename (fst t)) ts"
    using assms by (simp_all add: kv_inv_def kv_disk_def kv_tables_def)
  have path: "?db @ lit ''/manifest.txt'' = manifest_path ?db" by (simp add: manifest_path_def)
  show ?thesis
  proof (cases "files w (manifest_path ?db)")
    case None
    then show ?thesis
      using lines f by (simp add: getActiveSSTables_def path Let_def manifest_lines_def ifs_open_none)
  next
    case (Some content)
    have "filter (\<lambda>l. l \<noteq> []) (map trim (getlines content)) = map (\<lambda>t. sst_filename (fst t)) ts"
      using lines by (intro filter_trim) (auto simp: manifest_lines_def Some trim_filename)
    with Some show ?thesis
      using f by (simp add: getActiveSSTables_def path fs_exists_def ifs_open_none)
  qed
qed

section \<open>Properties\<close>

text \<open>A line that is a command and its arguments.\<close>

lemma next_token_word:
  "list_all (\<lambda>c. \<not> is_space c) k \<Longrightarrow> k \<noteq> [] \<Longrightarrow> next_token ([32] @ k @ [32] @ v) = (k, [32] @ v)"
  "list_all (\<lambda>c. \<not> is_space c) k \<Longrightarrow> k \<noteq> [] \<Longrightarrow> next_token (k @ [32] @ v) = (k, [32] @ v)"
  "list_all (\<lambda>c. \<not> is_space c) k \<Longrightarrow> k \<noteq> [] \<Longrightarrow> next_token ([32] @ k) = (k, [])"
proof -
  have word: "takeWhile (\<lambda>c. \<not> is_space c) (k @ bs) = k @ takeWhile (\<lambda>c. \<not> is_space c) bs"
    "dropWhile (\<lambda>c. \<not> is_space c) (k @ bs) = dropWhile (\<lambda>c. \<not> is_space c) bs"
    "dropWhile is_space (k @ bs) = k @ bs"
    if "list_all (\<lambda>c. \<not> is_space c) k" "k \<noteq> []" for bs
    using that by (simp_all add: list_all_iff takeWhile_append2 dropWhile_append2)
      (cases k, auto)
  show "list_all (\<lambda>c. \<not> is_space c) k \<Longrightarrow> k \<noteq> [] \<Longrightarrow> next_token ([32] @ k @ [32] @ v) = (k, [32] @ v)"
    "list_all (\<lambda>c. \<not> is_space c) k \<Longrightarrow> k \<noteq> [] \<Longrightarrow> next_token (k @ [32] @ v) = (k, [32] @ v)"
    using word by (simp_all add: next_token_def Let_def is_space_def [of 32])
  show "list_all (\<lambda>c. \<not> is_space c) k \<Longrightarrow> k \<noteq> [] \<Longrightarrow> next_token ([32] @ k) = (k, [])"
    using word [of "[]"] by (simp add: next_token_def Let_def is_space_def [of 32])
qed

lemma cli_space_is_space: "cli_space c \<Longrightarrow> is_space c"
  by (auto simp: cli_space_def is_space_def)

lemma toUpper_no_space:
  assumes "list_all (\<lambda>c. \<not> is_space c) (toUpper cmd)"
  shows "list_all (\<lambda>c. \<not> is_space c) cmd"
proof -
  have "is_space c \<Longrightarrow> \<not> (97 \<le> c \<and> c \<le> 122)" for c :: byte
    by (auto simp: is_space_def word_le_nat_alt)
  then show ?thesis using assms by (induction cmd) (auto simp: toUpper_def split: if_splits)
qed

lemma trim_command:
  assumes "list_all (\<lambda>c. \<not> is_space c) cmd" "cmd \<noteq> []" "rest \<noteq> []" "\<not> cli_space (last rest)"
  shows "trim (cmd @ rest) = cmd @ rest"
  using assms by (intro trim_id) (cases cmd, auto dest: cli_space_is_space)

lemma last_trimmed: "trim s = s \<Longrightarrow> s \<noteq> [] \<Longrightarrow> \<not> cli_space (last s)"
  by (metis hd_dropWhile hd_rev rev_is_Nil_conv rev_rev_ident trim_def)

text \<open>
  C31: what the client puts, it gets. A line of the command \<^verbatim>\<open>PUT\<close>, in any mixture of cases, a
  key without white space and a value that does not begin or end with white space is
  acknowledged; \<^verbatim>\<open>GET\<close> then prints the value and a newline.
\<close>

theorem cli_put_then_get:
  assumes "kv_ok n kv w" "capacity n (kv_options kv)" "toUpper cmd = lit ''PUT''"
    and "list_all (\<lambda>c. \<not> is_space c) key" "key \<noteq> []" "trim val = val" "val \<noteq> []"
    and "length key \<le> 16 * 1024 * 1024" "length val \<le> 64 * 1024 * 1024"
  shows "\<exists>kv1 w1. cli_line db (cmd @ [32] @ key @ [32] @ val) kv w =
      Ret (out_line ''OK [WAL appended]'', True, kv1, w1) \<and>
    cli_line db (lit ''GET '' @ key) kv1 w1 = Ret (val @ [10], True, kv1, w1)"
proof -
  have cmd: "list_all (\<lambda>c. \<not> is_space c) cmd" "cmd \<noteq> []"
    using assms(3) toUpper_no_space [of cmd] by (auto simp: lit_def is_space_def toUpper_def)
  have get: "list_all (\<lambda>c. \<not> is_space c) (lit ''GET'')" "lit ''GET'' \<noteq> []" "toUpper (lit ''GET'') = lit ''GET''"
    by (simp_all add: lit_def is_space_def toUpper_def)
  have key: "\<not> cli_space (last key)"
    using assms(4,5) cli_space_is_space by (metis in_set_conv_decomp list.pred_set append_butlast_last_id)
  note val = last_trimmed [OF assms(6,7)]
  have trimmed: "trim (cmd @ [32] @ key @ [32] @ val) = cmd @ [32] @ key @ [32] @ val"
    using val assms(7) by (intro trim_command [OF cmd]) simp_all
  have stripped: "trim ([32] @ val) = val"
    using assms(6) by (simp add: trim_def cli_space_def [of 32])
  obtain kv1 w1 where put: "kv_put key val kv w = Ret (Status_OK, kv1, w1)" "kv_ok (Suc n) kv1 w1"
    "kv_view kv1 w1 = (kv_view kv w)(key := Some val)"
    using client_exec_ok [OF assms(1,2), of "Put key val"] assms(5,8,9) by (auto simp: client_exec_def)
  note tokens = next_token_word(2) [OF cmd, of "key @ [32] @ val"] next_token_word(1) [OF assms(4,5), of val]
  have "cli_line db (cmd @ [32] @ key @ [32] @ val) kv w = Ret (out_line ''OK [WAL appended]'', True, kv1, w1)"
    using tokens trimmed stripped cmd(2) assms(5,7)
    by (simp add: cli_line_def Let_def assms(3) cli_put_def put(1)) (simp add: lit_def)
  moreover have "reads (kv_view kv1 w1) key (fst (kv_get key kv1 w1))" "snd (kv_get key kv1 w1) = w1"
    using kv_ok_get [OF put(2) assms(5)] by simp_all
  then have "kv_get key kv1 w1 = (Result_OK val, w1)"
    by (cases "kv_get key kv1 w1") (simp add: reads_def put(3))
  moreover have "lit ''GET '' @ key = lit ''GET'' @ [32] @ key" by (simp add: lit_def)
  moreover have "trim (lit ''GET'' @ [32] @ key) = lit ''GET'' @ [32] @ key"
    using key assms(5) by (intro trim_command [OF get(1,2)]) simp_all
  ultimately show ?thesis
    using next_token_word(2) [OF get(1,2), of key] next_token_word(3) [OF assms(4,5)] assms(5)
    by (simp add: cli_line_def Let_def get(3) cli_get_def) (simp add: lit_def)
qed

theorem cli_put_then_get_witness:
  "\<exists>kv1 w1. cli_line sample_db (lit ''pUt k a b'') sample_store sample_world =
      Ret (out_line ''OK [WAL appended]'', True, kv1, w1) \<and>
    cli_line sample_db (lit ''GET k'') kv1 w1 = Ret (lit ''a b'' @ [10], True, kv1, w1)"
proof -
  have "lit ''pUt k a b'' = lit ''pUt'' @ [32] @ lit ''k'' @ [32] @ lit ''a b''"
    "lit ''GET k'' = lit ''GET '' @ lit ''k''"
    by (simp_all add: lit_def)
  moreover have "toUpper (lit ''pUt'') = lit ''PUT''" "list_all (\<lambda>c. \<not> is_space c) (lit ''k'')"
    "trim (lit ''a b'') = lit ''a b''"
    by (simp_all add: toUpper_def lit_def is_space_def trim_def cli_space_def)
  ultimately show ?thesis
    using cli_put_then_get [OF sample_ok, of "lit ''pUt''" "lit ''k''" "lit ''a b''" sample_db]
      sample_capacity [of 3]
    by (simp only: sample_simps) (simp add: lit_def)
qed

lemma kv_few_tables:
  assumes "kv_inv ts rs kv w" "kv_sized n m ts kv"
  shows "length ts \<le> m"
proof -
  have "distinct (map fst ts)" "\<forall>x\<in>fst ` set ts. x < kv_next_sst_seq kv"
    using assms(1) unfolding kv_inv_def kv_disk_def kv_tables_def kv_memory_def by blast+
  moreover have "distinct (map unat ns)" "set (map unat ns) \<subseteq> {..<unat x}"
    if "distinct ns" "\<forall>n\<in>set ns. n < x" for ns :: "u64 list" and x
    using that by (auto simp: distinct_map inj_on_def word_less_nat_alt word_unat_eq_iff)
  ultimately have "distinct (map unat (map fst ts))"
    "set (map unat (map fst ts)) \<subseteq> {..<unat (kv_next_sst_seq kv)}"
    unfolding set_map [symmetric] by blast+
  then have "length (map unat (map fst ts)) \<le> card {..<unat (kv_next_sst_seq kv)}"
    by (metis card_mono distinct_card finite_lessThan)
  then show ?thesis using assms(2) by (simp add: kv_sized_def)
qed

text \<open>
  C32: a flush is reported as none. When a flush makes the number of tables reach the threshold
  of compaction, it writes a table and merges all of them into one, so that there are no more
  tables than before; the command then prints that the MemTable was empty and that no table was
  created, although neither is true.
\<close>

theorem cli_flush_misreports:
  assumes "kv_ok n kv w" "capacity n (kv_options kv)" "\<not> mt_empty (kv_memtable kv)"
    and "kv_sstables kv \<noteq> []"
    and "unat (compaction_threshold (kv_options kv)) \<le> Suc (length (kv_sstables kv))"
  shows "\<exists>kv' w'. cli_flush (kv_db_path kv) kv w =
      Ret (out_line ''FLUSH complete (MemTable was empty, no new SSTable created)'', kv', w') \<and>
    length (kv_sstables kv') = 1 \<and> mt_empty (kv_memtable kv') \<and> kv_view kv' w' = kv_view kv w"
proof -
  obtain ts rs where inv: "kv_inv ts rs kv w" and sized: "kv_sized n (2 * n + 1) ts kv"
    using assms(1) by (auto simp: kv_ok_def)
  let ?kv1 = "flushed ts kv" and ?w1 = "emit (flush_events ts kv) w"
  let ?ts1 = "ts @ [flush_tab kv]"
  let ?kv2 = "compacted_store ?ts1 ?kv1" and ?w2 = "emit (kv_compact_events ?ts1 ?kv1 ?w1) ?w1"
  have m: "2 * n + 1 < 2 ^ 64 - 1" "Suc (2 * n + 1) < 2 ^ 64 - 1"
    using assms(2) by (simp_all add: capacity_def)
  have len: "length (kv_sstables kv) = length ts" and open_kv: "kv_is_open kv"
    using inv by (simp_all add: kv_inv_def kv_memory_def)
  then have ts: "2 \<le> length ?ts1" "?ts1 \<noteq> []" using assms(4) by (auto simp: Suc_le_eq)
  have can: "can_flush kv" by (rule kv_ok_can_flush [OF inv sized assms(2)])
  note inv1 = kv_inv_flushed [OF inv can]
  have can1: "can_compact ?ts1 ?kv1"
    by (rule kv_sized_can_compact [OF kv_sized_flushed [OF sized m(1)] _ m(2)]) (simp add: assms(2))
  have "Suc (length ts) < 2 ^ 64" using kv_few_tables [OF inv sized] m by simp
  then have thr: "compaction_threshold (kv_options kv) \<le> of_nat (length ts + 1)"
    using assms(5) len by (simp add: word_le_nat_alt unat_of_nat_u64 del: of_nat_add of_nat_Suc)
  have flush: "kv_flush kv w = Ret (Status_OK, ?kv2, ?w2)"
    using kv_flushInternal_eq [OF inv assms(3) can] thr kv_compactInternal_eq [OF inv1 ts(1) can1] open_kv
    by (simp add: kv_flush_def)
  have before: "getActiveSSTables (kv_db_path kv) w = (map (\<lambda>t. sst_filename (fst t)) ts, w)"
    by (rule getActiveSSTables_inv [OF inv])
  have after: "getActiveSSTables (kv_db_path kv) ?w2 = ([sst_filename (fst (compact_tab ?ts1 ?kv1))], ?w2)"
    using getActiveSSTables_inv [OF kv_inv_compacted [OF inv1 ts(2) can1]] by simp
  have "cli_flush (kv_db_path kv) kv w =
      Ret (out_line ''FLUSH complete (MemTable was empty, no new SSTable created)'', ?kv2, ?w2)"
    using ts(1) unfolding cli_flush_def before prod.case flush obind.simps after
    by (cases ts) simp_all
  moreover have "kv_view ?kv2 ?w2 = kv_view kv w"
    using kv_view_compacted [OF inv1 ts(2) can1] kv_view_flushed [OF inv can] by simp
  moreover have "length (kv_sstables ?kv2) = 1" "mt_empty (kv_memtable ?kv2)"
    by (simp_all add: compacted_store_def flushed_def mt_empty_def)
  ultimately show ?thesis by blast
qed

definition merging_options :: Options where
  "merging_options = default_options\<lparr>compaction_threshold := 3\<rparr>"

definition merging_store :: KVStore where
  "merging_store = kv_recovered sample_db sample_tabs [sample_record] (kv_new merging_options)"

lemma merging_store_simps [simp]:
  "kv_db_path merging_store = sample_db" "kv_options merging_store = merging_options"
  "kv_memtable merging_store = kv_memtable sample_store"
  by (simp_all add: merging_store_def sample_store_def)
    (simp add: kv_recovered_def merging_options_def)

lemma merging_ok: "kv_ok 3 merging_store sample_world"
proof -
  have "kv_sized 3 (2 * 3 + 1) sample_tabs merging_store"
    by (simp add: kv_sized_def mt_entries_def table_mt_put)
      (simp add: sample_tabs_def entry_small_def sst_value_def kve_isTombstone_def merging_store_def
        kv_recovered_def kv_loaded_def)
  moreover have "log_holds sample_db [sample_record] [] sample_stored"
    by (rule sample_log_holds)
  then have "kv_inv sample_tabs [sample_record] merging_store sample_world"
    unfolding merging_store_def sample_world_def
    by (intro kv_inv_recovered sample_tables_on_disk kv_closed_new) simp_all
  ultimately show ?thesis by (auto simp: kv_ok_def)
qed

theorem cli_flush_misreports_witness:
  "\<exists>kv' w'. cli_flush sample_db merging_store sample_world =
     Ret (out_line ''FLUSH complete (MemTable was empty, no new SSTable created)'', kv', w') \<and>
     length (kv_sstables kv') = 1"
proof -
  have "capacity 3 merging_options" "kv_sstables merging_store \<noteq> []"
    "unat (compaction_threshold merging_options) \<le> Suc (length (kv_sstables merging_store))"
    using sample_capacity [of 3]
    by (simp_all add: capacity_def merging_options_def merging_store_def kv_recovered_def kv_loaded_def
        sample_tabs_def)
  then show ?thesis
    using cli_flush_misreports [OF merging_ok] sample_can_flush(2) by auto
qed

end

