(* ===== verification/Spec2Isabelle.thy ===== *)
theory Spec2Isabelle
  imports Crc Codec StdIO Types OrderedMap Levels MemTable Framing Wal Bloom SSTIndex SSTWriter
    SSTReader SSTable Compaction KVStore KVNames KVInvariant Capacity Recovery Client Crash Faults Cli
begin

text \<open>
  A model of the LSM-tree key-value store under \<^verbatim>\<open>src/\<close> and the theorems that make it correct.

  \<^bold>\<open>The program.\<close> A put or a remove is appended to the write-ahead log and applied to the MemTable,
  a sorted map in memory. When the estimated size of the MemTable reaches a threshold, the next
  write first flushes it into a new SSTable (data records, sparse index, Bloom filter, footer),
  names that table in the manifest, and truncates the log. When the number of tables reaches a
  second threshold, all of them are merged into one. A lookup asks the MemTable and then the
  tables from the newest to the oldest. Opening a database reads the manifest, opens its tables
  and replays the log.

  \<^bold>\<open>The theories\<close>, and the sources (under \<^verbatim>\<open>src/include/lsm/\<close> and \<^verbatim>\<open>src/src/\<close>) they model:

  \<^item> Prelude: bytes, strings, machine words; \<open>outcome\<close>, the result of a call that may return,
    throw, or run into undefined behaviour.
  \<^item> Types: \<^verbatim>\<open>status.h\<close>, \<^verbatim>\<open>types.h\<close>, \<^verbatim>\<open>options.h\<close>, and the numerals of the standard library.
    Crc: \<^verbatim>\<open>crc32\<close> of \<^verbatim>\<open>types.h\<close>. Codec: the little-endian helpers of the \<^verbatim>\<open>.cpp\<close> files.
  \<^item> StdIO: the part of the C++ library that the store calls for its files.
  \<^item> OrderedMap: \<^verbatim>\<open>std::map\<close>, as the locale \<^theory_text>\<open>ordered_map\<close> and its model, the sorted association
    list. Levels: the locale \<^theory_text>\<open>level\<close>, the contract of a lookup that MemTable and tables share.
    Framing: the record layout that log and tables share, and the locale \<^theory_text>\<open>framed\<close> of its readers.
  \<^item> MemTable: \<^verbatim>\<open>memtable.h\<close>, \<^verbatim>\<open>memtable.cpp\<close>. Wal: \<^verbatim>\<open>wal.h\<close>, \<^verbatim>\<open>wal.cpp\<close>. Bloom:
    \<^verbatim>\<open>bloom_filter.h\<close>, \<^verbatim>\<open>bloom_filter.cpp\<close>, with the locale \<^theory_text>\<open>membership_filter\<close>.
  \<^item> SSTIndex, SSTWriter, SSTReader: \<^verbatim>\<open>sstable.h\<close>, \<^verbatim>\<open>sstable.cpp\<close>; SSTable: both ends together.
  \<^item> Compaction: \<^verbatim>\<open>compaction.cpp\<close>. KVStore: \<^verbatim>\<open>kv_store.h\<close>, \<^verbatim>\<open>kv_store.cpp\<close>, on which KVNames
    (file names), KVInvariant (the invariant and the effect of flush and compaction), Capacity
    (how large a store may grow), Recovery (opening), Client (the store as a map, with the locale
    \<^theory_text>\<open>simulation\<close>) Crash (crashes) and Faults (calls that fail) build. Cli: \<^verbatim>\<open>cli.cpp\<close>.

  A C++ class is a record with its fields; a method is a function of the same name, with a short
  prefix (\<open>mt_\<close>, \<open>wal_\<close>, \<open>bf_\<close>, \<open>idx_\<close>, \<open>ft_\<close>, \<open>sw_\<close>, \<open>sr_\<close>, \<open>kv_\<close>, \<open>cli_\<close>), from the object and the
  world to the result, the new object and the new world. An out-parameter is a further result.
  Integers have the width of the code, so that sums wrap around where they do there.

  \<^bold>\<open>The outside world.\<close> A \<open>world\<close> holds the files, the directories, a list of pending faults and
  the history of changes. Each library call that may fail takes an entry of the fault list: a
  failed write puts a part of its bytes on disk, a failed flush, open, rename or removal does what
  StdIO says. With no pending fault a call succeeds. A stream keeps what is written to it until
  it is flushed or closed; that the C++ stream may write earlier makes a difference only to what a
  crash leaves, and there Crash lets any part of a write be on disk. A crash leaves the effect of
  a prefix of the changes, in their order, with the last append possibly cut short: the crash of
  the process, not the reordering that a loss of power can cause. The text of operating-system
  errors and the content of uninitialised memory are parameters of the world.

  \<^bold>\<open>What is proved.\<close>

  \<^item> The store: on a new database every sequence of operations, restarts included, refines the
    updates of a map (\<open>kv_run_refines\<close>); each operation keeps the invariant \<open>kv_inv\<close> and changes
    the map by what it says (\<open>kv_step_refines\<close>); lookups read that map (\<open>kv_get_correct\<close>).
    \<open>kv_inv\<close> relates the disk (tables, manifest, log) to the memory (readers, MemTable, next
    sequence number); the map is the merge of the levels. The bound is on the number of writes:
    with \<open>n\<close> writes such that \<open>n < 2 ^ 32\<close> and \<open>max n 100\<close> times the filter's bits per key is less
    than \<open>2 ^ 34\<close>, with keys of at most 16 MiB and values of at most 64 MiB, every table fits its
    format (Capacity), and sequence numbers cannot run out.
  \<^item> Crashes: a put and a flush that start no compaction are atomic under a crash at any point
    (\<open>kv_put_crash_atomic\<close>, \<open>kv_flush_crash_safe\<close>); a compaction is not, and a torn log tail makes
    later writes vanish (\<open>kv_compaction_crash_loses\<close>, \<open>kv_torn_tail_loses_writes\<close>).
  \<^item> Failing calls: a flush whose manifest could not be written returns \<^verbatim>\<open>OK\<close> and leaves a database
    that opens empty (\<open>kv_flush_loses_all_on_full_disk\<close>); \<open>padded\<close> places the failing call.
  \<^item> Compaction: the merge of the levels, the run of the protocol, and that a failing run loses
    nothing, whatever faults occur.
  \<^item> Tables: the bytes the writer leaves, that the reader reads them back, that lookups through
    filter, sparse index and scan answer as the map of the entries, that they invent nothing
    whatever a file holds, that damage is detected.
  \<^item> The log: appended records are replayed, torn logs up to the tear, nothing is invented, damage
    is detected. MemTable: a map with tombstones and an exact size estimate. Bloom filter: no false
    negatives, exact positives. CRC32: division by the polynomial, detection of bursts of up to
    32 bits. Codecs, index, footer and filter: round trips.
  \<^item> What the code does not get right is stated as a theorem too: \<open>wal_append_ignores_failed_flush\<close>,
    \<open>wal_accepts_unreplayable\<close>, \<open>wal_buffer_overflow_iff\<close>, \<open>bloom_deserialize_overread\<close>,
    \<open>sst_write_ignores_full_disk\<close>, \<open>sst_open_throws\<close>, \<open>sst_scan_uses_uninitialised\<close>,
    \<open>kv_get_ignores_read_error\<close>, \<open>kv_flush_loses_all_on_full_disk\<close>,
    \<open>cli_flush_misreports\<close> and the two about crashes above.

  \<^bold>\<open>Termination.\<close> No loop has fuel. The replay and scan loops and the binary search terminate by a
  measure (the bytes left, the length of the range), the others by recursion on a list, so that
  every function is total and the theorems are about results that exist.

  \<^bold>\<open>Not modelled.\<close> Tests and benchmarks; getters that only return a field and the move operations
  of the readers; running out of memory; paths whose file system meaning goes beyond their text
  (symbolic links, two paths for one file); two processes on one database (the program has no
  threads and no lock); what \<^verbatim>\<open>fs::exists\<close> throws when the file system denies the question.
\<close>

end
